(* ===== verification/WD_Prelude.thy ===== *)
theory WD_Prelude
  imports Main "HOL-Library.Word"
begin

text \<open>
  Shared ground of the development: the machine integer types of the C sources
  (\<open>uint8_t\<close> to \<open>uint64_t\<close> as words, so that \<open>+\<close>, \<open>-\<close> and \<open>*\<close> wrap as in C), checked
  reads and writes of a memory block (\<open>None\<close> is an access outside the block, which the
  C code must never make), little-endian byte images of integers, and the generic
  lemmas on words, lists and division that the component theories use.

  Collections: \<open>wd_word\<close> turns word comparisons and arithmetic into statements on
  \<open>unat\<close>; \<open>wd_mem\<close> unfolds the checked memory accesses.
\<close>

unbundle bit_operations_syntax

named_theorems wd_word \<open>words read as natural numbers\<close>
named_theorems wd_mem \<open>checked memory accesses\<close>

type_synonym u8 = "8 word"
type_synonym u16 = "16 word"
type_synonym u32 = "32 word"
type_synonym u64 = "64 word"
type_synonym bytes = "u8 list"

abbreviation UINT8_MAX :: "'a::len word" where "UINT8_MAX \<equiv> 255"
abbreviation UINT16_MAX :: "'a::len word" where "UINT16_MAX \<equiv> 65535"
abbreviation UINT32_MAX :: "'a::len word" where "UINT32_MAX \<equiv> 4294967295"
abbreviation UINT64_MAX :: "u64" where "UINT64_MAX \<equiv> 18446744073709551615"

section \<open>Words as natural numbers\<close>

lemmas [wd_word] = word_less_nat_alt word_le_nat_alt unat_div unat_mod

lemma unat_eq_iff [wd_word]: "x = y \<longleftrightarrow> unat x = unat (y :: 'a::len word)"
  by (simp add: word_unat_eq_iff)

lemma unat_ucast_mod: "unat (ucast (x :: 'a::len word) :: 'b::len word) = unat x mod 2 ^ LENGTH('b)"
  by (simp add: unsigned_ucast_eq take_bit_eq_mod)

lemma unat_ucast_up [simp]:
  assumes "LENGTH('a) \<le> LENGTH('b)"
  shows "unat (ucast (x :: 'a::len word) :: 'b::len word) = unat x"
proof -
  have "unat x < 2 ^ LENGTH('a)" by (rule unsigned_less)
  also have "(2::nat) ^ LENGTH('a) \<le> 2 ^ LENGTH('b)" using assms by (intro power_increasing) auto
  finally show ?thesis by (simp add: unat_ucast_mod)
qed

lemma unat_ucast_small:
  "unat (x :: 'a::len word) < 2 ^ LENGTH('b) \<Longrightarrow> unat (ucast x :: 'b::len word) = unat x"
  by (simp add: unat_ucast_mod)

lemma unat_u8_lt: "unat (x :: u8) < 256" using unsigned_less [of x] by simp
lemma unat_u16_lt: "unat (x :: u16) < 65536" using unsigned_less [of x] by simp
lemma unat_u32_lt: "unat (x :: u32) < 4294967296" using unsigned_less [of x] by simp
lemma unat_u64_lt: "unat (x :: u64) < 18446744073709551616" using unsigned_less [of x] by simp

lemmas unat_bounds = unat_u8_lt unat_u16_lt unat_u32_lt unat_u64_lt

lemma unat_add_exact:
  "unat x + unat y < 2 ^ LENGTH('a) \<Longrightarrow> unat (x + y :: 'a::len word) = unat x + unat y"
  by (simp add: unat_word_ariths)

lemma unat_mult_exact:
  "unat x * unat y < 2 ^ LENGTH('a) \<Longrightarrow> unat (x * y :: 'a::len word) = unat x * unat y"
  by (simp add: unat_word_ariths)

lemma unat_sub_exact:
  "unat y \<le> unat x \<Longrightarrow> unat (x - y :: 'a::len word) = unat x - unat y"
  by (simp add: unat_sub word_le_nat_alt)

text \<open>The guarded 64-bit addition that saturates.\<close>

lemma unat_sat_add64:
  "unat (if UINT64_MAX - a < b then UINT64_MAX else a + b :: u64) = min 18446744073709551615 (unat a + unat b)"
proof -
  have d: "unat (UINT64_MAX - a) = 18446744073709551615 - unat a"
    using unat_u64_lt [of a] by (subst unat_sub_exact) simp_all
  show ?thesis
  proof (cases "UINT64_MAX - a < b")
    case True
    then show ?thesis using d unat_u64_lt [of a] by (simp add: word_less_nat_alt)
  next
    case False
    then have le: "unat a + unat b \<le> 18446744073709551615"
      using d unat_u64_lt [of a] by (simp add: word_less_nat_alt)
    then have "unat (a + b) = unat a + unat b" by (intro unat_add_exact) simp
    with False le show ?thesis by simp
  qed
qed

lemma unat_word_of_nat [simp]: "unat (word_of_nat n :: 'a::len word) = n mod 2 ^ LENGTH('a)"
  by (simp add: unsigned_of_nat take_bit_eq_mod)

lemma u8_word_of_unat [simp]: "word_of_nat (unat (w :: 'a::len word)) = w"
  by simp

section \<open>Checked memory accesses\<close>

definition rd :: "'a list \<Rightarrow> nat \<Rightarrow> 'a option" where [wd_mem]:
  "rd m i = (if i < length m then Some (m ! i) else None)"

definition wr_elem :: "'a list \<Rightarrow> nat \<Rightarrow> 'a \<Rightarrow> 'a list option" where [wd_mem]:
  "wr_elem m i v = (if i < length m then Some (m[i := v]) else None)"

definition rd_range :: "'a list \<Rightarrow> nat \<Rightarrow> nat \<Rightarrow> 'a list option" where [wd_mem]:
  "rd_range m off n = (if off + n \<le> length m then Some (take n (drop off m)) else None)"

definition wr_range :: "'a list \<Rightarrow> nat \<Rightarrow> 'a list \<Rightarrow> 'a list option" where [wd_mem]:
  "wr_range m off ys =
     (if off + length ys \<le> length m
      then Some (take off m @ ys @ drop (off + length ys) m) else None)"

lemma rd_Some_iff: "rd m i = Some v \<longleftrightarrow> i < length m \<and> v = m ! i"
  by (auto simp: rd_def)

lemma rd_in [simp]: "i < length m \<Longrightarrow> rd m i = Some (m ! i)"
  by (simp add: rd_def)

lemma wr_in [simp]: "i < length m \<Longrightarrow> wr_elem m i v = Some (m[i := v])"
  by (simp add: wr_elem_def)

lemma length_wr_range: "wr_range m off ys = Some m' \<Longrightarrow> length m' = length m"
  by (auto simp: wr_range_def split: if_splits)

lemma nth_wr_range:
  assumes "wr_range m off ys = Some m'" and "i < length m"
  shows "m' ! i = (if off \<le> i \<and> i < off + length ys then ys ! (i - off) else m ! i)"
proof -
  from assms(1) have len: "off + length ys \<le> length m"
    and m': "m' = take off m @ ys @ drop (off + length ys) m"
    by (auto simp: wr_range_def split: if_splits)
  consider "i < off" | "off \<le> i" "i < off + length ys" | "off + length ys \<le> i" by linarith
  then show ?thesis
  proof cases
    case 1 then show ?thesis using len assms(2) by (simp add: m' nth_append)
  next
    case 2
    then have "i - off < length ys" by linarith
    with 2 show ?thesis using len assms(2) by (simp add: m' nth_append)
  next
    case 3
    then have "i - (off + length ys) + (off + length ys) = i" and "\<not> i - off < length ys" by simp_all
    with 3 show ?thesis using len assms(2) by (simp add: m' nth_append)
  qed
qed

lemma wr_range_rd_range_self:
  "rd_range m off n = Some ys \<Longrightarrow> wr_range m off ys = Some m"
  by (auto simp: rd_range_def wr_range_def split: if_splits)
     (metis add.commute append_take_drop_id drop_drop)

section \<open>Little-endian byte images\<close>

text \<open>
  The protocol sends packed structures as they lie in memory on a little-endian host:
  a field of \<open>k\<close> bytes is its value in base 256, least significant byte first.
\<close>

primrec le_bytes :: "nat \<Rightarrow> nat \<Rightarrow> bytes" where
  "le_bytes 0 n = []"
| "le_bytes (Suc k) n = word_of_nat n # le_bytes k (n div 256)"

primrec le_val :: "bytes \<Rightarrow> nat" where
  "le_val [] = 0"
| "le_val (b # bs) = unat b + 256 * le_val bs"

lemma length_le_bytes [simp]: "length (le_bytes k n) = k"
  by (induction k arbitrary: n) auto

lemma le_val_le_bytes: "le_val (le_bytes k n) = n mod 256 ^ k"
proof (induction k arbitrary: n)
  case 0 show ?case by simp
next
  case (Suc k)
  have "n mod 256 ^ Suc k = 256 * (n div 256 mod 256 ^ k) + n mod 256"
    by (simp add: mod_mult2_eq)
  then show ?case by (simp add: Suc)
qed

lemma le_val_less: "le_val bs < 256 ^ length bs"
proof (induction bs)
  case Nil show ?case by simp
next
  case (Cons b bs)
  have "unat b < 256" by (rule unat_u8_lt)
  with Cons show ?case by simp
qed

lemma le_bytes_le_val: "le_bytes (length bs) (le_val bs) = bs"
proof (induction bs)
  case Nil show ?case by simp
next
  case (Cons b bs)
  have b: "unat b < 256" by (rule unat_u8_lt)
  then have "(unat b + 256 * le_val bs) div 256 = le_val bs" by simp
  moreover have "unat (word_of_nat (unat b + 256 * le_val bs) :: u8) = unat b"
    unfolding unat_word_of_nat using b by simp
  then have "(word_of_nat (unat b + 256 * le_val bs) :: u8) = b"
    by (simp only: word_unat_eq_iff)
  ultimately show ?case by (simp add: Cons)
qed

text \<open>Reading a field of \<open>k\<close> bytes at an offset of a byte block, and writing one.\<close>

definition field :: "nat \<Rightarrow> nat \<Rightarrow> bytes \<Rightarrow> 'a::len word" where
  "field off k bs = word_of_nat (le_val (take k (drop off bs)))"

definition le :: "nat \<Rightarrow> 'a::len word \<Rightarrow> bytes" where
  "le k w = le_bytes k (unat w)"

lemma length_le [simp]: "length (le k w) = k"
  by (simp add: le_def)

lemma field_skip [simp]: "length xs \<le> off \<Longrightarrow> field off k (xs @ ys) = field (off - length xs) k ys"
  by (simp add: field_def)

lemma field_le [simp]:
  assumes "LENGTH('a) = 8 * k"
  shows "field 0 k (le k (w :: 'a::len word) @ rest) = w"
proof -
  have "(256::nat) ^ k = 2 ^ LENGTH('a)"
    by (simp add: assms power_mult)
  moreover have "unat w < 2 ^ LENGTH('a)" by (rule unsigned_less)
  ultimately show ?thesis by (simp add: field_def le_def le_val_le_bytes)
qed

lemma le_field [simp]:
  assumes "LENGTH('a) = 8 * k" and "off + k \<le> length bs"
  shows "le k (field off k bs :: 'a::len word) = take k (drop off bs)"
proof -
  let ?c = "take k (drop off bs)"
  have len: "length ?c = k" using assms(2) by simp
  have "le_val ?c < 256 ^ k" using le_val_less [of ?c] len by simp
  also have "(256::nat) ^ k = 2 ^ LENGTH('a)" by (simp add: assms(1) power_mult)
  finally have "unat (field off k bs :: 'a word) = le_val ?c"
    by (simp add: field_def)
  then show ?thesis using le_bytes_le_val [of ?c] len by (simp add: le_def)
qed

lemma take_drop_join:
  "take a (drop off bs) @ take b (drop (off + a) bs) = take (a + b) (drop off bs)"
  by (simp add: take_add add.commute)

lemma take_drop_join_rest:
  "take a (drop off bs) @ take b (drop (off + a) bs) @ rest = take (a + b) (drop off bs) @ rest"
  by (simp add: take_add add.commute)

section \<open>Guards\<close>

text \<open>Two early returns with the same result are one guard.\<close>

lemma if_two_guards:
  "(\<not> (a \<or> b)) = ok \<Longrightarrow> (if a then x else if b then x else y) = (if ok then y else x)"
  by auto

section \<open>Division\<close>

lemma ceil_div_le_iff:
  fixes a b c :: nat
  assumes "0 < b"
  shows "(a + b - 1) div b \<le> c \<longleftrightarrow> a \<le> c * b"
proof -
  have "(a + b - 1) div b \<le> c \<longleftrightarrow> (a + b - 1) div b < Suc c" by (rule less_Suc_eq_le [symmetric])
  also have "\<dots> \<longleftrightarrow> a + b - 1 < Suc c * b" using assms by (simp add: div_less_iff_less_mult)
  also have "\<dots> \<longleftrightarrow> a \<le> c * b" using assms by (cases b) auto
  finally show ?thesis .
qed

lemma less_ceil_div_iff:
  fixes a b c :: nat
  assumes "0 < b"
  shows "c < (a + b - 1) div b \<longleftrightarrow> c * b < a"
  using ceil_div_le_iff [OF assms, of a c] by linarith

end
