(* ===== verification/WD_Tile.thy ===== *)
theory WD_Tile
  imports WD_Prelude
begin

text \<open>
  The tile grid of a framebuffer (\<open>src/src/common/wd_tile.c\<close>): the number of tiles of a
  surface, the rectangle of a tile, the tile of a pixel, and the routines that hash, extract
  and blit one tile. A framebuffer is its memory block, four bytes per XRGB pixel, and every
  access to a block is checked: a routine is \<open>None\<close> when it would leave the block.

  The routines for one tile share an argument list, the record \<open>tile_args\<close>. Out-parameters
  are results, so the tests for null out-pointers have no counterpart.
\<close>

abbreviation WD_TILE_WIDTH :: u16 where "WD_TILE_WIDTH \<equiv> 16"
abbreviation WD_TILE_HEIGHT :: u16 where "WD_TILE_HEIGHT \<equiv> 16"
abbreviation WD_BYTES_PER_PIXEL :: "'a::len word" where "WD_BYTES_PER_PIXEL \<equiv> 4"

section \<open>Grid arithmetic\<close>

definition wd_tiles_for_width_with_tile :: "u32 \<Rightarrow> u16 \<Rightarrow> u16" where
  "wd_tiles_for_width_with_tile width tile_width =
     (if width = 0 \<or> tile_width = 0 then 0
      else
        let count = (ucast width + ucast tile_width - 1 :: u64) div ucast tile_width
        in if count = 0 \<or> count > UINT16_MAX then 0 else ucast count)"

definition wd_tiles_for_height_with_tile :: "u32 \<Rightarrow> u16 \<Rightarrow> u16" where
  "wd_tiles_for_height_with_tile height tile_height =
     (if height = 0 \<or> tile_height = 0 then 0
      else
        let count = (ucast height + ucast tile_height - 1 :: u64) div ucast tile_height
        in if count = 0 \<or> count > UINT16_MAX then 0 else ucast count)"

definition wd_total_tiles_for_size_with_tile :: "u32 \<Rightarrow> u32 \<Rightarrow> u16 \<Rightarrow> u16 \<Rightarrow> u16" where
  "wd_total_tiles_for_size_with_tile width height tile_width tile_height =
     (let tiles_x = wd_tiles_for_width_with_tile width tile_width;
          tiles_y = wd_tiles_for_height_with_tile height tile_height;
          total = (ucast tiles_x * ucast tiles_y :: u32)
      in if tiles_x = 0 \<or> tiles_y = 0 \<or> total = 0 \<or> total > UINT16_MAX then 0 else ucast total)"

definition wd_tiles_for_width :: "u32 \<Rightarrow> u16" where
  "wd_tiles_for_width width = wd_tiles_for_width_with_tile width WD_TILE_WIDTH"

definition wd_tiles_for_height :: "u32 \<Rightarrow> u16" where
  "wd_tiles_for_height height = wd_tiles_for_height_with_tile height WD_TILE_HEIGHT"

definition wd_total_tiles_for_size :: "u32 \<Rightarrow> u32 \<Rightarrow> u16" where
  "wd_total_tiles_for_size width height = wd_total_tiles_for_size_with_tile width height WD_TILE_WIDTH WD_TILE_HEIGHT"

definition wd_tile_id_valid_for :: "u16 \<Rightarrow> u16 \<Rightarrow> bool" where
  "wd_tile_id_valid_for tile_id total_tiles \<longleftrightarrow> tile_id < total_tiles"

definition wd_tile_x_for :: "u16 \<Rightarrow> u16 \<Rightarrow> u16" where
  "wd_tile_x_for tile_id tiles_x = (if tiles_x = 0 then 0 else tile_id mod tiles_x)"

definition wd_tile_y_for :: "u16 \<Rightarrow> u16 \<Rightarrow> u16" where
  "wd_tile_y_for tile_id tiles_x = (if tiles_x = 0 then 0 else tile_id div tiles_x)"

definition wd_tile_start_x_for_tile :: "u16 \<Rightarrow> u16 \<Rightarrow> u16 \<Rightarrow> u32" where
  "wd_tile_start_x_for_tile tile_id tiles_x tile_width = ucast (wd_tile_x_for tile_id tiles_x) * ucast tile_width"

definition wd_tile_start_y_for_tile :: "u16 \<Rightarrow> u16 \<Rightarrow> u16 \<Rightarrow> u32" where
  "wd_tile_start_y_for_tile tile_id tiles_x tile_height = ucast (wd_tile_y_for tile_id tiles_x) * ucast tile_height"

definition wd_tile_visible_width_for_tile :: "u32 \<Rightarrow> u16 \<Rightarrow> u16 \<Rightarrow> u16 \<Rightarrow> u32" where
  "wd_tile_visible_width_for_tile display_width tile_id tiles_x tile_width =
     (let start_x = wd_tile_start_x_for_tile tile_id tiles_x tile_width
      in if start_x \<ge> display_width then 0
         else let remaining = display_width - start_x
              in if remaining < ucast tile_width then remaining else ucast tile_width)"

definition wd_tile_visible_height_for_tile :: "u32 \<Rightarrow> u16 \<Rightarrow> u16 \<Rightarrow> u16 \<Rightarrow> u32" where
  "wd_tile_visible_height_for_tile display_height tile_id tiles_x tile_height =
     (let start_y = wd_tile_start_y_for_tile tile_id tiles_x tile_height
      in if start_y \<ge> display_height then 0
         else let remaining = display_height - start_y
              in if remaining < ucast tile_height then remaining else ucast tile_height)"

definition wd_tile_id_for_pixel :: "u32 \<Rightarrow> u32 \<Rightarrow> u16 \<Rightarrow> u16 \<Rightarrow> u16 \<Rightarrow> u16 \<Rightarrow> u16 option" where
  "wd_tile_id_for_pixel x y tiles_x total_tiles tile_width tile_height =
     (if tiles_x = 0 \<or> total_tiles = 0 \<or> tile_width = 0 \<or> tile_height = 0 then None
      else
        let tile_x = (ucast x :: u64) div ucast tile_width;
            tile_y = (ucast y :: u64) div ucast tile_height;
            tile_id = tile_y * ucast tiles_x + tile_x
        in if tile_x \<ge> ucast tiles_x \<or> tile_id \<ge> ucast total_tiles \<or> tile_id > UINT16_MAX then None
           else Some (ucast tile_id))"

definition wd_tile_start_x_for :: "u16 \<Rightarrow> u16 \<Rightarrow> u32" where
  "wd_tile_start_x_for tile_id tiles_x = wd_tile_start_x_for_tile tile_id tiles_x WD_TILE_WIDTH"

definition wd_tile_start_y_for :: "u16 \<Rightarrow> u16 \<Rightarrow> u32" where
  "wd_tile_start_y_for tile_id tiles_x = wd_tile_start_y_for_tile tile_id tiles_x WD_TILE_HEIGHT"

definition wd_tile_visible_width_for :: "u32 \<Rightarrow> u16 \<Rightarrow> u16 \<Rightarrow> u32" where
  "wd_tile_visible_width_for display_width tile_id tiles_x =
     wd_tile_visible_width_for_tile display_width tile_id tiles_x WD_TILE_WIDTH"

definition wd_tile_visible_height_for :: "u32 \<Rightarrow> u16 \<Rightarrow> u16 \<Rightarrow> u32" where
  "wd_tile_visible_height_for display_height tile_id tiles_x =
     wd_tile_visible_height_for_tile display_height tile_id tiles_x WD_TILE_HEIGHT"

section \<open>Routines on one tile\<close>

record tile_args =
  framebuffer_width :: u32
  framebuffer_height :: u32
  tiles_x :: u16
  total_tiles :: u16
  tile_id :: u16
  tile_width :: u16
  tile_height :: u16

definition wd_tile_layout_is_valid :: "tile_args \<Rightarrow> bool" where
  "wd_tile_layout_is_valid a \<longleftrightarrow>
     (if tile_width a = 0 \<or> tile_height a = 0 \<or> \<not> wd_tile_id_valid_for (tile_id a) (total_tiles a) \<or>
         tiles_x a \<noteq> wd_tiles_for_width_with_tile (framebuffer_width a) (tile_width a) \<or>
         total_tiles a \<noteq> wd_total_tiles_for_size_with_tile (framebuffer_width a) (framebuffer_height a)
                            (tile_width a) (tile_height a)
      then False
      else
        let tile_bytes = (ucast (tile_width a) * ucast (tile_height a) * WD_BYTES_PER_PIXEL :: u64);
            framebuffer_pixels = (ucast (framebuffer_width a) * ucast (framebuffer_height a) :: u64)
        in tile_bytes \<le> UINT32_MAX \<and> framebuffer_pixels \<le> UINT64_MAX div 4)"

definition start_x :: "tile_args \<Rightarrow> u32" where
  "start_x a = wd_tile_start_x_for_tile (tile_id a) (tiles_x a) (tile_width a)"

definition start_y :: "tile_args \<Rightarrow> u32" where
  "start_y a = wd_tile_start_y_for_tile (tile_id a) (tiles_x a) (tile_height a)"

definition visible_width :: "tile_args \<Rightarrow> u32" where
  "visible_width a = wd_tile_visible_width_for_tile (framebuffer_width a) (tile_id a) (tiles_x a) (tile_width a)"

definition visible_height :: "tile_args \<Rightarrow> u32" where
  "visible_height a = wd_tile_visible_height_for_tile (framebuffer_height a) (tile_id a) (tiles_x a) (tile_height a)"

text \<open>\<open>(size_t)(start_y + y) * framebuffer_width + start_x\<close>: the sum is a 32-bit one.\<close>

definition row_index :: "tile_args \<Rightarrow> u32 \<Rightarrow> u64" where
  "row_index a y = ucast (start_y a + y) * ucast (framebuffer_width a) + ucast (start_x a)"

text \<open>The pixel at an index of the framebuffer, as the \<open>uint32_t\<close> that its four bytes are.\<close>

definition rd_pixel :: "bytes \<Rightarrow> nat \<Rightarrow> u32 option" where
  "rd_pixel fb i = (if 4 * i + 4 \<le> length fb then Some (field (4 * i) 4 fb) else None)"

fun hash_row :: "bytes \<Rightarrow> nat \<Rightarrow> nat list \<Rightarrow> u32 \<Rightarrow> u32 option" where
  "hash_row fb row [] h = Some h"
| "hash_row fb row (x # xs) h =
     (case rd_pixel fb (row + x) of None \<Rightarrow> None | Some p \<Rightarrow> hash_row fb row xs ((h XOR p) * 16777619))"

fun hash_rows :: "tile_args \<Rightarrow> bytes \<Rightarrow> nat list \<Rightarrow> u32 \<Rightarrow> u32 option" where
  "hash_rows a fb [] h = Some h"
| "hash_rows a fb (y # ys) h =
     (case hash_row fb (unat (row_index a (word_of_nat y))) [0..<unat (visible_width a)] h of
        None \<Rightarrow> None
      | Some h' \<Rightarrow> hash_rows a fb ys h')"

definition wd_fnv1a_tile_hash_xrgb8888_for_tile :: "bytes option \<Rightarrow> tile_args \<Rightarrow> u32 option option" where
  "wd_fnv1a_tile_hash_xrgb8888_for_tile framebuffer a =
     (case framebuffer of
        None \<Rightarrow> Some None
      | Some fb \<Rightarrow>
          if \<not> wd_tile_layout_is_valid a then Some None
          else map_option Some (hash_rows a fb [0..<unat (visible_height a)] 2166136261))"

fun extract_rows :: "tile_args \<Rightarrow> bytes \<Rightarrow> nat list \<Rightarrow> bytes \<Rightarrow> bytes option" where
  "extract_rows a fb [] out = Some out"
| "extract_rows a fb (y # ys) out =
     (case rd_range fb (4 * unat (row_index a (word_of_nat y))) (unat (visible_width a * WD_BYTES_PER_PIXEL)) of
        None \<Rightarrow> None
      | Some src \<Rightarrow>
          (case wr_range out (unat (word_of_nat y * ucast (tile_width a) * WD_BYTES_PER_PIXEL :: u32)) src of
             None \<Rightarrow> None
           | Some out' \<Rightarrow> extract_rows a fb ys out'))"

definition tile_capacity_needed :: "tile_args \<Rightarrow> u64" where
  "tile_capacity_needed a = ucast (tile_width a) * ucast (tile_height a) * WD_BYTES_PER_PIXEL"

text \<open>The result is the success flag with the output buffer.\<close>

definition wd_extract_tile_xrgb8888_for_tile_sized ::
    "bytes option \<Rightarrow> tile_args \<Rightarrow> bytes \<Rightarrow> u64 \<Rightarrow> (bool \<times> bytes) option" where
  "wd_extract_tile_xrgb8888_for_tile_sized framebuffer a out out_capacity =
     (case framebuffer of
        None \<Rightarrow> Some (False, out)
      | Some fb \<Rightarrow>
          if \<not> wd_tile_layout_is_valid a \<or> out_capacity < tile_capacity_needed a then Some (False, out)
          else
            let tile_bytes = (ucast (tile_width a) * ucast (tile_height a) * WD_BYTES_PER_PIXEL :: u32)
            in case wr_range out 0 (replicate (unat tile_bytes) 0) of
                 None \<Rightarrow> None
               | Some out' \<Rightarrow> map_option (Pair True) (extract_rows a fb [0..<unat (visible_height a)] out'))"

fun blit_rows :: "tile_args \<Rightarrow> bytes \<Rightarrow> nat list \<Rightarrow> bytes \<Rightarrow> bytes option" where
  "blit_rows a tile [] fb = Some fb"
| "blit_rows a tile (y # ys) fb =
     (case rd_range tile (unat (word_of_nat y * ucast (tile_width a) * WD_BYTES_PER_PIXEL :: u32))
                    (unat (visible_width a * WD_BYTES_PER_PIXEL)) of
        None \<Rightarrow> None
      | Some src \<Rightarrow>
          (case wr_range fb (4 * unat (row_index a (word_of_nat y))) src of
             None \<Rightarrow> None
           | Some fb' \<Rightarrow> blit_rows a tile ys fb'))"

definition wd_blit_tile_xrgb8888_for_tile_sized ::
    "bytes \<Rightarrow> tile_args \<Rightarrow> bytes option \<Rightarrow> u64 \<Rightarrow> (bool \<times> bytes) option" where
  "wd_blit_tile_xrgb8888_for_tile_sized fb a tile_bytes tile_capacity =
     (case tile_bytes of
        None \<Rightarrow> Some (False, fb)
      | Some tile \<Rightarrow>
          if \<not> wd_tile_layout_is_valid a \<or> tile_capacity < tile_capacity_needed a then Some (False, fb)
          else map_option (Pair True) (blit_rows a tile [0..<unat (visible_height a)] fb))"

definition wd_extract_tile_xrgb8888_for_tile :: "bytes option \<Rightarrow> tile_args \<Rightarrow> bytes \<Rightarrow> (bool \<times> bytes) option" where
  "wd_extract_tile_xrgb8888_for_tile framebuffer a out =
     wd_extract_tile_xrgb8888_for_tile_sized framebuffer a out (tile_capacity_needed a)"

definition wd_blit_tile_xrgb8888_for_tile :: "bytes \<Rightarrow> tile_args \<Rightarrow> bytes option \<Rightarrow> (bool \<times> bytes) option" where
  "wd_blit_tile_xrgb8888_for_tile fb a tile_bytes =
     wd_blit_tile_xrgb8888_for_tile_sized fb a tile_bytes (tile_capacity_needed a)"

text \<open>The wrappers for the default tile size, and for the default display.\<close>

definition default_tile :: "u32 \<Rightarrow> u32 \<Rightarrow> u16 \<Rightarrow> u16 \<Rightarrow> u16 \<Rightarrow> tile_args" where
  "default_tile fw fh tx ttl t =
     \<lparr>framebuffer_width = fw, framebuffer_height = fh, tiles_x = tx, total_tiles = ttl, tile_id = t,
      tile_width = WD_TILE_WIDTH, tile_height = WD_TILE_HEIGHT\<rparr>"

definition wd_fnv1a_tile_hash_xrgb8888_for :: "bytes option \<Rightarrow> u32 \<Rightarrow> u32 \<Rightarrow> u16 \<Rightarrow> u16 \<Rightarrow> u16 \<Rightarrow> u32 option option" where
  "wd_fnv1a_tile_hash_xrgb8888_for framebuffer fw fh tx ttl t =
     wd_fnv1a_tile_hash_xrgb8888_for_tile framebuffer (default_tile fw fh tx ttl t)"

definition wd_extract_tile_xrgb8888_for :: "bytes option \<Rightarrow> u32 \<Rightarrow> u32 \<Rightarrow> u16 \<Rightarrow> u16 \<Rightarrow> u16 \<Rightarrow> bytes \<Rightarrow> (bool \<times> bytes) option" where
  "wd_extract_tile_xrgb8888_for framebuffer fw fh tx ttl t out =
     wd_extract_tile_xrgb8888_for_tile framebuffer (default_tile fw fh tx ttl t) out"

definition wd_blit_tile_xrgb8888_for :: "bytes \<Rightarrow> u32 \<Rightarrow> u32 \<Rightarrow> u16 \<Rightarrow> u16 \<Rightarrow> u16 \<Rightarrow> bytes option \<Rightarrow> (bool \<times> bytes) option" where
  "wd_blit_tile_xrgb8888_for fb fw fh tx ttl t tile_bytes =
     wd_blit_tile_xrgb8888_for_tile fb (default_tile fw fh tx ttl t) tile_bytes"

definition WD_DISPLAY_WIDTH :: u32 where "WD_DISPLAY_WIDTH = 800"
definition WD_DISPLAY_HEIGHT :: u32 where "WD_DISPLAY_HEIGHT = 600"
definition WD_TILES_X :: u16 where "WD_TILES_X = ucast ((WD_DISPLAY_WIDTH + ucast WD_TILE_WIDTH - 1) div ucast WD_TILE_WIDTH)"
definition WD_TILES_Y :: u16 where "WD_TILES_Y = ucast ((WD_DISPLAY_HEIGHT + ucast WD_TILE_HEIGHT - 1) div ucast WD_TILE_HEIGHT)"
definition WD_TOTAL_TILES :: u16 where "WD_TOTAL_TILES = ucast (ucast WD_TILES_X * ucast WD_TILES_Y :: u32)"

definition wd_tile_id_valid :: "u16 \<Rightarrow> bool" where
  "wd_tile_id_valid t \<longleftrightarrow> wd_tile_id_valid_for t WD_TOTAL_TILES"

definition wd_tile_x :: "u16 \<Rightarrow> u16" where
  "wd_tile_x t = wd_tile_x_for t WD_TILES_X"

definition wd_tile_y :: "u16 \<Rightarrow> u16" where
  "wd_tile_y t = wd_tile_y_for t WD_TILES_X"

definition wd_tile_start_x :: "u16 \<Rightarrow> u32" where
  "wd_tile_start_x t = wd_tile_start_x_for t WD_TILES_X"

definition wd_tile_start_y :: "u16 \<Rightarrow> u32" where
  "wd_tile_start_y t = wd_tile_start_y_for t WD_TILES_X"

definition wd_fnv1a_tile_hash_xrgb8888 :: "bytes option \<Rightarrow> u16 \<Rightarrow> u32 option option" where
  "wd_fnv1a_tile_hash_xrgb8888 framebuffer t =
     wd_fnv1a_tile_hash_xrgb8888_for framebuffer WD_DISPLAY_WIDTH WD_DISPLAY_HEIGHT WD_TILES_X WD_TOTAL_TILES t"

definition wd_extract_tile_xrgb8888 :: "bytes option \<Rightarrow> u16 \<Rightarrow> bytes \<Rightarrow> (bool \<times> bytes) option" where
  "wd_extract_tile_xrgb8888 framebuffer t out =
     wd_extract_tile_xrgb8888_for framebuffer WD_DISPLAY_WIDTH WD_DISPLAY_HEIGHT WD_TILES_X WD_TOTAL_TILES t out"

definition wd_blit_tile_xrgb8888 :: "bytes \<Rightarrow> u16 \<Rightarrow> bytes option \<Rightarrow> (bool \<times> bytes) option" where
  "wd_blit_tile_xrgb8888 fb t tile_bytes =
     wd_blit_tile_xrgb8888_for fb WD_DISPLAY_WIDTH WD_DISPLAY_HEIGHT WD_TILES_X WD_TOTAL_TILES t tile_bytes"

section \<open>Reading the grid as natural numbers\<close>

lemma unat_ceil_div:
  assumes "width \<noteq> 0" "t \<noteq> 0"
  shows "unat ((ucast (width :: u32) + ucast (t :: u16) - 1 :: u64) div ucast t) = (unat width + unat t - 1) div unat t"
proof -
  have w: "0 < unat width" "unat width < 4294967296" using assms by (auto simp: unat_gt_0 unat_u32_lt)
  have t: "unat t < 65536" by (rule unat_u16_lt)
  have s: "unat (ucast width + ucast t :: u64) = unat width + unat t"
    by (subst unat_add_exact) (use w t in auto)
  have "unat (ucast width + ucast t - 1 :: u64) = unat width + unat t - 1"
    by (subst unat_sub_exact) (use w s in auto)
  then show ?thesis by (simp add: unat_div)
qed

lemma tiles_height_eq_width: "wd_tiles_for_height_with_tile = wd_tiles_for_width_with_tile"
  by (intro ext) (simp add: wd_tiles_for_height_with_tile_def wd_tiles_for_width_with_tile_def)

lemma unat_tiles_for_width:
  "unat (wd_tiles_for_width_with_tile width t) =
     (if width = 0 \<or> t = 0 \<or> (unat width + unat t - 1) div unat t > 65535 then 0
      else (unat width + unat t - 1) div unat t)"
proof (cases "width = 0 \<or> t = 0")
  case True
  then show ?thesis by (auto simp: wd_tiles_for_width_with_tile_def)
next
  case False
  let ?c = "(ucast width + ucast t - 1 :: u64) div ucast t"
  have c: "unat ?c = (unat width + unat t - 1) div unat t" using unat_ceil_div [of width t] False by simp
  have big: "?c > UINT16_MAX \<longleftrightarrow> unat ?c > 65535" by (simp add: word_less_nat_alt)
  have "unat (ucast ?c :: u16) = unat ?c" if "\<not> unat ?c > 65535"
    using that by (simp add: unat_ucast_small)
  then show ?thesis using False
    unfolding wd_tiles_for_width_with_tile_def Let_def big c [symmetric]
    by (auto simp: unat_eq_zero)
qed


text \<open>Natural-number readings of the arguments and of the tile's rectangle.\<close>

abbreviation fbW :: "tile_args \<Rightarrow> nat" where "fbW a \<equiv> unat (framebuffer_width a)"
abbreviation fbH :: "tile_args \<Rightarrow> nat" where "fbH a \<equiv> unat (framebuffer_height a)"
abbreviation tileW :: "tile_args \<Rightarrow> nat" where "tileW a \<equiv> unat (tile_width a)"
abbreviation tileH :: "tile_args \<Rightarrow> nat" where "tileH a \<equiv> unat (tile_height a)"
abbreviation tileX :: "tile_args \<Rightarrow> nat" where "tileX a \<equiv> unat (start_x a)"
abbreviation tileY :: "tile_args \<Rightarrow> nat" where "tileY a \<equiv> unat (start_y a)"
abbreviation visW :: "tile_args \<Rightarrow> nat" where "visW a \<equiv> unat (visible_width a)"
abbreviation visH :: "tile_args \<Rightarrow> nat" where "visH a \<equiv> unat (visible_height a)"

lemma unat_total_tiles:
  assumes "wd_total_tiles_for_size_with_tile w h tw th \<noteq> 0"
  shows "unat (wd_total_tiles_for_size_with_tile w h tw th) =
           unat (wd_tiles_for_width_with_tile w tw) * unat (wd_tiles_for_height_with_tile h th)"
    and "wd_tiles_for_width_with_tile w tw \<noteq> 0" and "wd_tiles_for_height_with_tile h th \<noteq> 0"
proof -
  let ?x = "wd_tiles_for_width_with_tile w tw" and ?y = "wd_tiles_for_height_with_tile h th"
  have "unat ?x * unat ?y \<le> 65535 * 65535"
    by (rule mult_le_mono) (use unat_u16_lt [of ?x] unat_u16_lt [of ?y] in linarith)+
  then have m: "unat (ucast ?x * ucast ?y :: u32) = unat ?x * unat ?y" by (subst unat_mult_exact) auto
  from assms have g: "\<not> (?x = 0 \<or> ?y = 0 \<or> (ucast ?x * ucast ?y :: u32) = 0 \<or> (ucast ?x * ucast ?y :: u32) > UINT16_MAX)"
    unfolding wd_total_tiles_for_size_with_tile_def Let_def by metis
  then show "?x \<noteq> 0" "?y \<noteq> 0" by auto
  from g have "unat (ucast ?x * ucast ?y :: u32) \<le> 65535" by (simp add: word_less_nat_alt not_less)
  then have "unat (ucast (ucast ?x * ucast ?y :: u32) :: u16) = unat ?x * unat ?y"
    using m by (simp add: unat_ucast_small)
  with g show "unat (wd_total_tiles_for_size_with_tile w h tw th) = unat ?x * unat ?y"
    unfolding wd_total_tiles_for_size_with_tile_def Let_def by (simp only: if_False)
qed

lemma tiles_for_width_nonzero:
  assumes "wd_tiles_for_width_with_tile w t \<noteq> 0"
  shows "0 < unat w" "0 < unat t" "unat (wd_tiles_for_width_with_tile w t) = (unat w + unat t - 1) div unat t"
proof -
  have "unat (wd_tiles_for_width_with_tile w t) \<noteq> 0" using assms by (simp add: unat_eq_zero)
  then show "0 < unat w" "0 < unat t" "unat (wd_tiles_for_width_with_tile w t) = (unat w + unat t - 1) div unat t"
    unfolding unat_tiles_for_width by (auto simp: unat_gt_0 split: if_splits)
qed

text \<open>A grid of \<open>nx\<close> by \<open>ny\<close> tiles over a surface of \<open>w\<close> by \<open>h\<close> pixels.\<close>

lemma layout_grid:
  assumes "wd_tile_layout_is_valid a"
  shows "0 < fbW a" "0 < fbH a" "0 < tileW a" "0 < tileH a"
    and "unat (tiles_x a) = (fbW a + tileW a - 1) div tileW a" "0 < unat (tiles_x a)"
    and "unat (total_tiles a) = unat (tiles_x a) * ((fbH a + tileH a - 1) div tileH a)"
    and "unat (tile_id a) < unat (total_tiles a)"
    and "fbW a * fbH a \<le> 4611686018427387903" "tileW a * tileH a * 4 \<le> 4294967295"
proof -
  from assms have g: "tile_id a < total_tiles a" "tiles_x a = wd_tiles_for_width_with_tile (framebuffer_width a) (tile_width a)"
      "total_tiles a = wd_total_tiles_for_size_with_tile (framebuffer_width a) (framebuffer_height a) (tile_width a) (tile_height a)"
    and b: "(ucast (tile_width a) * ucast (tile_height a) * 4 :: u64) \<le> UINT32_MAX"
      "(ucast (framebuffer_width a) * ucast (framebuffer_height a) :: u64) \<le> UINT64_MAX div 4"
    unfolding wd_tile_layout_is_valid_def wd_tile_id_valid_for_def Let_def by (auto split: if_splits)
  then have nz: "wd_total_tiles_for_size_with_tile (framebuffer_width a) (framebuffer_height a) (tile_width a) (tile_height a) \<noteq> 0"
    by (metis word_not_simps(1))
  note t = unat_total_tiles [OF nz]
  note x = tiles_for_width_nonzero [OF t(2)]
  note y = tiles_for_width_nonzero [OF t(3) [unfolded tiles_height_eq_width]]
  show "0 < fbW a" "0 < fbH a" "0 < tileW a" "0 < tileH a" "unat (tiles_x a) = (fbW a + tileW a - 1) div tileW a"
    using x y g(2) by simp_all
  show "0 < unat (tiles_x a)" using t(2) g(2) by (simp add: unat_gt_0)
  show "unat (total_tiles a) = unat (tiles_x a) * ((fbH a + tileH a - 1) div tileH a)"
    using t(1) y(3) g(2,3) by (simp add: tiles_height_eq_width)
  show "unat (tile_id a) < unat (total_tiles a)" using g(1) by (simp add: word_less_nat_alt)
  have "fbW a * fbH a \<le> 4294967295 * 4294967295"
    by (rule mult_le_mono) (use unat_u32_lt [of "framebuffer_width a"] unat_u32_lt [of "framebuffer_height a"] in linarith)+
  then have "unat (ucast (framebuffer_width a) * ucast (framebuffer_height a) :: u64) = fbW a * fbH a"
    by (subst unat_mult_exact) auto
  then show "fbW a * fbH a \<le> 4611686018427387903" using b(2) by (simp add: word_le_nat_alt)
  have m: "tileW a * tileH a \<le> 65535 * 65535"
    by (rule mult_le_mono) (use unat_u16_lt [of "tile_width a"] unat_u16_lt [of "tile_height a"] in linarith)+
  then have m1: "unat (ucast (tile_width a) * ucast (tile_height a) :: u64) = tileW a * tileH a"
    by (subst unat_mult_exact) auto
  have "unat (ucast (tile_width a) * ucast (tile_height a) * 4 :: u64) = tileW a * tileH a * 4"
    by (subst unat_mult_exact) (use m m1 in \<open>simp_all add: mult.commute\<close>)
  then show "tileW a * tileH a * 4 \<le> 4294967295" using b(1) by (simp add: word_le_nat_alt)
qed

lemma unat_mult_u16: "unat (ucast (x :: u16) * ucast (y :: u16) :: u32) = unat x * unat y"
proof -
  have "unat x * unat y \<le> 65535 * 65535"
    by (rule mult_le_mono) (use unat_u16_lt [of x] unat_u16_lt [of y] in linarith)+
  then show ?thesis by (subst unat_mult_exact) auto
qed

lemma tileX_eq: "tiles_x a \<noteq> 0 \<Longrightarrow> tileX a = (unat (tile_id a) mod unat (tiles_x a)) * tileW a"
  by (simp add: start_x_def wd_tile_start_x_for_tile_def wd_tile_x_for_def unat_mult_u16 unat_mod)

lemma tileY_eq: "tiles_x a \<noteq> 0 \<Longrightarrow> tileY a = (unat (tile_id a) div unat (tiles_x a)) * tileH a"
  by (simp add: start_y_def wd_tile_start_y_for_tile_def wd_tile_y_for_def unat_mult_u16 unat_div)

lemma clip_eq:
  fixes start display :: u32 and t :: u16
  shows "unat (if start \<ge> display then 0
               else let remaining = display - start in if remaining < ucast t then remaining else ucast t) =
         min (unat display - unat start) (unat t)"
  by (auto simp: Let_def word_le_nat_alt word_less_nat_alt unat_sub_exact not_le min_def)

lemma visW_eq: "visW a = min (fbW a - tileX a) (tileW a)"
  unfolding visible_width_def wd_tile_visible_width_for_tile_def start_x_def Let_def [of "wd_tile_start_x_for_tile _ _ _"]
  by (rule clip_eq)

lemma visH_eq: "visH a = min (fbH a - tileY a) (tileH a)"
  unfolding visible_height_def wd_tile_visible_height_for_tile_def start_y_def Let_def [of "wd_tile_start_y_for_tile _ _ _"]
  by (rule clip_eq)

lemma tile_origin:
  assumes v: "wd_tile_layout_is_valid a"
  shows "tileX a < fbW a" "tileY a < fbH a"
proof -
  note g = layout_grid [OF v]
  have nz: "tiles_x a \<noteq> 0" using g(6) by auto
  have "unat (tile_id a) mod unat (tiles_x a) < (fbW a + tileW a - 1) div tileW a" using g(5,6) by (metis mod_less_divisor)
  then show "tileX a < fbW a" using less_ceil_div_iff [OF g(3)] tileX_eq [OF nz] by simp
  have "unat (tile_id a) div unat (tiles_x a) < (fbH a + tileH a - 1) div tileH a"
    using g(6,7,8) by (simp add: div_less_iff_less_mult mult.commute)
  then show "tileY a < fbH a" using less_ceil_div_iff [OF g(4)] tileY_eq [OF nz] by simp
qed

lemma tile_visible:
  assumes v: "wd_tile_layout_is_valid a"
  shows "0 < visW a" "0 < visH a" "visW a \<le> tileW a" "visH a \<le> tileH a" "tileX a + visW a \<le> fbW a" "tileY a + visH a \<le> fbH a"
  using tile_origin [OF v] layout_grid(3,4) [OF v] by (auto simp: visW_eq visH_eq)

lemma unat_row_index:
  assumes v: "wd_tile_layout_is_valid a" and y: "y < visH a"
  shows "unat (row_index a (word_of_nat y)) = (tileY a + y) * fbW a + tileX a"
    and "(tileY a + y) * fbW a + tileX a + visW a \<le> fbW a * fbH a"
proof -
  note t = tile_visible [OF v] and g = layout_grid [OF v]
  have lt: "tileY a + y < fbH a" using y t(6) by linarith
  have "Suc (tileY a + y) * fbW a \<le> fbH a * fbW a" using lt by (intro mult_le_mono1) simp
  then have le: "(tileY a + y) * fbW a + fbW a \<le> fbW a * fbH a" by (simp add: mult.commute)
  then show *: "(tileY a + y) * fbW a + tileX a + visW a \<le> fbW a * fbH a" using t(5) by linarith
  have H: "fbH a < 4294967296" by (rule unat_u32_lt)
  have "unat (word_of_nat y :: u32) = y" using lt H by (simp add: unat_word_of_nat)
  then have s: "unat (start_y a + word_of_nat y) = tileY a + y"
    by (subst unat_add_exact) (use lt H in auto)
  have m: "unat (ucast (start_y a + word_of_nat y) * ucast (framebuffer_width a) :: u64) = (tileY a + y) * fbW a"
    by (subst unat_mult_exact) (use s le g(9) in auto)
  show "unat (row_index a (word_of_nat y)) = (tileY a + y) * fbW a + tileX a"
    unfolding row_index_def by (subst unat_add_exact) (use m * g(9) in auto)
qed


section \<open>Copying a rectangle row by row\<close>

text \<open>
  Both loops copy \<open>n\<close> bytes per row between two blocks with their own origin and stride.
\<close>

fun copy_rows :: "bytes \<Rightarrow> nat \<Rightarrow> nat \<Rightarrow> nat \<Rightarrow> nat \<Rightarrow> nat \<Rightarrow> nat list \<Rightarrow> bytes \<Rightarrow> bytes option" where
  "copy_rows src so ss n dof ds [] dst = Some dst"
| "copy_rows src so ss n dof ds (y # ys) dst =
     (case rd_range src (so + y * ss) n of
        None \<Rightarrow> None
      | Some r \<Rightarrow>
          (case wr_range dst (dof + y * ds) r of
             None \<Rightarrow> None
           | Some dst' \<Rightarrow> copy_rows src so ss n dof ds ys dst'))"

lemma copy_rows_append:
  "copy_rows src so ss n dof ds (ys @ zs) dst =
     (case copy_rows src so ss n dof ds ys dst of None \<Rightarrow> None | Some d \<Rightarrow> copy_rows src so ss n dof ds zs d)"
  by (induction ys arbitrary: dst) (auto split: option.splits)

lemma row_window:
  fixes i dof ds n h :: nat
  assumes "n \<le> ds" "dof \<le> i"
  shows "dof + h * ds \<le> i \<and> i < dof + h * ds + n \<longleftrightarrow> (i - dof) div ds = h \<and> (i - dof) mod ds < n"
proof
  assume w: "dof + h * ds \<le> i \<and> i < dof + h * ds + n"
  define c where "c = i - dof - h * ds"
  from w have "i - dof = h * ds + c" "c < n" unfolding c_def by linarith+
  with assms(1) show "(i - dof) div ds = h \<and> (i - dof) mod ds < n" by simp
next
  assume w: "(i - dof) div ds = h \<and> (i - dof) mod ds < n"
  then have "i - dof = h * ds + (i - dof) mod ds" by (metis div_mult_mod_eq)
  with w assms(2) show "dof + h * ds \<le> i \<and> i < dof + h * ds + n" by linarith
qed

lemma copy_rows_ok:
  assumes "n \<le> ds" and "\<forall>y. y < h \<longrightarrow> so + y * ss + n \<le> length src" and "\<forall>y. y < h \<longrightarrow> dof + y * ds + n \<le> length dst"
  shows "\<exists>r. copy_rows src so ss n dof ds [0..<h] dst = Some r \<and> length r = length dst \<and>
           (\<forall>i. i < length dst \<longrightarrow>
              r ! i = (if dof \<le> i \<and> (i - dof) div ds < h \<and> (i - dof) mod ds < n
                       then src ! (so + (i - dof) div ds * ss + (i - dof) mod ds) else dst ! i))"
  using assms(2,3)
proof (induction h)
  case 0
  then show ?case by simp
next
  case (Suc h)
  have "\<forall>y. y < h \<longrightarrow> so + y * ss + n \<le> length src" "\<forall>y. y < h \<longrightarrow> dof + y * ds + n \<le> length dst"
    using Suc.prems by (blast intro: less_SucI)+
  from Suc.IH [OF this]
  obtain r where r: "copy_rows src so ss n dof ds [0..<h] dst = Some r" "length r = length dst"
      "\<forall>i. i < length dst \<longrightarrow>
         r ! i = (if dof \<le> i \<and> (i - dof) div ds < h \<and> (i - dof) mod ds < n
                  then src ! (so + (i - dof) div ds * ss + (i - dof) mod ds) else dst ! i)"
    by blast
  let ?row = "take n (drop (so + h * ss) src)"
  have s: "so + h * ss + n \<le> length src" and d: "dof + h * ds + n \<le> length dst" using Suc.prems by simp_all
  then have row: "rd_range src (so + h * ss) n = Some ?row" "length ?row = n" by (simp_all add: rd_range_def)
  from d r(2) row(2) obtain r' where r': "wr_range r (dof + h * ds) ?row = Some r'" by (simp add: wr_range_def)
  have "r' ! i = (if dof \<le> i \<and> (i - dof) div ds < Suc h \<and> (i - dof) mod ds < n
                  then src ! (so + (i - dof) div ds * ss + (i - dof) mod ds) else dst ! i)"
    if i: "i < length dst" for i
  proof (cases "dof \<le> i \<and> (i - dof) div ds = h \<and> (i - dof) mod ds < n")
    case True
    then have w: "dof + h * ds \<le> i" "i < dof + h * ds + n" using row_window [OF assms(1), of dof i h] by auto
    then have "i - dof = h * ds + (i - (dof + h * ds))" by linarith
    moreover have "i - dof = h * ds + (i - dof) mod ds" using True by (metis div_mult_mod_eq)
    ultimately have m: "i - (dof + h * ds) = (i - dof) mod ds" by linarith
    have "r' ! i = ?row ! (i - (dof + h * ds))" using nth_wr_range [OF r'] i r(2) row(2) w by simp
    also have "\<dots> = src ! (so + h * ss + (i - dof) mod ds)" unfolding m using True s by simp
    finally show ?thesis using True by simp
  next
    case False
    then have "r' ! i = r ! i"
      using nth_wr_range [OF r', of i] i r(2) row(2) row_window [OF assms(1), of dof i h] by auto
    then show ?thesis using r(3) i False by (auto simp: less_Suc_eq)
  qed
  then show ?case using r r' row(1) length_wr_range [OF r'] by (simp add: copy_rows_append)
qed

section \<open>Extraction and blit\<close>

lemma row_bytes:
  assumes v: "wd_tile_layout_is_valid a"
  shows "unat (visible_width a * WD_BYTES_PER_PIXEL) = 4 * visW a"
    and "y < visH a \<Longrightarrow> unat (word_of_nat y * ucast (tile_width a) * WD_BYTES_PER_PIXEL :: u32) = y * (4 * tileW a)"
proof -
  note t = tile_visible [OF v] and g = layout_grid [OF v]
  have "visW a < 65536" using t(3) unat_u16_lt [of "tile_width a"] by linarith
  then show "unat (visible_width a * WD_BYTES_PER_PIXEL) = 4 * visW a" by (subst unat_mult_exact) auto
  assume "y < visH a"
  then have y: "y \<le> tileH a" using t(4) by linarith
  have "y * tileW a * 4 \<le> tileH a * tileW a * 4" by (intro mult_le_mono1 y)
  also have "\<dots> = tileW a * tileH a * 4" by simp
  finally have le: "y * tileW a * 4 \<le> 4294967295" using g(10) by linarith
  have "y < 4294967296" using y unat_u16_lt [of "tile_height a"] by linarith
  then have u: "unat (word_of_nat y :: u32) = y" by (simp add: unat_word_of_nat)
  have m: "unat (word_of_nat y * ucast (tile_width a) :: u32) = y * tileW a"
    by (subst unat_mult_exact) (use u le in auto)
  show "unat (word_of_nat y * ucast (tile_width a) * WD_BYTES_PER_PIXEL :: u32) = y * (4 * tileW a)"
    by (subst unat_mult_exact) (use m le in auto)
qed

text \<open>First byte of the tile in the framebuffer.\<close>

abbreviation origin :: "tile_args \<Rightarrow> nat" where
  "origin a \<equiv> 4 * (tileY a * fbW a + tileX a)"

lemma row_offset:
  assumes "wd_tile_layout_is_valid a" "y < visH a"
  shows "4 * unat (row_index a (word_of_nat y)) = origin a + y * (4 * fbW a)"
  using unat_row_index(1) [OF assms] by (simp add: algebra_simps)

lemma row_offset_bound:
  assumes "wd_tile_layout_is_valid a" "y < visH a"
  shows "origin a + y * (4 * fbW a) + 4 * visW a \<le> 4 * (fbW a * fbH a)"
  using unat_row_index(2) [OF assms] by (simp add: algebra_simps)

lemma tile_row_bound:
  assumes v: "wd_tile_layout_is_valid a" and y: "y < visH a"
  shows "y * (4 * tileW a) + 4 * visW a \<le> 4 * (tileW a * tileH a)"
proof -
  have "Suc y \<le> tileH a" using y tile_visible(4) [OF v] by linarith
  then have "Suc y * (4 * tileW a) \<le> tileH a * (4 * tileW a)" by (rule mult_le_mono1)
  then show ?thesis using tile_visible(3) [OF v] by (simp add: algebra_simps)
qed

lemma extract_rows_copy:
  assumes v: "wd_tile_layout_is_valid a"
  shows "list_all (\<lambda>y. y < visH a) ys \<Longrightarrow>
    extract_rows a fb ys out = copy_rows fb (origin a) (4 * fbW a) (4 * visW a) 0 (4 * tileW a) ys out"
  by (induction ys arbitrary: out) (simp_all add: row_bytes [OF v] row_offset [OF v] split: option.split)

lemma blit_rows_copy:
  assumes v: "wd_tile_layout_is_valid a"
  shows "list_all (\<lambda>y. y < visH a) ys \<Longrightarrow>
    blit_rows a tile ys fb = copy_rows tile 0 (4 * tileW a) (4 * visW a) (origin a) (4 * fbW a) ys fb"
  by (induction ys arbitrary: fb) (simp_all add: row_bytes [OF v] row_offset [OF v] split: option.split)


text \<open>Byte \<open>b\<close> of pixel \<open>(x, y)\<close> in a block whose rows hold \<open>w\<close> pixels.\<close>

definition byte_at :: "nat \<Rightarrow> nat \<Rightarrow> nat \<Rightarrow> nat \<Rightarrow> nat" where
  "byte_at w x y b = 4 * (y * w + x) + b"

lemma byte_at_div_mod:
  assumes "x < w" "b < 4"
  shows "byte_at w x y b div (4 * w) = y" "byte_at w x y b mod (4 * w) = 4 * x + b"
proof -
  have e: "byte_at w x y b = (4 * x + b) + y * (4 * w)" by (simp add: byte_at_def algebra_simps)
  have "4 * x + b < 4 * w" using assms by linarith
  then show "byte_at w x y b div (4 * w) = y" "byte_at w x y b mod (4 * w) = 4 * x + b"
    unfolding e by simp_all
qed

lemma quad_less: "(p :: nat) < q \<Longrightarrow> b < 4 \<Longrightarrow> 4 * p + b < 4 * q"
  by linarith

lemma quad_le: "p + 1 \<le> q \<Longrightarrow> 4 * p + 4 \<le> 4 * (q :: nat)"
  by linarith

lemma quad_leD: "4 * p \<le> 4 * q + b \<Longrightarrow> b < 4 \<Longrightarrow> p \<le> (q :: nat)"
  by linarith

lemma quad_lessD: "4 * q + b < 4 * p \<Longrightarrow> q < (p :: nat)"
  by linarith

lemma byte_at_bound: "x < w \<Longrightarrow> y < h \<Longrightarrow> b < 4 \<Longrightarrow> byte_at w x y b < 4 * (w * h)"
proof -
  assume a: "x < w" "y < h" "b < 4"
  then have "Suc y * w \<le> h * w" by (intro mult_le_mono1) simp
  then have "y * w + w \<le> w * h" by (simp add: mult.commute)
  with a have "y * w + x < w * h" by linarith
  from quad_less [OF this a(3)] show ?thesis unfolding byte_at_def .
qed

lemma byte_at_surj:
  assumes "i < 4 * (w * h)"
  obtains x y b where "x < w" "y < h" "b < 4" "i = byte_at w x y b"
proof
  have w: "0 < w" using assms by (cases w) auto
  show "i mod 4 < 4" "(i div 4) mod w < w" using w by simp_all
  have "i div 4 < w * h" using assms by linarith
  then show "(i div 4) div w < h" using w by (simp add: div_less_iff_less_mult mult.commute)
  show "i = byte_at w ((i div 4) mod w) ((i div 4) div w) (i mod 4)"
    by (simp add: byte_at_def)
qed

lemma cell_window:
  fixes X Y R w c n :: nat
  assumes "X < w" "c + n \<le> w"
  shows "R * w + c \<le> Y * w + X \<and> Y * w + X < R * w + c + n \<longleftrightarrow> Y = R \<and> c \<le> X \<and> X < c + n"
proof
  assume h: "R * w + c \<le> Y * w + X \<and> Y * w + X < R * w + c + n"
  have "Y * w + X < R * w + w" "R * w \<le> Y * w + X" using h assms by linarith+
  then have "Y < Suc R" "R < Suc Y"
    using assms(1) mult_le_mono1 [of "Suc R" Y w] mult_le_mono1 [of "Suc Y" R w] by (auto simp: not_less [symmetric])
  then have "Y = R" by linarith
  with h show "Y = R \<and> c \<le> X \<and> X < c + n" by auto
qed auto

definition in_tile :: "tile_args \<Rightarrow> nat \<Rightarrow> nat \<Rightarrow> bool" where
  "in_tile a x y \<longleftrightarrow> tileX a \<le> x \<and> x < tileX a + visW a \<and> tileY a \<le> y \<and> y < tileY a + visH a"

lemma tile_byte_iff:
  fixes x y b :: nat
  assumes v: "wd_tile_layout_is_valid a" and x: "x < fbW a" and b: "b < 4"
  defines "i \<equiv> byte_at (fbW a) x y b"
  shows "origin a \<le> i \<and> (i - origin a) div (4 * fbW a) < visH a \<and> (i - origin a) mod (4 * fbW a) < 4 * visW a \<longleftrightarrow> in_tile a x y"
    and "in_tile a x y \<Longrightarrow> (i - origin a) div (4 * fbW a) = y - tileY a \<and> (i - origin a) mod (4 * fbW a) = 4 * (x - tileX a) + b"
proof -
  note t = tile_visible [OF v]
  show 2: "(i - origin a) div (4 * fbW a) = y - tileY a \<and> (i - origin a) mod (4 * fbW a) = 4 * (x - tileX a) + b"
    if c: "in_tile a x y"
  proof -
    obtain dy dx where d: "y = tileY a + dy" "x = tileX a + dx" using c by (metis in_tile_def le_iff_add)
    then have "i - origin a = byte_at (fbW a) dx dy b" by (simp add: i_def byte_at_def algebra_simps)
    moreover have "dx < fbW a" using d x by simp
    ultimately show ?thesis using byte_at_div_mod [OF _ b, of dx "fbW a" dy] d by simp
  qed
  show "origin a \<le> i \<and> (i - origin a) div (4 * fbW a) < visH a \<and> (i - origin a) mod (4 * fbW a) < 4 * visW a \<longleftrightarrow> in_tile a x y"
  proof
    assume h: "origin a \<le> i \<and> (i - origin a) div (4 * fbW a) < visH a \<and> (i - origin a) mod (4 * fbW a) < 4 * visW a"
    let ?r = "(i - origin a) div (4 * fbW a)"
    have "4 * visW a \<le> 4 * fbW a" using t(5) by linarith
    from row_window [OF this, of "origin a" i ?r] h
    have "origin a + ?r * (4 * fbW a) \<le> i" "i < origin a + ?r * (4 * fbW a) + 4 * visW a" by auto
    then have "4 * ((tileY a + ?r) * fbW a + tileX a) \<le> 4 * (y * fbW a + x) + b"
      "4 * (y * fbW a + x) + b < 4 * ((tileY a + ?r) * fbW a + tileX a + visW a)"
      by (simp_all add: i_def byte_at_def algebra_simps)
    then have "(tileY a + ?r) * fbW a + tileX a \<le> y * fbW a + x" "y * fbW a + x < (tileY a + ?r) * fbW a + tileX a + visW a"
      using quad_leD [OF _ b] quad_lessD by blast+
    then have "y = tileY a + ?r \<and> tileX a \<le> x \<and> x < tileX a + visW a" using cell_window [OF x t(5)] by blast
    then show "in_tile a x y" using h by (simp add: in_tile_def)
  next
    assume c: "in_tile a x y"
    have "tileY a * fbW a \<le> y * fbW a" using c by (intro mult_le_mono1) (simp add: in_tile_def)
    then have "tileY a * fbW a + tileX a \<le> y * fbW a + x" using c unfolding in_tile_def by linarith
    then have "origin a \<le> i" unfolding i_def byte_at_def by (rule trans_le_add1 [OF mult_le_mono2])
    moreover have "y - tileY a < visH a" "4 * (x - tileX a) + b < 4 * visW a" using c b by (auto simp: in_tile_def)
    ultimately show "origin a \<le> i \<and> (i - origin a) div (4 * fbW a) < visH a \<and> (i - origin a) mod (4 * fbW a) < 4 * visW a"
      using 2 [OF c] by simp
  qed
qed

lemma tile_capacity_exact:
  "unat (tile_capacity_needed a) = 4 * (tileW a * tileH a)"
proof -
  have m: "tileW a * tileH a \<le> 65535 * 65535"
    by (rule mult_le_mono) (use unat_u16_lt [of "tile_width a"] unat_u16_lt [of "tile_height a"] in linarith)+
  then have m1: "unat (ucast (tile_width a) * ucast (tile_height a) :: u64) = tileW a * tileH a"
    by (subst unat_mult_exact) auto
  show ?thesis unfolding tile_capacity_needed_def
    by (subst unat_mult_exact) (use m m1 in \<open>simp_all add: mult.commute\<close>)
qed

lemma tile_bytes_exact:
  assumes "wd_tile_layout_is_valid a"
  shows "unat (ucast (tile_width a) * ucast (tile_height a) * WD_BYTES_PER_PIXEL :: u32) = 4 * (tileW a * tileH a)"
  by (subst unat_mult_exact)
     (use layout_grid(10) [OF assms] in \<open>simp_all add: unat_mult_u16 mult.commute mult.left_commute\<close>)

lemma extract_ok:
  assumes v: "wd_tile_layout_is_valid a" and fb: "length fb = 4 * (fbW a * fbH a)"
    and out: "4 * (tileW a * tileH a) \<le> length out" and cap: "tile_capacity_needed a \<le> cap"
  obtains out' where "wd_extract_tile_xrgb8888_for_tile_sized (Some fb) a out cap = Some (True, out')"
    "length out' = length out"
    "\<And>x y b. \<lbrakk>x < tileW a; y < tileH a; b < 4\<rbrakk> \<Longrightarrow> out' ! byte_at (tileW a) x y b =
       (if x < visW a \<and> y < visH a then fb ! byte_at (fbW a) (tileX a + x) (tileY a + y) b else 0)"
    "\<And>i. \<lbrakk>4 * (tileW a * tileH a) \<le> i; i < length out\<rbrakk> \<Longrightarrow> out' ! i = out ! i"
proof -
  note t = tile_visible [OF v]
  let ?n = "4 * (tileW a * tileH a)"
  from out obtain z where z: "wr_range out 0 (replicate ?n 0) = Some z" by (simp add: wr_range_def)
  have zn: "length z = length out" "i < length out \<Longrightarrow> z ! i = (if i < ?n then 0 else out ! i)" for i
    using length_wr_range [OF z] nth_wr_range [OF z, of i] by auto
  have n: "4 * visW a \<le> 4 * tileW a" using t(3) by simp
  have src: "\<forall>y. y < visH a \<longrightarrow> origin a + y * (4 * fbW a) + 4 * visW a \<le> length fb"
    using row_offset_bound [OF v] fb by simp
  have dst: "\<forall>y. y < visH a \<longrightarrow> 0 + y * (4 * tileW a) + 4 * visW a \<le> length z"
    using le_trans [OF tile_row_bound [OF v] out] zn(1) by simp
  from copy_rows_ok [OF n src dst]
  obtain r where r1: "copy_rows fb (origin a) (4 * fbW a) (4 * visW a) 0 (4 * tileW a) [0..<visH a] z = Some r" and r2: "length r = length z"
    and r3: "\<forall>i. i < length z \<longrightarrow> r ! i = (if 0 \<le> i \<and> (i - 0) div (4 * tileW a) < visH a \<and> (i - 0) mod (4 * tileW a) < 4 * visW a
       then fb ! (origin a + (i - 0) div (4 * tileW a) * (4 * fbW a) + (i - 0) mod (4 * tileW a)) else z ! i)"
    by (elim exE conjE)
  have "r ! i = (if i div (4 * tileW a) < visH a \<and> i mod (4 * tileW a) < 4 * visW a
       then fb ! (origin a + i div (4 * tileW a) * (4 * fbW a) + i mod (4 * tileW a)) else z ! i)" if "i < length z" for i
    using r3 that by simp
  note r = r1 r2 this
  show thesis
  proof
    show "wd_extract_tile_xrgb8888_for_tile_sized (Some fb) a out cap = Some (True, r)"
      using v cap z r(1) by (simp add: wd_extract_tile_xrgb8888_for_tile_sized_def tile_bytes_exact [OF v] not_less
          extract_rows_copy [OF v] list_all_iff)
    show "length r = length out" using r(2) zn(1) by simp
    fix x y b :: nat assume xyb: "x < tileW a" "y < tileH a" "b < 4"
    let ?i = "byte_at (tileW a) x y b"
    have i: "?i < ?n" by (rule byte_at_bound [OF xyb])
    have "4 * x + b < 4 * visW a \<longleftrightarrow> x < visW a" using xyb(3) by linarith
    moreover have "origin a + y * (4 * fbW a) + (4 * x + b) = byte_at (fbW a) (tileX a + x) (tileY a + y) b"
      by (simp add: byte_at_def algebra_simps)
    ultimately show "r ! ?i = (if x < visW a \<and> y < visH a then fb ! byte_at (fbW a) (tileX a + x) (tileY a + y) b else 0)"
      using r(3) [of ?i] i zn out byte_at_div_mod [OF xyb(1,3), of y] by auto
  next
    fix i assume i: "?n \<le> i" "i < length out"
    have "\<not> i div (4 * tileW a) < visH a"
    proof
      assume "i div (4 * tileW a) < visH a"
      then have "i div (4 * tileW a) < tileH a" using t(4) by linarith
      then have "i < tileH a * (4 * tileW a)" using layout_grid(3) [OF v] by (simp add: div_less_iff_less_mult)
      with i show False by (simp add: mult.left_commute mult.commute)
    qed
    then show "r ! i = out ! i" using r(3) [of i] i zn by simp
  qed
qed

lemma blit_ok:
  assumes v: "wd_tile_layout_is_valid a" and fb: "length fb = 4 * (fbW a * fbH a)"
    and tile: "4 * (tileW a * tileH a) \<le> length tile" and cap: "tile_capacity_needed a \<le> cap"
  obtains fb' where "wd_blit_tile_xrgb8888_for_tile_sized fb a (Some tile) cap = Some (True, fb')"
    "length fb' = length fb"
    "\<And>x y b. \<lbrakk>x < fbW a; y < fbH a; b < 4\<rbrakk> \<Longrightarrow> fb' ! byte_at (fbW a) x y b =
       (if in_tile a x y then tile ! byte_at (tileW a) (x - tileX a) (y - tileY a) b else fb ! byte_at (fbW a) x y b)"
proof -
  note t = tile_visible [OF v]
  have n: "4 * visW a \<le> 4 * fbW a" using t(5) by simp
  have src: "\<forall>y. y < visH a \<longrightarrow> 0 + y * (4 * tileW a) + 4 * visW a \<le> length tile"
    using le_trans [OF tile_row_bound [OF v] tile] by simp
  have dst: "\<forall>y. y < visH a \<longrightarrow> origin a + y * (4 * fbW a) + 4 * visW a \<le> length fb"
    using row_offset_bound [OF v] fb by simp
  from copy_rows_ok [OF n src dst]
  obtain r where r1: "copy_rows tile 0 (4 * tileW a) (4 * visW a) (origin a) (4 * fbW a) [0..<visH a] fb = Some r" and r2: "length r = length fb"
    and r3: "\<forall>i. i < length fb \<longrightarrow> r ! i = (if origin a \<le> i \<and> (i - origin a) div (4 * fbW a) < visH a \<and> (i - origin a) mod (4 * fbW a) < 4 * visW a
       then tile ! (0 + (i - origin a) div (4 * fbW a) * (4 * tileW a) + (i - origin a) mod (4 * fbW a)) else fb ! i)"
    by (elim exE conjE)
  note r = r1 r2 r3 [unfolded add_0, rule_format]
  show thesis
  proof
    show "wd_blit_tile_xrgb8888_for_tile_sized fb a (Some tile) cap = Some (True, r)"
      using v cap r(1) by (simp add: wd_blit_tile_xrgb8888_for_tile_sized_def not_less blit_rows_copy [OF v] list_all_iff)
    show "length r = length fb" by (rule r(2))
    fix x y b :: nat assume xyb: "x < fbW a" "y < fbH a" "b < 4"
    let ?i = "byte_at (fbW a) x y b"
    have i: "?i < length fb" unfolding fb by (rule byte_at_bound [OF xyb])
    have "(y - tileY a) * (4 * tileW a) + (4 * (x - tileX a) + b) = byte_at (tileW a) (x - tileX a) (y - tileY a) b"
      by (simp add: byte_at_def algebra_simps)
    then show "r ! ?i = (if in_tile a x y then tile ! byte_at (tileW a) (x - tileX a) (y - tileY a) b else fb ! ?i)"
      using r(3) [OF i] tile_byte_iff [OF v xyb(1,3), of y] by auto
  qed
qed


section \<open>The grid partitions the framebuffer\<close>

lemma valid_retile:
  "\<lbrakk>wd_tile_layout_is_valid a; t < total_tiles a\<rbrakk> \<Longrightarrow> wd_tile_layout_is_valid (a\<lparr>tile_id := t\<rparr>)"
  unfolding wd_tile_layout_is_valid_def wd_tile_id_valid_for_def by (simp split: if_splits)

lemma cell_of_iff:
  fixes x t w k :: nat
  assumes "0 < t" "x < w"
  shows "k * t \<le> x \<and> x < k * t + min (w - k * t) t \<longleftrightarrow> x div t = k"
proof -
  have "k * t \<le> x \<and> x < k * t + min (w - k * t) t \<longleftrightarrow> k * t \<le> x \<and> x < Suc k * t"
    using assms(2) by (auto simp: min_def)
  also have "\<dots> \<longleftrightarrow> x div t = k"
    using assms(1) by (metis div_less_iff_less_mult less_eq_div_iff_mult_less_eq less_Suc_eq_le le_antisym order_refl)
  finally show ?thesis .
qed

lemma in_tile_iff:
  assumes v: "wd_tile_layout_is_valid a" and xy: "x < fbW a" "y < fbH a" and t: "t < total_tiles a"
  shows "in_tile (a\<lparr>tile_id := t\<rparr>) x y \<longleftrightarrow>
           x div tileW a = unat t mod unat (tiles_x a) \<and> y div tileH a = unat t div unat (tiles_x a)"
proof -
  let ?a = "a\<lparr>tile_id := t\<rparr>"
  note g = layout_grid [OF v]
  have nz: "tiles_x ?a \<noteq> 0" using g(6) by auto
  show ?thesis
    using cell_of_iff [OF g(3) xy(1), of "unat t mod unat (tiles_x a)"] cell_of_iff [OF g(4) xy(2), of "unat t div unat (tiles_x a)"]
    unfolding in_tile_def visW_eq visH_eq tileX_eq [OF nz] tileY_eq [OF nz] by simp blast
qed

lemma pixel_tile_id:
  assumes v: "wd_tile_layout_is_valid a" and xy: "x < framebuffer_width a" "y < framebuffer_height a"
  obtains t where "wd_tile_id_for_pixel x y (tiles_x a) (total_tiles a) (tile_width a) (tile_height a) = Some t"
    "t < total_tiles a" "unat t = (unat y div tileH a) * unat (tiles_x a) + unat x div tileW a" "unat x div tileW a < unat (tiles_x a)"
proof -
  note g = layout_grid [OF v]
  let ?nx = "unat (tiles_x a)" and ?tx = "unat x div tileW a" and ?ty = "unat y div tileH a"
  have lt: "unat x < fbW a" "unat y < fbH a" using xy by (simp_all add: word_less_nat_alt)
  have tx: "?tx < ?nx" unfolding g(5) less_ceil_div_iff [OF g(3)]
    by (rule le_less_trans [OF _ lt(1)]) simp
  have ty: "?ty < (fbH a + tileH a - 1) div tileH a" unfolding less_ceil_div_iff [OF g(4)]
    by (rule le_less_trans [OF _ lt(2)]) simp
  have "Suc ?ty * ?nx \<le> (fbH a + tileH a - 1) div tileH a * ?nx" using ty by (intro mult_le_mono1) simp
  then have id: "?ty * ?nx + ?tx < unat (total_tiles a)" unfolding g(7) using tx by (simp add: mult.commute)
  have tot: "unat (total_tiles a) < 65536" by (rule unat_u16_lt)
  have wx: "unat ((ucast x :: u64) div ucast (tile_width a)) = ?tx" "unat ((ucast y :: u64) div ucast (tile_height a)) = ?ty"
    by (simp_all add: unat_div)
  let ?id = "(ucast y :: u64) div ucast (tile_height a) * ucast (tiles_x a) + (ucast x :: u64) div ucast (tile_width a)"
  have m: "unat ((ucast y :: u64) div ucast (tile_height a) * ucast (tiles_x a)) = ?ty * ?nx"
    by (subst unat_mult_exact) (use wx id tot in simp_all)
  have idw: "unat ?id = ?ty * ?nx + ?tx"
    by (subst unat_add_exact) (use wx id tot m in simp_all)
  show thesis
  proof
    have nz: "tiles_x a \<noteq> 0" "total_tiles a \<noteq> 0" "tile_width a \<noteq> 0" "tile_height a \<noteq> 0"
      using g(3,4,6) id by auto
    have "\<not> ((ucast x :: u64) div ucast (tile_width a) \<ge> ucast (tiles_x a) \<or> ?id \<ge> ucast (total_tiles a) \<or> ?id > UINT16_MAX)"
      unfolding word_le_nat_alt word_less_nat_alt using wx idw id tot tx by simp
    then show "wd_tile_id_for_pixel x y (tiles_x a) (total_tiles a) (tile_width a) (tile_height a) = Some (ucast ?id)"
      unfolding wd_tile_id_for_pixel_def Let_def using nz by (simp only: if_False simp_thms)
    have u: "unat (ucast ?id :: u16) = ?ty * ?nx + ?tx" using idw id tot by (simp add: unat_ucast_small)
    then show "unat (ucast ?id :: u16) = ?ty * ?nx + ?tx" .
    show "(ucast ?id :: u16) < total_tiles a" unfolding word_less_nat_alt u by (rule id)
    show "?tx < ?nx" by (rule tx)
  qed
qed

text \<open>
  C23: In a valid grid every pixel of the surface belongs to exactly one tile, the one that
  \<open>wd_tile_id_for_pixel\<close> returns: that tile's visible rectangle contains the pixel and no
  other tile's does.
\<close>

theorem pixel_in_exactly_one_tile:
  assumes v: "wd_tile_layout_is_valid a" and xy: "x < framebuffer_width a" "y < framebuffer_height a"
  shows "\<exists>t. wd_tile_id_for_pixel x y (tiles_x a) (total_tiles a) (tile_width a) (tile_height a) = Some t \<and>
           t < total_tiles a \<and>
           (\<forall>t'. t' < total_tiles a \<longrightarrow> (in_tile (a\<lparr>tile_id := t'\<rparr>) (unat x) (unat y) \<longleftrightarrow> t' = t))"
proof -
  obtain t where t: "wd_tile_id_for_pixel x y (tiles_x a) (total_tiles a) (tile_width a) (tile_height a) = Some t"
    "t < total_tiles a" "unat t = (unat y div tileH a) * unat (tiles_x a) + unat x div tileW a" "unat x div tileW a < unat (tiles_x a)"
    by (rule pixel_tile_id [OF v xy])
  have lt: "unat x < fbW a" "unat y < fbH a" using xy by (simp_all add: word_less_nat_alt)
  have "in_tile (a\<lparr>tile_id := t'\<rparr>) (unat x) (unat y) \<longleftrightarrow> t' = t" if t': "t' < total_tiles a" for t'
  proof -
    have "unat t' = unat t' div unat (tiles_x a) * unat (tiles_x a) + unat t' mod unat (tiles_x a)" by simp
    moreover have "unat t div unat (tiles_x a) = unat y div tileH a" "unat t mod unat (tiles_x a) = unat x div tileW a"
      using t(3,4) by simp_all
    ultimately show ?thesis unfolding in_tile_iff [OF v lt t'] unat_eq_iff using t(3) by metis
  qed
  with t show ?thesis by blast
qed

definition demo_tile :: tile_args where
  "demo_tile = \<lparr>framebuffer_width = 3, framebuffer_height = 3, tiles_x = 2, total_tiles = 4, tile_id = 3,
                tile_width = 2, tile_height = 2\<rparr>"

lemma demo_tile_valid: "wd_tile_layout_is_valid demo_tile"
  by (simp add: demo_tile_def wd_tile_layout_is_valid_def wd_tile_id_valid_for_def wd_total_tiles_for_size_with_tile_def
      wd_tiles_for_width_with_tile_def wd_tiles_for_height_with_tile_def)

theorem pixel_in_exactly_one_tile_witness:
  "\<exists>t. wd_tile_id_for_pixel 2 1 2 4 2 2 = Some t \<and> t = 1 \<and> in_tile (demo_tile\<lparr>tile_id := 1\<rparr>) 2 1"
proof -
  have "2 < framebuffer_width demo_tile" "1 < framebuffer_height demo_tile" by (simp_all add: demo_tile_def)
  from pixel_in_exactly_one_tile [OF demo_tile_valid this] obtain t where
    t: "wd_tile_id_for_pixel 2 1 2 4 2 2 = Some t" "\<forall>t'. t' < 4 \<longrightarrow> in_tile (demo_tile\<lparr>tile_id := t'\<rparr>) 2 1 = (t' = t)"
    by (auto simp: demo_tile_def)
  moreover have "wd_tile_id_for_pixel 2 1 2 4 2 2 = Some 1" by (simp add: wd_tile_id_for_pixel_def word_le_nat_alt)
  ultimately show ?thesis by simp
qed


section \<open>Properties of the tile routines\<close>

text \<open>
  C24: Extracting a valid tile from a framebuffer of the announced size never reads or writes
  out of bounds; the output holds the tile's visible pixels at the tile's own stride, zero in the
  part beyond the surface, and its bytes after the tile are untouched.
\<close>

theorem extract_tile_exact:
  assumes "wd_tile_layout_is_valid a" "length fb = 4 * (fbW a * fbH a)" "4 * (tileW a * tileH a) \<le> length out"
    "tile_capacity_needed a \<le> cap"
  shows "\<exists>out'. wd_extract_tile_xrgb8888_for_tile_sized (Some fb) a out cap = Some (True, out') \<and>
    length out' = length out \<and>
    (\<forall>x y b. x < tileW a \<and> y < tileH a \<and> b < 4 \<longrightarrow>
       out' ! byte_at (tileW a) x y b =
         (if x < visW a \<and> y < visH a then fb ! byte_at (fbW a) (tileX a + x) (tileY a + y) b else 0)) \<and>
    (\<forall>i. 4 * (tileW a * tileH a) \<le> i \<and> i < length out \<longrightarrow> out' ! i = out ! i)"
  by (rule extract_ok [OF assms]) blast

text \<open>A 3 by 3 framebuffer whose nine pixels have distinct bytes.\<close>

definition demo_fb :: bytes where
  "demo_fb = map word_of_nat [0..<36]"

lemma demo_fb_size: "length demo_fb = 4 * (fbW demo_tile * fbH demo_tile)"
  by (simp add: demo_fb_def demo_tile_def)

theorem extract_tile_exact_witness:
  "\<exists>out'. wd_extract_tile_xrgb8888_for_tile_sized (Some demo_fb) demo_tile (replicate 17 9) 16 = Some (True, out') \<and>
     out' ! byte_at 2 0 0 3 = demo_fb ! byte_at 3 2 2 3 \<and> out' ! byte_at 2 1 0 0 = 0 \<and> out' ! 16 = 9"
proof -
  have o: "4 * (tileW demo_tile * tileH demo_tile) \<le> length (replicate 17 (9 :: u8))"
    "tile_capacity_needed demo_tile \<le> 16" by (simp_all add: demo_tile_def tile_capacity_needed_def)
  have d: "tileW demo_tile = 2" "tileH demo_tile = 2" "fbW demo_tile = 3" "tileX demo_tile = 2" "tileY demo_tile = 2"
      "visW demo_tile = 1" "visH demo_tile = 1"
    by (simp_all add: demo_tile_def start_x_def start_y_def visible_width_def visible_height_def
        wd_tile_visible_width_for_tile_def wd_tile_visible_height_for_tile_def wd_tile_start_x_for_tile_def
        wd_tile_start_y_for_tile_def wd_tile_x_for_def wd_tile_y_for_def Let_def word_le_nat_alt)
  show ?thesis using extract_tile_exact [OF demo_tile_valid demo_fb_size o] unfolding d by auto
qed

text \<open>
  C25: Blitting a tile into a framebuffer of the announced size stays in bounds, replaces exactly
  the pixels of the tile's visible rectangle by the tile's and leaves every other pixel as it was.
\<close>

theorem blit_tile_exact:
  assumes "wd_tile_layout_is_valid a" "length fb = 4 * (fbW a * fbH a)" "4 * (tileW a * tileH a) \<le> length tile"
    "tile_capacity_needed a \<le> cap"
  shows "\<exists>fb'. wd_blit_tile_xrgb8888_for_tile_sized fb a (Some tile) cap = Some (True, fb') \<and>
    length fb' = length fb \<and>
    (\<forall>x y b. x < fbW a \<and> y < fbH a \<and> b < 4 \<longrightarrow>
       fb' ! byte_at (fbW a) x y b =
         (if in_tile a x y then tile ! byte_at (tileW a) (x - tileX a) (y - tileY a) b else fb ! byte_at (fbW a) x y b))"
  by (rule blit_ok [OF assms]) blast

theorem blit_tile_exact_witness:
  "\<exists>fb'. wd_blit_tile_xrgb8888_for_tile_sized demo_fb demo_tile (Some (replicate 16 7)) 16 = Some (True, fb') \<and>
     length fb' = 36"
proof -
  have o: "4 * (tileW demo_tile * tileH demo_tile) \<le> length (replicate 16 (7 :: u8))"
    "tile_capacity_needed demo_tile \<le> 16" by (simp_all add: demo_tile_def tile_capacity_needed_def)
  show ?thesis using blit_tile_exact [OF demo_tile_valid demo_fb_size o] by (auto simp: demo_fb_def)
qed

text \<open>The life of a tile: the server extracts it, the client blits it.\<close>

definition send_tile :: "bytes \<Rightarrow> tile_args \<Rightarrow> bytes \<Rightarrow> bytes option" where
  "send_tile fb a dst =
     (case wd_extract_tile_xrgb8888_for_tile (Some fb) a (replicate (4 * (tileW a * tileH a)) 0) of
        Some (True, tile) \<Rightarrow>
          (case wd_blit_tile_xrgb8888_for_tile dst a (Some tile) of Some (True, dst') \<Rightarrow> Some dst' | _ \<Rightarrow> None)
      | _ \<Rightarrow> None)"

fun send_tiles :: "bytes \<Rightarrow> tile_args \<Rightarrow> u16 list \<Rightarrow> bytes \<Rightarrow> bytes option" where
  "send_tiles fb a [] dst = Some dst"
| "send_tiles fb a (t # ts) dst =
     (case send_tile fb (a\<lparr>tile_id := t\<rparr>) dst of None \<Rightarrow> None | Some dst' \<Rightarrow> send_tiles fb a ts dst')"

lemma send_tile_ok:
  assumes v: "wd_tile_layout_is_valid a" and len: "length fb = 4 * (fbW a * fbH a)" "length dst = 4 * (fbW a * fbH a)"
  shows "\<exists>d. send_tile fb a dst = Some d \<and> length d = length dst \<and>
           (\<forall>x y b. x < fbW a \<and> y < fbH a \<and> b < 4 \<longrightarrow> d ! byte_at (fbW a) x y b =
              (if in_tile a x y then fb ! byte_at (fbW a) x y b else dst ! byte_at (fbW a) x y b))"
proof -
  let ?n = "4 * (tileW a * tileH a)"
  obtain tile where t: "wd_extract_tile_xrgb8888_for_tile_sized (Some fb) a (replicate ?n 0) (tile_capacity_needed a) = Some (True, tile)"
    "length tile = length (replicate ?n (0 :: u8))"
    "\<And>x y b. \<lbrakk>x < tileW a; y < tileH a; b < 4\<rbrakk> \<Longrightarrow> tile ! byte_at (tileW a) x y b =
       (if x < visW a \<and> y < visH a then fb ! byte_at (fbW a) (tileX a + x) (tileY a + y) b else 0)"
    by (rule extract_ok [OF v len(1), of "replicate ?n 0" "tile_capacity_needed a"]) auto
  obtain d where d: "wd_blit_tile_xrgb8888_for_tile_sized dst a (Some tile) (tile_capacity_needed a) = Some (True, d)"
    "length d = length dst"
    "\<And>x y b. \<lbrakk>x < fbW a; y < fbH a; b < 4\<rbrakk> \<Longrightarrow> d ! byte_at (fbW a) x y b =
       (if in_tile a x y then tile ! byte_at (tileW a) (x - tileX a) (y - tileY a) b else dst ! byte_at (fbW a) x y b)"
    using t(2) by (auto intro: blit_ok [OF v len(2), of tile "tile_capacity_needed a"])
  have "tile ! byte_at (tileW a) (x - tileX a) (y - tileY a) b = fb ! byte_at (fbW a) x y b"
    if "in_tile a x y" "b < 4" for x y b
  proof -
    have "x - tileX a < visW a" "y - tileY a < visH a" "tileX a + (x - tileX a) = x" "tileY a + (y - tileY a) = y"
      using that(1) by (auto simp: in_tile_def)
    moreover from this have "x - tileX a < tileW a" "y - tileY a < tileH a" using tile_visible(3,4) [OF v] by linarith+
    ultimately show ?thesis using t(3) [of "x - tileX a" "y - tileY a" b] that(2) by simp
  qed
  with t(1) d show ?thesis
    by (auto simp: send_tile_def wd_extract_tile_xrgb8888_for_tile_def wd_blit_tile_xrgb8888_for_tile_def)
qed

definition tile_sent :: "tile_args \<Rightarrow> u16 list \<Rightarrow> nat \<Rightarrow> nat \<Rightarrow> bool" where
  "tile_sent a ts x y \<longleftrightarrow> list_ex (\<lambda>t. in_tile (a\<lparr>tile_id := t\<rparr>) x y) ts"

lemma send_tiles_ok:
  assumes v: "wd_tile_layout_is_valid a" and len: "length fb = 4 * (fbW a * fbH a)"
    and "length dst = 4 * (fbW a * fbH a)" "list_all (\<lambda>t. t < total_tiles a) ts"
  shows "\<exists>d. send_tiles fb a ts dst = Some d \<and> length d = length dst \<and>
           (\<forall>x y b. x < fbW a \<and> y < fbH a \<and> b < 4 \<longrightarrow> d ! byte_at (fbW a) x y b =
              (if tile_sent a ts x y then fb ! byte_at (fbW a) x y b else dst ! byte_at (fbW a) x y b))"
  using assms(3,4)
proof (induction ts arbitrary: dst)
  case Nil
  then show ?case by (simp add: tile_sent_def)
next
  case (Cons t ts)
  let ?a = "a\<lparr>tile_id := t\<rparr>"
  have v': "wd_tile_layout_is_valid ?a" using valid_retile [OF v] Cons.prems(2) by simp
  from send_tile_ok [OF v', of fb dst] len Cons.prems(1) obtain d where
    d: "send_tile fb ?a dst = Some d" "length d = length dst"
      "\<forall>x y b. x < fbW a \<and> y < fbH a \<and> b < 4 \<longrightarrow> d ! byte_at (fbW a) x y b =
         (if in_tile ?a x y then fb ! byte_at (fbW a) x y b else dst ! byte_at (fbW a) x y b)" by auto
  from Cons.IH [of d] d(2) Cons.prems obtain e where
    e: "send_tiles fb a ts d = Some e" "length e = length d"
      "\<forall>x y b. x < fbW a \<and> y < fbH a \<and> b < 4 \<longrightarrow> e ! byte_at (fbW a) x y b =
         (if tile_sent a ts x y then fb ! byte_at (fbW a) x y b else d ! byte_at (fbW a) x y b)" by auto
  show ?case
    by (rule exI [of _ e]) (use d e in \<open>simp add: tile_sent_def\<close>)
qed

text \<open>
  C9: Sending tiles one after the other, in any order and with repetitions, makes every pixel of
  a sent tile equal to the source's and changes no other; once each tile of the grid has been
  sent the destination is the source framebuffer.
\<close>

theorem tiles_rebuild_framebuffer:
  assumes v: "wd_tile_layout_is_valid a" and len: "length fb = 4 * (fbW a * fbH a)" "length dst = 4 * (fbW a * fbH a)"
    and ts: "list_all (\<lambda>t. t < total_tiles a) ts"
  shows "\<exists>d. send_tiles fb a ts dst = Some d \<and>
           (\<forall>x y b. x < fbW a \<and> y < fbH a \<and> b < 4 \<longrightarrow> d ! byte_at (fbW a) x y b =
              (if tile_sent a ts x y then fb ! byte_at (fbW a) x y b else dst ! byte_at (fbW a) x y b)) \<and>
           ((\<forall>t. t < total_tiles a \<longrightarrow> t \<in> set ts) \<longrightarrow> d = fb)"
proof -
  from send_tiles_ok [OF v len ts] obtain d where
    d: "send_tiles fb a ts dst = Some d" "length d = length dst"
      "\<forall>x y b. x < fbW a \<and> y < fbH a \<and> b < 4 \<longrightarrow> d ! byte_at (fbW a) x y b =
         (if tile_sent a ts x y then fb ! byte_at (fbW a) x y b else dst ! byte_at (fbW a) x y b)" by blast
  have "d = fb" if all: "\<forall>t. t < total_tiles a \<longrightarrow> t \<in> set ts"
  proof (rule nth_equalityI)
    show "length d = length fb" using d(2) len by simp
    fix i assume "i < length d"
    then have "i < 4 * (fbW a * fbH a)" using d(2) len by simp
    then obtain x y b where xyb: "x < fbW a" "y < fbH a" "b < 4" and i: "i = byte_at (fbW a) x y b" by (rule byte_at_surj)
    have lt: "fbW a < 4294967296" "fbH a < 4294967296" by (rule unat_u32_lt)+
    let ?x = "word_of_nat x :: u32" and ?y = "word_of_nat y :: u32"
    have u: "unat ?x = x" "unat ?y = y" using xyb lt by (simp_all add: unat_word_of_nat)
    have "?x < framebuffer_width a" "?y < framebuffer_height a" using xyb u by (simp_all add: word_less_nat_alt)
    then obtain t where t: "t < total_tiles a" "unat t = (y div tileH a) * unat (tiles_x a) + x div tileW a" "x div tileW a < unat (tiles_x a)"
      using pixel_tile_id [OF v] u by metis
    then have "in_tile (a\<lparr>tile_id := t\<rparr>) x y" unfolding in_tile_iff [OF v xyb(1,2) t(1)] by simp
    then have "tile_sent a ts x y" using all t(1) by (auto simp: tile_sent_def list_ex_iff)
    with d(3) xyb show "d ! i = fb ! i" by (simp add: i)
  qed
  with d show ?thesis by blast
qed

theorem tiles_rebuild_framebuffer_witness:
  "send_tiles demo_fb demo_tile [3, 0, 1, 3, 2] (replicate 36 0) = Some demo_fb"
proof -
  have l: "length (replicate 36 (0 :: u8)) = 4 * (fbW demo_tile * fbH demo_tile)" by (simp add: demo_tile_def)
  have ts: "list_all (\<lambda>t. t < total_tiles demo_tile) [3, 0, 1, 3, 2]" by (simp add: demo_tile_def)
  have "\<forall>t. t < total_tiles demo_tile \<longrightarrow> t \<in> set [3, 0, 1, 3, 2]"
  proof (intro allI impI)
    fix t :: u16 assume "t < total_tiles demo_tile"
    then have "unat t < 4" by (simp add: demo_tile_def word_less_nat_alt)
    then have "unat t = 0 \<or> unat t = 1 \<or> unat t = 2 \<or> unat t = 3" by linarith
    then show "t \<in> set [3, 0, 1, 3, 2]" by (auto simp: unat_eq_iff)
  qed
  with tiles_rebuild_framebuffer [OF demo_tile_valid demo_fb_size l ts] show ?thesis by auto
qed


section \<open>The tile hash\<close>

text \<open>The visible pixels of a tile, row by row.\<close>

definition tile_pixels :: "bytes \<Rightarrow> tile_args \<Rightarrow> u32 list" where
  "tile_pixels fb a =
     concat (map (\<lambda>y. map (\<lambda>x. field (byte_at (fbW a) (tileX a + x) (tileY a + y) 0) 4 fb) [0..<visW a]) [0..<visH a])"

definition fnv1a :: "u32 list \<Rightarrow> u32" where
  "fnv1a ps = foldl (\<lambda>h p. (h XOR p) * 16777619) 2166136261 ps"

lemma hash_row_ok:
  "list_all (\<lambda>x. 4 * (row + x) + 4 \<le> length fb) xs \<Longrightarrow>
     hash_row fb row xs h = Some (foldl (\<lambda>h p. (h XOR p) * 16777619) h (map (\<lambda>x. field (4 * (row + x)) 4 fb) xs))"
  by (induction xs arbitrary: h) (simp_all add: rd_pixel_def)

lemma hash_rows_ok:
  assumes v: "wd_tile_layout_is_valid a" and fb: "length fb = 4 * (fbW a * fbH a)"
  shows "list_all (\<lambda>y. y < visH a) ys \<Longrightarrow>
    hash_rows a fb ys h = Some (foldl (\<lambda>h p. (h XOR p) * 16777619) h
      (concat (map (\<lambda>y. map (\<lambda>x. field (byte_at (fbW a) (tileX a + x) (tileY a + y) 0) 4 fb) [0..<visW a]) ys)))"
proof (induction ys arbitrary: h)
  case Nil
  then show ?case by simp
next
  case (Cons y ys)
  then have y: "y < visH a" by simp
  let ?row = "(tileY a + y) * fbW a + tileX a"
  have "4 * (?row + x) + 4 \<le> length fb" if "x < visW a" for x
  proof -
    have "?row + x + 1 \<le> fbW a * fbH a" using unat_row_index(2) [OF v y] that by linarith
    then show ?thesis unfolding fb by (rule quad_le)
  qed
  then have l: "list_all (\<lambda>x. 4 * (?row + x) + 4 \<le> length fb) [0..<visW a]" by (simp add: list_all_iff)
  have p: "4 * (?row + x) = byte_at (fbW a) (tileX a + x) (tileY a + y) 0" for x
    by (simp add: byte_at_def algebra_simps)
  show ?case using Cons hash_row_ok [OF l, of h] unfolding p by (simp add: unat_row_index(1) [OF v y])
qed

text \<open>
  C26: The hash of a valid tile is defined (no pixel is read out of bounds) and is the 32-bit FNV-1a
  fold of exactly the tile's visible pixels in row order; so it cannot change while they do not.
\<close>

theorem tile_hash_is_fnv1a_of_visible_pixels:
  assumes "wd_tile_layout_is_valid a" "length fb = 4 * (fbW a * fbH a)"
  shows "wd_fnv1a_tile_hash_xrgb8888_for_tile (Some fb) a = Some (Some (fnv1a (tile_pixels fb a)))"
  using hash_rows_ok [OF assms, of "[0..<visH a]" 2166136261] assms(1)
  by (simp add: wd_fnv1a_tile_hash_xrgb8888_for_tile_def fnv1a_def tile_pixels_def list_all_iff)

theorem tile_hash_is_fnv1a_of_visible_pixels_witness:
  "wd_fnv1a_tile_hash_xrgb8888_for_tile (Some demo_fb) demo_tile =
     Some (Some (fnv1a (tile_pixels demo_fb demo_tile))) \<and> length demo_fb = 36"
  using tile_hash_is_fnv1a_of_visible_pixels [OF demo_tile_valid demo_fb_size] by (simp add: demo_fb_def)

end
