(* ===== verification/WD_Wire.thy ===== *)
theory WD_Wire
  imports WD_Prelude
begin

text \<open>
  The binary formats of the protocol: packed little-endian structures
  (\<open>src/include/waydisplay/wd_protocol.h\<close>, \<open>src/src/common/wd_protocol_codec.c\<close>). The locale
  \<open>wire_codec\<close> is what a packed structure promises: its image has a fixed size, reading it
  back gives the structure, and writing what was read gives the bytes. It is interpreted for
  the TCP frame header and for the two structures of a UDP tile packet; the tile packet's
  encoder, decoder and fragment check are then verified over it. Fields carry a prefix for
  their structure, since record fields share one name space.
\<close>

section \<open>Packed structures\<close>

locale wire_codec =
  fixes wsize :: nat and enc :: "'s \<Rightarrow> bytes" and dec :: "bytes \<Rightarrow> 's"
  assumes length_enc: "length (enc s) = wsize"
    and dec_enc: "dec (enc s @ rest) = s"
    and enc_dec: "wsize \<le> length bs \<Longrightarrow> enc (dec bs) = take wsize bs"
begin

lemma enc_inject: "enc s = enc t \<longleftrightarrow> s = t"
  by (metis dec_enc)

lemma dec_take: "wsize \<le> length bs \<Longrightarrow> dec (take wsize bs) = dec bs"
  using dec_enc [of "dec bs" "[]"] enc_dec [of bs] by simp

lemma dec_iff: "wsize \<le> length bs \<Longrightarrow> dec bs = s \<longleftrightarrow> take wsize bs = enc s"
  using enc_dec enc_inject dec_take dec_enc [of s "[]"] by (metis append_Nil2)

end

named_theorems wire_simps \<open>images and readings of packed structures\<close>

lemmas [wire_simps] = take_drop_join take_drop_join_rest

section \<open>TCP frame header\<close>

record wd_tcp_header =
  tcp_magic :: u32
  tcp_protocol_version :: u16
  tcp_message_type :: u16
  tcp_payload_size :: u32

abbreviation WD_PROTOCOL_VERSION :: u16 where "WD_PROTOCOL_VERSION \<equiv> 2"
abbreviation WD_TCP_MAGIC :: u32 where "WD_TCP_MAGIC \<equiv> 0x54434457"
abbreviation WD_TCP_HEADER_WIRE_SIZE :: nat where "WD_TCP_HEADER_WIRE_SIZE \<equiv> 12"

definition wd_tcp_header_encode :: "wd_tcp_header \<Rightarrow> bytes" where
  "wd_tcp_header_encode h =
     le 4 (tcp_magic h) @ le 2 (tcp_protocol_version h) @ le 2 (tcp_message_type h) @ le 4 (tcp_payload_size h)"

definition wd_tcp_header_decode :: "bytes \<Rightarrow> wd_tcp_header" where
  "wd_tcp_header_decode bs =
     \<lparr>tcp_magic = field 0 4 bs, tcp_protocol_version = field 4 2 bs, tcp_message_type = field 6 2 bs,
      tcp_payload_size = field 8 4 bs\<rparr>"

interpretation tcp_header: wire_codec 12 wd_tcp_header_encode wd_tcp_header_decode
proof unfold_locales
  fix h rest bs
  show "length (wd_tcp_header_encode h) = 12" by (simp add: wd_tcp_header_encode_def)
  show "wd_tcp_header_decode (wd_tcp_header_encode h @ rest) = h"
    by (simp add: wd_tcp_header_encode_def wd_tcp_header_decode_def)
  assume "12 \<le> length (bs :: bytes)"
  then show "wd_tcp_header_encode (wd_tcp_header_decode bs) = take 12 bs"
    using take_drop_join [of 4 0 bs 2] take_drop_join [of 6 0 bs 2] take_drop_join [of 8 0 bs 4]
    by (simp add: wd_tcp_header_encode_def wd_tcp_header_decode_def flip: append_assoc)
qed

section \<open>UDP tile packets\<close>

record wd_udp_tile_packet_header =
  uw_session_id :: u8
  uw_connection_token :: u64
  uw_content_epoch :: u64
  uw_flags :: u8
  uw_tile_size :: u8
  uw_tile_pkt_id :: u8
  uw_tile_id :: u16
  uw_tile_pkt_count :: u8
  uw_reserved :: u8
  uw_payload_size :: u16
  uw_tile_payload_size :: u16
  uw_tile_generation :: u64

record wd_udp_tile_packet_decoded =
  ud_session_id :: u8
  ud_connection_token :: u64
  ud_content_epoch :: u64
  ud_flags :: u8
  ud_tile_size :: u8
  ud_tile_pkt_id :: u8
  ud_tile_id :: u16
  ud_tile_pkt_count :: u8
  ud_payload_size :: u16
  ud_tile_payload_size :: u16
  ud_tile_generation :: u64
  ud_input_sequence :: u64
  ud_header_size :: u16

definition udp_wire_encode :: "wd_udp_tile_packet_header \<Rightarrow> bytes" where
  "udp_wire_encode w =
     le 1 (uw_session_id w) @ le 8 (uw_connection_token w) @ le 8 (uw_content_epoch w) @ le 1 (uw_flags w) @
     le 1 (uw_tile_size w) @ le 1 (uw_tile_pkt_id w) @ le 2 (uw_tile_id w) @ le 1 (uw_tile_pkt_count w) @
     le 1 (uw_reserved w) @ le 2 (uw_payload_size w) @ le 2 (uw_tile_payload_size w) @ le 8 (uw_tile_generation w)"

definition udp_wire_decode :: "bytes \<Rightarrow> wd_udp_tile_packet_header" where
  "udp_wire_decode bs =
     \<lparr>uw_session_id = field 0 1 bs, uw_connection_token = field 1 8 bs, uw_content_epoch = field 9 8 bs,
      uw_flags = field 17 1 bs, uw_tile_size = field 18 1 bs, uw_tile_pkt_id = field 19 1 bs,
      uw_tile_id = field 20 2 bs, uw_tile_pkt_count = field 22 1 bs, uw_reserved = field 23 1 bs,
      uw_payload_size = field 24 2 bs, uw_tile_payload_size = field 26 2 bs, uw_tile_generation = field 28 8 bs\<rparr>"

text \<open>The extension \<open>wd_udp_tile_input_sequence_extension\<close> has the one field \<open>input_sequence\<close>.\<close>

definition udp_extension_encode :: "u64 \<Rightarrow> bytes" where
  "udp_extension_encode s = le 8 s"

definition udp_extension_decode :: "bytes \<Rightarrow> u64" where
  "udp_extension_decode bs = field 0 8 bs"

interpretation udp_header: wire_codec 36 udp_wire_encode udp_wire_decode
proof unfold_locales
  fix w rest bs
  show "length (udp_wire_encode w) = 36" by (simp add: udp_wire_encode_def)
  show "udp_wire_decode (udp_wire_encode w @ rest) = w"
    by (simp add: udp_wire_encode_def udp_wire_decode_def)
  assume "36 \<le> length (bs :: bytes)"
  then show "udp_wire_encode (udp_wire_decode bs) = take 36 bs"
    using take_drop_join [of 1 0 bs 8] take_drop_join [of 9 0 bs 8] take_drop_join [of 17 0 bs 1]
      take_drop_join [of 18 0 bs 1] take_drop_join [of 19 0 bs 1] take_drop_join [of 20 0 bs 2]
      take_drop_join [of 22 0 bs 1] take_drop_join [of 23 0 bs 1] take_drop_join [of 24 0 bs 2]
      take_drop_join [of 26 0 bs 2] take_drop_join [of 28 0 bs 8]
    by (simp add: udp_wire_encode_def udp_wire_decode_def flip: append_assoc)
qed

interpretation udp_extension: wire_codec 8 udp_extension_encode udp_extension_decode
  by unfold_locales (simp_all add: udp_extension_encode_def udp_extension_decode_def)

abbreviation WD_UDP_TILE_FLAG_COMPRESSED :: u8 where "WD_UDP_TILE_FLAG_COMPRESSED \<equiv> 1"
abbreviation WD_UDP_TILE_FLAG_INPUT_SEQUENCE :: u8 where "WD_UDP_TILE_FLAG_INPUT_SEQUENCE \<equiv> 2"
abbreviation WD_UDP_TILE_FLAG_MASK :: u8 where "WD_UDP_TILE_FLAG_MASK \<equiv> 3"

definition wd_udp_tile_packet_is_compressed :: "wd_udp_tile_packet_decoded option \<Rightarrow> bool" where
  "wd_udp_tile_packet_is_compressed header \<longleftrightarrow>
     (case header of None \<Rightarrow> False | Some h \<Rightarrow> ud_flags h AND WD_UDP_TILE_FLAG_COMPRESSED \<noteq> 0)"

definition wd_udp_tile_packet_has_input_sequence :: "wd_udp_tile_packet_decoded option \<Rightarrow> bool" where
  "wd_udp_tile_packet_has_input_sequence header \<longleftrightarrow>
     (case header of None \<Rightarrow> False | Some h \<Rightarrow> ud_flags h AND WD_UDP_TILE_FLAG_INPUT_SEQUENCE \<noteq> 0)"

definition wd_udp_tile_header_size_for_flags :: "u8 \<Rightarrow> u16" where
  "wd_udp_tile_header_size_for_flags flags =
     (if flags AND NOT WD_UDP_TILE_FLAG_MASK \<noteq> 0 then 0
      else 36 + (if flags AND WD_UDP_TILE_FLAG_INPUT_SEQUENCE \<noteq> 0 then 8 else 0))"

definition wd_tile_size_code_for_dimensions :: "u16 \<Rightarrow> u16 \<Rightarrow> u8 option" where
  "wd_tile_size_code_for_dimensions width height =
     (if width = 128 \<and> height = 64 then Some 0
      else if width = 64 \<and> height = 64 then Some 1
      else if width = 32 \<and> height = 32 then Some 2
      else if width = 16 \<and> height = 16 then Some 3
      else None)"

definition wd_tile_dimensions_for_size_code :: "u8 \<Rightarrow> (u16 \<times> u16) option" where
  "wd_tile_dimensions_for_size_code tile_size =
     (if tile_size = 0 then Some (128, 64)
      else if tile_size = 1 then Some (64, 64)
      else if tile_size = 2 then Some (32, 32)
      else if tile_size = 3 then Some (16, 16)
      else None)"

text \<open>
  Encoding into a destination block; \<open>None\<close> is a write past its end, which happens only when
  \<open>destination_size\<close> is larger than the block.
\<close>

definition udp_wire_of :: "wd_udp_tile_packet_decoded \<Rightarrow> wd_udp_tile_packet_header" where
  "udp_wire_of h =
     \<lparr>uw_session_id = ud_session_id h, uw_connection_token = ud_connection_token h,
      uw_content_epoch = ud_content_epoch h, uw_flags = ud_flags h, uw_tile_size = ud_tile_size h,
      uw_tile_pkt_id = ud_tile_pkt_id h, uw_tile_id = ud_tile_id h, uw_tile_pkt_count = ud_tile_pkt_count h,
      uw_reserved = 0, uw_payload_size = ud_payload_size h, uw_tile_payload_size = ud_tile_payload_size h,
      uw_tile_generation = ud_tile_generation h\<rparr>"

definition wd_udp_tile_packet_encode_header ::
    "bytes \<Rightarrow> nat \<Rightarrow> wd_udp_tile_packet_decoded \<Rightarrow> (bool \<times> bytes) option" where
  "wd_udp_tile_packet_encode_header destination destination_size h =
     (if ud_session_id h = 0 \<or> ud_connection_token h = 0 \<or> ud_content_epoch h = 0 \<or> ud_tile_pkt_count h = 0 \<or>
         ud_tile_pkt_id h \<ge> ud_tile_pkt_count h \<or> ud_payload_size h = 0 \<or> ud_tile_payload_size h = 0 \<or>
         ud_payload_size h > ud_tile_payload_size h \<or> ud_tile_generation h = 0 \<or>
         wd_tile_dimensions_for_size_code (ud_tile_size h) = None
      then Some (False, destination)
      else
        let header_size = wd_udp_tile_header_size_for_flags (ud_flags h) in
        if header_size = 0 \<or> destination_size < unat header_size \<or>
           (ud_flags h AND WD_UDP_TILE_FLAG_INPUT_SEQUENCE \<noteq> 0 \<and> (ud_tile_pkt_id h \<noteq> 0 \<or> ud_input_sequence h = 0))
        then Some (False, destination)
        else
          (case wr_range destination 0 (udp_wire_encode (udp_wire_of h)) of
             None \<Rightarrow> None
           | Some d \<Rightarrow>
               if ud_flags h AND WD_UDP_TILE_FLAG_INPUT_SEQUENCE \<noteq> 0
               then map_option (Pair True) (wr_range d 36 (udp_extension_encode (ud_input_sequence h)))
               else Some (True, d)))"

definition udp_decoded_of :: "wd_udp_tile_packet_header \<Rightarrow> u16 \<Rightarrow> wd_udp_tile_packet_decoded" where
  "udp_decoded_of w header_size =
     \<lparr>ud_session_id = uw_session_id w, ud_connection_token = uw_connection_token w,
      ud_content_epoch = uw_content_epoch w, ud_flags = uw_flags w, ud_tile_size = uw_tile_size w,
      ud_tile_pkt_id = uw_tile_pkt_id w, ud_tile_id = uw_tile_id w, ud_tile_pkt_count = uw_tile_pkt_count w,
      ud_payload_size = uw_payload_size w, ud_tile_payload_size = uw_tile_payload_size w,
      ud_tile_generation = uw_tile_generation w, ud_input_sequence = 0, ud_header_size = header_size\<rparr>"

definition wd_udp_tile_packet_decode :: "bytes \<Rightarrow> wd_udp_tile_packet_decoded option" where
  "wd_udp_tile_packet_decode packet =
     (if length packet < 36 then None
      else
        let w = udp_wire_decode packet;
            header_size = wd_udp_tile_header_size_for_flags (uw_flags w)
        in
        if header_size = 0 \<or> length packet < unat header_size \<or> uw_session_id w = 0 \<or> uw_connection_token w = 0 \<or>
           uw_content_epoch w = 0 \<or> uw_reserved w \<noteq> 0 \<or> uw_tile_pkt_count w = 0 \<or>
           uw_tile_pkt_id w \<ge> uw_tile_pkt_count w \<or> uw_payload_size w = 0 \<or> uw_tile_payload_size w = 0 \<or>
           uw_payload_size w > uw_tile_payload_size w \<or> uw_tile_generation w = 0 \<or>
           wd_tile_dimensions_for_size_code (uw_tile_size w) = None
        then None
        else
          let out = udp_decoded_of w header_size;
              ok = unat header_size + unat (uw_payload_size w) = length packet
          in
          if uw_flags w AND WD_UDP_TILE_FLAG_INPUT_SEQUENCE \<noteq> 0
          then
            if uw_tile_pkt_id w \<noteq> 0 then None
            else
              let s = udp_extension_decode (drop 36 packet)
              in if s = 0 then None
                 else if ok then Some (out\<lparr>ud_input_sequence := s\<rparr>) else None
          else if ok then Some out else None)"

definition wd_udp_tile_fragment_layout_valid ::
    "wd_udp_tile_packet_decoded option \<Rightarrow> nat \<Rightarrow> u16 \<Rightarrow> u32 \<Rightarrow> bool" where
  "wd_udp_tile_fragment_layout_valid header packet_size udp_payload_target total_payload_size \<longleftrightarrow>
     (case header of
        None \<Rightarrow> False
      | Some h \<Rightarrow>
          if udp_payload_target = 0 \<or> total_payload_size = 0 \<or> total_payload_size \<noteq> ucast (ud_tile_payload_size h)
          then False
          else if unat (ud_header_size h) + unat (ud_payload_size h) \<noteq> packet_size then False
          else
            let expected_packet_count = (total_payload_size + ucast udp_payload_target - 1) div ucast udp_payload_target
            in
            if expected_packet_count = 0 \<or> expected_packet_count > UINT8_MAX \<or>
               ucast (ud_tile_pkt_count h) \<noteq> expected_packet_count \<or> ucast (ud_tile_pkt_id h) \<ge> expected_packet_count
            then False
            else
              let offset = ucast (ud_tile_pkt_id h) * ucast udp_payload_target;
                  remaining = total_payload_size - offset;
                  expected_payload_size =
                    (ucast (if remaining > ucast udp_payload_target then ucast udp_payload_target else remaining) :: u16)
              in ud_payload_size h = expected_payload_size)"


section \<open>Correctness of the tile packet codec\<close>

text \<open>The conditions on a header that encoder and decoder share.\<close>

definition udp_fields_ok :: "wd_udp_tile_packet_decoded \<Rightarrow> bool" where
  "udp_fields_ok h \<longleftrightarrow>
     ud_session_id h \<noteq> 0 \<and> ud_connection_token h \<noteq> 0 \<and> ud_content_epoch h \<noteq> 0 \<and> ud_tile_pkt_count h \<noteq> 0 \<and>
     ud_tile_pkt_id h < ud_tile_pkt_count h \<and> ud_payload_size h \<noteq> 0 \<and> ud_tile_payload_size h \<noteq> 0 \<and>
     ud_payload_size h \<le> ud_tile_payload_size h \<and> ud_tile_generation h \<noteq> 0 \<and>
     wd_tile_dimensions_for_size_code (ud_tile_size h) \<noteq> None \<and>
     ud_flags h AND NOT WD_UDP_TILE_FLAG_MASK = 0 \<and>
     (ud_flags h AND WD_UDP_TILE_FLAG_INPUT_SEQUENCE \<noteq> 0 \<longrightarrow> ud_tile_pkt_id h = 0 \<and> ud_input_sequence h \<noteq> 0)"

text \<open>The header's image, with its extension when the flag asks for it.\<close>

definition udp_header_bytes :: "wd_udp_tile_packet_decoded \<Rightarrow> bytes" where
  "udp_header_bytes h =
     udp_wire_encode (udp_wire_of h) @
     (if ud_flags h AND WD_UDP_TILE_FLAG_INPUT_SEQUENCE \<noteq> 0 then udp_extension_encode (ud_input_sequence h) else [])"

lemma header_size_cases:
  "wd_udp_tile_header_size_for_flags flags =
     (if flags AND NOT WD_UDP_TILE_FLAG_MASK \<noteq> 0 then 0
      else if flags AND WD_UDP_TILE_FLAG_INPUT_SEQUENCE \<noteq> 0 then 44 else 36)"
  by (simp add: wd_udp_tile_header_size_for_flags_def)

lemma length_udp_header_bytes:
  "udp_fields_ok h \<Longrightarrow> length (udp_header_bytes h) = unat (wd_udp_tile_header_size_for_flags (ud_flags h))"
  by (simp add: udp_header_bytes_def udp_fields_ok_def header_size_cases udp_header.length_enc udp_extension.length_enc)

lemma wr_range_prefix:
  "length ys \<le> length m \<Longrightarrow> wr_range m 0 ys = Some (ys @ drop (length ys) m)"
  by (simp add: wr_range_def)

lemma encode_header_iff:
  assumes "destination_size \<le> length d"
  shows "wd_udp_tile_packet_encode_header d destination_size h =
    (if udp_fields_ok h \<and> unat (wd_udp_tile_header_size_for_flags (ud_flags h)) \<le> destination_size
     then Some (True, udp_header_bytes h @ drop (length (udp_header_bytes h)) d) else Some (False, d))"
proof -
  let ?base = "ud_session_id h = 0 \<or> ud_connection_token h = 0 \<or> ud_content_epoch h = 0 \<or> ud_tile_pkt_count h = 0 \<or>
    ud_tile_pkt_id h \<ge> ud_tile_pkt_count h \<or> ud_payload_size h = 0 \<or> ud_tile_payload_size h = 0 \<or>
    ud_payload_size h > ud_tile_payload_size h \<or> ud_tile_generation h = 0 \<or>
    wd_tile_dimensions_for_size_code (ud_tile_size h) = None"
  let ?hs = "wd_udp_tile_header_size_for_flags (ud_flags h)"
  let ?ext = "ud_flags h AND WD_UDP_TILE_FLAG_INPUT_SEQUENCE \<noteq> 0"
  let ?late = "?hs = 0 \<or> destination_size < unat ?hs \<or> (?ext \<and> (ud_tile_pkt_id h \<noteq> 0 \<or> ud_input_sequence h = 0))"
  have hs0: "?hs = 0 \<longleftrightarrow> ud_flags h AND NOT WD_UDP_TILE_FLAG_MASK \<noteq> 0" by (simp add: header_size_cases)
  have ok: "\<not> (?base \<or> ?late) \<longleftrightarrow> udp_fields_ok h \<and> unat ?hs \<le> destination_size"
    unfolding udp_fields_ok_def hs0 not_le [symmetric] by blast
  have "(case wr_range d 0 (udp_wire_encode (udp_wire_of h)) of None \<Rightarrow> None
         | Some d' \<Rightarrow> if ?ext then map_option (Pair True) (wr_range d' 36 (udp_extension_encode (ud_input_sequence h)))
                      else Some (True, d')) =
        Some (True, udp_header_bytes h @ drop (length (udp_header_bytes h)) d)"
    if "udp_fields_ok h" "unat ?hs \<le> destination_size"
  proof -
    have l: "length (udp_header_bytes h) \<le> length d" using that length_udp_header_bytes assms by simp
    show ?thesis
    proof (cases ?ext)
      case True
      with l show ?thesis
        by (simp add: wr_range_prefix wr_range_def udp_header_bytes_def udp_header.length_enc udp_extension.length_enc)
    next
      case False
      with l show ?thesis by (simp add: wr_range_prefix udp_header_bytes_def udp_header.length_enc)
    qed
  qed
  note body = this
  have "wd_udp_tile_packet_encode_header d destination_size h =
      (if udp_fields_ok h \<and> unat ?hs \<le> destination_size then
         (case wr_range d 0 (udp_wire_encode (udp_wire_of h)) of None \<Rightarrow> None
          | Some d' \<Rightarrow> if ?ext then map_option (Pair True) (wr_range d' 36 (udp_extension_encode (ud_input_sequence h)))
                       else Some (True, d'))
       else Some (False, d))"
    unfolding wd_udp_tile_packet_encode_header_def Let_def by (rule if_two_guards [OF ok])
  also have "\<dots> = (if udp_fields_ok h \<and> unat ?hs \<le> destination_size
      then Some (True, udp_header_bytes h @ drop (length (udp_header_bytes h)) d) else Some (False, d))"
    by (rule if_cong) (use body in blast)+
  finally show ?thesis .
qed

text \<open>What the decoder makes of a header: the unused sequence number is zero.\<close>

definition udp_normal :: "wd_udp_tile_packet_decoded \<Rightarrow> bool" where
  "udp_normal h \<longleftrightarrow>
     ud_header_size h = wd_udp_tile_header_size_for_flags (ud_flags h) \<and>
     (ud_flags h AND WD_UDP_TILE_FLAG_INPUT_SEQUENCE = 0 \<longrightarrow> ud_input_sequence h = 0)"


lemma udp_wire_of_decoded:
  "uw_reserved w = 0 \<Longrightarrow> udp_wire_of (udp_decoded_of w hs) = w"
  "uw_reserved w = 0 \<Longrightarrow> udp_wire_of ((udp_decoded_of w hs)\<lparr>ud_input_sequence := s\<rparr>) = w"
  by (simp_all add: udp_wire_of_def udp_decoded_of_def)

lemma udp_decoded_fields [simp]:
  "ud_session_id (udp_decoded_of w hs) = uw_session_id w" "ud_connection_token (udp_decoded_of w hs) = uw_connection_token w"
  "ud_content_epoch (udp_decoded_of w hs) = uw_content_epoch w" "ud_flags (udp_decoded_of w hs) = uw_flags w"
  "ud_tile_size (udp_decoded_of w hs) = uw_tile_size w" "ud_tile_pkt_id (udp_decoded_of w hs) = uw_tile_pkt_id w"
  "ud_tile_pkt_count (udp_decoded_of w hs) = uw_tile_pkt_count w" "ud_payload_size (udp_decoded_of w hs) = uw_payload_size w"
  "ud_tile_payload_size (udp_decoded_of w hs) = uw_tile_payload_size w" "ud_tile_generation (udp_decoded_of w hs) = uw_tile_generation w"
  "ud_input_sequence (udp_decoded_of w hs) = 0" "ud_header_size (udp_decoded_of w hs) = hs"
  by (simp_all add: udp_decoded_of_def)

lemma udp_wire_fields [simp]:
  "uw_session_id (udp_wire_of h) = ud_session_id h" "uw_connection_token (udp_wire_of h) = ud_connection_token h"
  "uw_content_epoch (udp_wire_of h) = ud_content_epoch h" "uw_flags (udp_wire_of h) = ud_flags h"
  "uw_tile_size (udp_wire_of h) = ud_tile_size h" "uw_tile_pkt_id (udp_wire_of h) = ud_tile_pkt_id h"
  "uw_tile_pkt_count (udp_wire_of h) = ud_tile_pkt_count h" "uw_payload_size (udp_wire_of h) = ud_payload_size h"
  "uw_tile_payload_size (udp_wire_of h) = ud_tile_payload_size h" "uw_tile_generation (udp_wire_of h) = ud_tile_generation h"
  "uw_reserved (udp_wire_of h) = 0"
  by (simp_all add: udp_wire_of_def)

lemma udp_decoded_of_wire:
  "udp_normal h \<Longrightarrow> ud_flags h AND WD_UDP_TILE_FLAG_INPUT_SEQUENCE = 0 \<Longrightarrow>
     udp_decoded_of (udp_wire_of h) (wd_udp_tile_header_size_for_flags (ud_flags h)) = h"
  "udp_normal h \<Longrightarrow> (udp_decoded_of (udp_wire_of h) (wd_udp_tile_header_size_for_flags (ud_flags h)))\<lparr>ud_input_sequence := ud_input_sequence h\<rparr> = h"
  by (simp_all add: udp_decoded_of_def udp_wire_of_def udp_normal_def)

lemma decode_of_bytes:
  assumes ok: "udp_fields_ok h" and n: "udp_normal h" and len: "length payload = unat (ud_payload_size h)"
  shows "wd_udp_tile_packet_decode (udp_header_bytes h @ payload) = Some h"
proof -
  let ?p = "udp_header_bytes h @ payload" and ?hs = "wd_udp_tile_header_size_for_flags (ud_flags h)"
  let ?ext = "ud_flags h AND WD_UDP_TILE_FLAG_INPUT_SEQUENCE \<noteq> 0"
  have w: "udp_wire_decode ?p = udp_wire_of h" by (simp add: udp_header_bytes_def udp_header.dec_enc)
  have l: "length (udp_header_bytes h) = unat ?hs" by (rule length_udp_header_bytes [OF ok])
  have hs: "?hs = (if ?ext then 44 else 36)" using ok by (simp add: udp_fields_ok_def header_size_cases)
  have g: "\<not> (?hs = 0 \<or> length ?p < unat ?hs \<or> ud_session_id h = 0 \<or> ud_connection_token h = 0 \<or> ud_content_epoch h = 0 \<or>
      (0 :: u8) \<noteq> 0 \<or> ud_tile_pkt_count h = 0 \<or> ud_tile_pkt_id h \<ge> ud_tile_pkt_count h \<or> ud_payload_size h = 0 \<or>
      ud_tile_payload_size h = 0 \<or> ud_payload_size h > ud_tile_payload_size h \<or> ud_tile_generation h = 0 \<or>
      wd_tile_dimensions_for_size_code (ud_tile_size h) = None)"
    using ok l hs unfolding udp_fields_ok_def not_le [symmetric] by auto
  have e: "?ext \<Longrightarrow> udp_extension_decode (drop 36 ?p) = ud_input_sequence h"
    by (simp add: udp_header_bytes_def udp_header.length_enc udp_extension.dec_enc)
  have "\<not> length ?p < 36" using l hs by auto
  then show ?thesis
    unfolding wd_udp_tile_packet_decode_def Let_def w udp_wire_fields if_not_P [OF g]
    using ok e l len n by (auto simp: udp_fields_ok_def udp_decoded_of_wire)
qed

lemma bytes_of_decode:
  assumes d: "wd_udp_tile_packet_decode p = Some h"
  shows "udp_fields_ok h \<and> udp_normal h \<and> take (unat (ud_header_size h)) p = udp_header_bytes h \<and>
         length p = unat (ud_header_size h) + unat (ud_payload_size h)"
proof -
  let ?w = "udp_wire_decode p" and ?s = "udp_extension_decode (drop 36 p)"
  let ?hs = "wd_udp_tile_header_size_for_flags (uw_flags ?w)"
  let ?ext = "uw_flags ?w AND WD_UDP_TILE_FLAG_INPUT_SEQUENCE \<noteq> 0"
  let ?bad = "?hs = 0 \<or> length p < unat ?hs \<or> uw_session_id ?w = 0 \<or> uw_connection_token ?w = 0 \<or>
           uw_content_epoch ?w = 0 \<or> uw_reserved ?w \<noteq> 0 \<or> uw_tile_pkt_count ?w = 0 \<or>
           uw_tile_pkt_id ?w \<ge> uw_tile_pkt_count ?w \<or> uw_payload_size ?w = 0 \<or> uw_tile_payload_size ?w = 0 \<or>
           uw_payload_size ?w > uw_tile_payload_size ?w \<or> uw_tile_generation ?w = 0 \<or>
           wd_tile_dimensions_for_size_code (uw_tile_size ?w) = None"
  have len: "36 \<le> length p" using d by (auto simp: wd_udp_tile_packet_decode_def split: if_splits)
  have g: "\<not> ?bad" using d unfolding wd_udp_tile_packet_decode_def Let_def by (metis option.distinct(1))
  with d len have h: "h = (if ?ext then (udp_decoded_of ?w ?hs)\<lparr>ud_input_sequence := ?s\<rparr> else udp_decoded_of ?w ?hs)"
    and x: "?ext \<Longrightarrow> uw_tile_pkt_id ?w = 0 \<and> ?s \<noteq> 0" and p: "unat ?hs + unat (uw_payload_size ?w) = length p"
    unfolding wd_udp_tile_packet_decode_def Let_def by (auto split: if_splits)
  have hs: "?hs = (if ?ext then 44 else 36)" "uw_flags ?w AND NOT WD_UDP_TILE_FLAG_MASK = 0"
    using g unfolding header_size_cases by (auto split: if_splits)
  have wh: "udp_wire_of h = ?w" using g by (auto simp: h udp_wire_of_decoded)
  have "udp_fields_ok h" unfolding udp_fields_ok_def
    using g x hs(2) unfolding h not_le [symmetric] by (cases ?ext) simp_all
  moreover have "udp_normal h" by (simp add: udp_normal_def h)
  moreover have "take (unat (ud_header_size h)) p = udp_header_bytes h"
  proof (cases ?ext)
    case True
    have "44 \<le> length p" using p hs True by (cases "length p") auto
    then have "take 8 (drop 36 p) = udp_extension_encode ?s" by (subst udp_extension.enc_dec) simp_all
    moreover have "take 36 p = udp_wire_encode ?w" using udp_header.enc_dec [OF len] by simp
    ultimately have "take (36 + 8) p = udp_wire_encode ?w @ udp_extension_encode ?s"
      unfolding take_add by simp
    then show ?thesis using True hs(1) wh by (simp add: h udp_header_bytes_def)
  next
    case False
    then show ?thesis using hs(1) wh udp_header.enc_dec [OF len] by (simp add: h udp_header_bytes_def)
  qed
  moreover have "length p = unat (ud_header_size h) + unat (ud_payload_size h)" using p by (simp add: h)
  ultimately show ?thesis by blast
qed

text \<open>
  C14: A packet is accepted exactly when it is a well-formed header, as the encoder writes it,
  followed by as many payload bytes as the header announces; the decoded structure is then the
  header itself. So decoding inverts encoding, and each accepted packet has one header only.
\<close>

theorem udp_packet_decode_iff:
  "wd_udp_tile_packet_decode packet = Some h \<longleftrightarrow>
     udp_fields_ok h \<and> udp_normal h \<and>
     (\<exists>payload. packet = udp_header_bytes h @ payload \<and> length payload = unat (ud_payload_size h))"
proof
  assume "wd_udp_tile_packet_decode packet = Some h"
  from bytes_of_decode [OF this] show "udp_fields_ok h \<and> udp_normal h \<and>
     (\<exists>payload. packet = udp_header_bytes h @ payload \<and> length payload = unat (ud_payload_size h))"
    by (metis add_diff_cancel_left' append_take_drop_id length_drop)
qed (auto intro: decode_of_bytes)


definition demo_header :: wd_udp_tile_packet_decoded where
  "demo_header =
     \<lparr>ud_session_id = 7, ud_connection_token = 0x1122334455667788, ud_content_epoch = 5, ud_flags = 3, ud_tile_size = 2,
      ud_tile_pkt_id = 0, ud_tile_id = 300, ud_tile_pkt_count = 2, ud_payload_size = 2, ud_tile_payload_size = 3,
      ud_tile_generation = 9, ud_input_sequence = 77, ud_header_size = 44\<rparr>"



section \<open>Fragments of a tile\<close>

lemma fragment_layout_iff:
  "wd_udp_tile_fragment_layout_valid (Some h) packet_size target tot \<longleftrightarrow>
     target \<noteq> 0 \<and> tot \<noteq> 0 \<and> unat tot = unat (ud_tile_payload_size h) \<and>
     unat (ud_header_size h) + unat (ud_payload_size h) = packet_size \<and>
     unat (ud_tile_pkt_count h) = (unat tot + unat target - 1) div unat target \<and>
     ud_tile_pkt_id h < ud_tile_pkt_count h \<and>
     unat (ud_payload_size h) = min (unat target) (unat tot - unat (ud_tile_pkt_id h) * unat target)"
proof (cases "target \<noteq> 0 \<and> tot \<noteq> 0 \<and> tot = ucast (ud_tile_payload_size h)")
  case False
  have "tot = ucast (ud_tile_payload_size h) \<longleftrightarrow> unat tot = unat (ud_tile_payload_size h)" by (simp add: unat_eq_iff)
  with False show ?thesis by (auto simp: wd_udp_tile_fragment_layout_valid_def)
next
  case True
  let ?T = "unat tot" and ?t = "unat target" and ?k = "unat (ud_tile_pkt_id h)"
  let ?c = "(tot + ucast target - 1) div ucast target"
  have T: "?T = unat (ud_tile_payload_size h)" "0 < ?T" and t: "0 < ?t" using True by (auto simp: unat_gt_0)
  have b: "?T < 65536" "?t < 65536" "?k < 256" using T(1) unat_u16_lt unat_u8_lt by simp_all
  have s: "unat (tot + ucast target) = ?T + ?t" by (subst unat_add_exact) (use b in auto)
  have "unat (tot + ucast target - 1) = ?T + ?t - 1" by (subst unat_sub_exact) (use s T in auto)
  then have c: "unat ?c = (?T + ?t - 1) div ?t" by (simp add: unat_div)
  then have c0: "?c \<noteq> 0" using less_ceil_div_iff [OF t, of 0 ?T] T(2) by (auto simp: unat_eq_iff)
  have cnt: "ucast (ud_tile_pkt_count h) = ?c \<longleftrightarrow> unat (ud_tile_pkt_count h) = (?T + ?t - 1) div ?t"
    using c by (simp add: unat_eq_iff)
  have "?k * ?t \<le> 255 * 65535" using b by (intro mult_le_mono) auto
  then have off: "unat (ucast (ud_tile_pkt_id h) * ucast target :: u32) = ?k * ?t" by (subst unat_mult_exact) auto
  let ?rem = "tot - ucast (ud_tile_pkt_id h) * ucast target"
  have size: "unat (ucast (if ?rem > ucast target then ucast target else ?rem) :: u16) = min ?t (?T - ?k * ?t)"
    if "ucast (ud_tile_pkt_id h) < ?c"
  proof -
    have "?k < (?T + ?t - 1) div ?t" using that c by (simp add: word_less_nat_alt)
    then have lt: "?k * ?t < ?T" using less_ceil_div_iff [OF t] by simp
    have rem: "unat ?rem = ?T - ?k * ?t" by (subst unat_sub_exact) (use off lt in auto)
    have "unat (if ?rem > ucast target then ucast target else ?rem) = min ?t (?T - ?k * ?t)"
      using rem by (simp add: word_less_nat_alt min_def)
    then show ?thesis using b by (subst unat_ucast_small) auto
  qed
  have idl: "ucast (ud_tile_pkt_id h) < ?c \<longleftrightarrow> ud_tile_pkt_id h < ud_tile_pkt_count h" if "ucast (ud_tile_pkt_count h) = ?c"
    unfolding that [symmetric] by (simp add: word_less_nat_alt)
  have big: "\<not> ?c > UINT8_MAX" if "ucast (ud_tile_pkt_count h) = ?c"
    unfolding that [symmetric] using unat_u8_lt [of "ud_tile_pkt_count h"] by (simp add: word_less_nat_alt)
  show ?thesis
  proof (cases "ucast (ud_tile_pkt_count h) = ?c \<and> ud_tile_pkt_id h < ud_tile_pkt_count h")
    case False
    then show ?thesis using idl cnt True unfolding wd_udp_tile_fragment_layout_valid_def Let_def
      by (auto simp: not_le [symmetric])
  next
    case c2: True
    with idl have lt: "ucast (ud_tile_pkt_id h) < ?c" by blast
    have eq: "ud_payload_size h = ucast (if ?rem > ucast target then ucast target else ?rem) \<longleftrightarrow>
          unat (ud_payload_size h) = min ?t (?T - ?k * ?t)"
      unfolding word_unat_eq_iff size [OF lt] ..
    have A: "\<not> (target = 0 \<or> tot = 0 \<or> tot \<noteq> ucast (ud_tile_payload_size h))" using True by blast
    have G: "\<not> (?c = 0 \<or> ?c > UINT8_MAX \<or> ucast (ud_tile_pkt_count h) \<noteq> ?c \<or> ucast (ud_tile_pkt_id h) \<ge> ?c)"
      using c0 big c2 lt by (metis not_le)
    have "wd_udp_tile_fragment_layout_valid (Some h) packet_size target tot \<longleftrightarrow>
        unat (ud_header_size h) + unat (ud_payload_size h) = packet_size \<and>
        unat (ud_payload_size h) = min ?t (?T - ?k * ?t)"
      unfolding wd_udp_tile_fragment_layout_valid_def Let_def option.case if_not_P [OF A] if_not_P [OF G] eq by simp
    then show ?thesis using True c2 T(1) cnt by blast
  qed
qed

lemma length_concat_take:
  "(\<And>i. i < k \<Longrightarrow> length (ps ! i) = t) \<Longrightarrow> k \<le> length ps \<Longrightarrow> length (concat (take k ps)) = k * t"
proof (induction k)
  case 0
  then show ?case by simp
next
  case (Suc k)
  then have "take (Suc k) ps = take k ps @ [ps ! k]" by (simp add: take_Suc_conv_app_nth)
  with Suc show ?case by simp
qed

lemma nth_concat_split:
  assumes "k < length ps" "j < length (ps ! k)" "length (concat (take k ps)) = n"
  shows "concat ps ! (n + j) = ps ! k ! j"
proof -
  have "concat ps = concat (take k ps) @ ps ! k @ concat (drop (Suc k) ps)"
    using assms(1) by (metis concat.simps(2) concat_append id_take_nth_drop)
  then show ?thesis using assms(2,3) by (simp add: nth_append)
qed

text \<open>
  C16: If every fragment of a tile passes the layout check against the same target size and total,
  then the fragments laid end to end give exactly the total payload, and fragment \<open>k\<close> belongs at
  offset \<open>k * target\<close>: writing each one there leaves neither gap nor overlap.
\<close>

theorem fragments_partition_payload:
  assumes n: "length ps = n" "\<And>k. k < n \<Longrightarrow> unat (ud_tile_pkt_count (hs k)) = n" "0 < n"
    and valid: "\<And>k. k < n \<Longrightarrow> wd_udp_tile_fragment_layout_valid (Some (hs k)) (sz k) target tot"
    and ids: "\<And>k. k < n \<Longrightarrow> unat (ud_tile_pkt_id (hs k)) = k"
    and lens: "\<And>k. k < n \<Longrightarrow> length (ps ! k) = unat (ud_payload_size (hs k))"
  shows "length (concat ps) = unat tot \<and>
         (\<forall>k j. k < n \<and> j < length (ps ! k) \<longrightarrow>
            k * unat target + j < unat tot \<and> concat ps ! (k * unat target + j) = ps ! k ! j)"
proof -
  let ?T = "unat tot" and ?t = "unat target"
  have t: "0 < ?t" using valid [OF n(3)] unfolding fragment_layout_iff by (simp add: unat_gt_0)
  have cnt: "n = (?T + ?t - 1) div ?t" using valid [OF n(3)] n(2) [OF n(3)] unfolding fragment_layout_iff by simp
  have len: "length (ps ! k) = min ?t (?T - k * ?t)" "k * ?t < ?T" if k: "k < n" for k
  proof -
    show "length (ps ! k) = min ?t (?T - k * ?t)"
      using valid [OF k] lens [OF k] ids [OF k] unfolding fragment_layout_iff by simp
    show "k * ?t < ?T" using k less_ceil_div_iff [OF t, of k ?T] cnt by simp
  qed
  have full: "length (ps ! i) = ?t" if "i < k" "k < n" for i k
  proof -
    have "Suc i * ?t \<le> k * ?t" using that(1) by (intro mult_le_mono1) simp
    then show ?thesis using len(1) [of i] len(2) [of k] that by simp
  qed
  have pre: "length (concat (take k ps)) = k * ?t" if "k < n" for k
    by (rule length_concat_take) (use full that n(1) in auto)
  obtain m where m: "n = Suc m" using n(3) by (cases n) auto
  have "?T \<le> n * ?t" using ceil_div_le_iff [OF t, of ?T n] cnt by simp
  then have last: "length (ps ! m) = ?T - m * ?t" using len(1) [of m] m by simp
  have "ps = take m ps @ [ps ! m]" using n(1) m by (metis lessI take_Suc_conv_app_nth take_all_iff order_refl)
  then have "concat ps = concat (take m ps) @ ps ! m" by (metis concat.simps append_Nil2 concat_append)
  then have "length (concat ps) = m * ?t + length (ps ! m)" using pre [of m] m by simp
  then have "length (concat ps) = ?T" using last len(2) [of m] m by simp
  moreover have "k * ?t + j < ?T \<and> concat ps ! (k * ?t + j) = ps ! k ! j" if "k < n" "j < length (ps ! k)" for k j
    using nth_concat_split [OF _ that(2) pre [OF that(1)]] that len [OF that(1)] n(1) by auto
  ultimately show ?thesis by blast
qed

definition demo_fragment :: "nat \<Rightarrow> wd_udp_tile_packet_decoded" where
  "demo_fragment k = demo_header\<lparr>ud_flags := 1, ud_input_sequence := 0, ud_header_size := 36,
     ud_tile_pkt_id := word_of_nat k, ud_payload_size := (if k = 0 then 2 else 1)\<rparr>"

theorem fragments_partition_payload_witness:
  "length (concat [[10, 20], [30 :: u8]]) = unat (3 :: u32) \<and> concat [[10, 20], [30 :: u8]] ! (1 * unat (2 :: u16) + 0) = 30"
proof -
  have "wd_udp_tile_fragment_layout_valid (Some (demo_fragment 0)) 38 2 3"
    "wd_udp_tile_fragment_layout_valid (Some (demo_fragment 1)) 37 2 3"
    unfolding fragment_layout_iff by (simp_all add: demo_fragment_def demo_header_def word_less_nat_alt)
  then have v: "\<And>k. k < 2 \<Longrightarrow> wd_udp_tile_fragment_layout_valid (Some (demo_fragment k)) (38 - k) 2 3"
    by (auto simp: less_2_cases_iff)
  have "\<And>k. k < 2 \<Longrightarrow> unat (ud_tile_pkt_count (demo_fragment k)) = 2" "\<And>k. k < 2 \<Longrightarrow> unat (ud_tile_pkt_id (demo_fragment k)) = k"
    "\<And>k. k < 2 \<Longrightarrow> length ([[10, 20], [30 :: u8]] ! k) = unat (ud_payload_size (demo_fragment k))"
    by (auto simp: less_2_cases_iff demo_fragment_def demo_header_def)
  from fragments_partition_payload [of "[[10, 20], [30 :: u8]]" 2 demo_fragment, OF _ this(1) _ v this(2,3)]
  show ?thesis by auto
qed

end
