(* ===== verification/WD_Payloads.thy ===== *)
theory WD_Payloads
  imports WD_Wire
begin

text \<open>
  The payload structures of \<open>src/include/waydisplay/wd_protocol.h\<close>. A packed structure is a layout:
  its fields in order with their width in bytes. One encoder and one decoder serve all of
  them; the sizes asserted in the header are checked here against the layouts.
\<close>

section \<open>Layouts\<close>

type_synonym layout = "(string \<times> nat) list"

fun sizeof :: "layout \<Rightarrow> nat" where
  "sizeof [] = 0"
| "sizeof ((f, k) # l) = k + sizeof l"

fun layout_encode :: "layout \<Rightarrow> (string \<Rightarrow> nat) \<Rightarrow> bytes" where
  "layout_encode [] v = []"
| "layout_encode ((f, k) # l) v = le_bytes k (v f) @ layout_encode l v"

fun layout_decode :: "layout \<Rightarrow> bytes \<Rightarrow> string \<Rightarrow> nat" where
  "layout_decode [] bs g = 0"
| "layout_decode ((f, k) # l) bs g = (if g = f then le_val (take k bs) else layout_decode l (drop k bs) g)"

definition wd_tcp_header_layout :: layout where
  "wd_tcp_header_layout =
     [(''magic'', 4), (''protocol_version'', 2), (''message_type'', 2), (''payload_size'', 4)]"

definition wd_client_hello_payload_layout :: layout where
  "wd_client_hello_payload_layout =
     [(''client_udp_port'', 2), (''requested_session_fps'', 2), (''desired_width'', 2),
      (''desired_height'', 2), (''link_cap_kib_per_second'', 4), (''capabilities'', 4),
      (''video_codecs'', 4), (''video_transport'', 2), (''video_mode'', 1),
      (''video_min_dirty_percent'', 1), (''video_enter_seconds'', 2),
      (''video_bitrate_kib_per_second'', 4), (''video_exit_dirty_percent'', 1), (''video_reserved'', 1),
      (''video_exit_seconds'', 2), (''audio_codecs'', 4), (''audio_transport'', 2),
      (''audio_max_channels'', 1), (''audio_reserved'', 1), (''audio_target_latency_ms'', 2)]"

definition wd_server_config_payload_layout :: layout where
  "wd_server_config_payload_layout =
     [(''session_id'', 1), (''connection_token'', 8), (''config_epoch'', 8), (''content_epoch'', 8),
      (''server_udp_port'', 2), (''width'', 2), (''height'', 2), (''tile_width'', 2),
      (''tile_height'', 2), (''tiles_x'', 2), (''tiles_y'', 2), (''total_tiles'', 2),
      (''pixel_format'', 2), (''compression_mode'', 2), (''zstd_level'', 2), (''udp_payload_target'', 2),
      (''capabilities'', 4), (''video_codecs'', 4), (''video_transport'', 2), (''media_clock_id'', 8),
      (''audio_codec'', 4), (''audio_transport'', 2), (''audio_sample_rate'', 4),
      (''audio_channels'', 1), (''audio_reserved'', 1), (''audio_frame_samples'', 2),
      (''audio_target_latency_ms'', 2), (''audio_bitrate'', 4), (''link_rtt_ms'', 2),
      (''summary_retransmit_grace_ms'', 2), (''retransmit_request_interval_ms'', 2),
      (''retransmit_inflight_grace_ms'', 2), (''tile_reassembly_timeout_ms'', 2),
      (''active_summary_interval_ms'', 2), (''clean_summary_interval_ms'', 2)]"

definition wd_link_probe_payload_layout :: layout where
  "wd_link_probe_payload_layout =
     [(''session_id'', 1), (''connection_token'', 8), (''sequence'', 4), (''timestamp_ns'', 8)]"

definition wd_tile_generation_entry_layout :: layout where
  "wd_tile_generation_entry_layout =
     [(''tile_id'', 2), (''tile_generation'', 8)]"

definition wd_tile_summary_payload_header_layout :: layout where
  "wd_tile_summary_payload_header_layout =
     [(''session_id'', 1), (''connection_token'', 8), (''content_epoch'', 8),
      (''server_timestamp_ns'', 8), (''tile_count'', 2), (''flags'', 1)]"

definition wd_tile_repair_request_payload_header_layout :: layout where
  "wd_tile_repair_request_payload_header_layout =
     [(''session_id'', 1), (''connection_token'', 8), (''content_epoch'', 8), (''request_count'', 2)]"

definition wd_tile_repair_entry_layout :: layout where
  "wd_tile_repair_entry_layout =
     [(''tile_id'', 2), (''requested_generation'', 8)]"

definition wd_client_stats_payload_layout :: layout where
  "wd_client_stats_payload_layout =
     [(''session_id'', 1), (''connection_token'', 8), (''flags'', 4), (''udp_packets_rx'', 8),
      (''udp_bytes_rx'', 8), (''udp_tiles_completed'', 8), (''udp_completed_packets'', 8),
      (''partial_tiles_timed_out'', 8), (''udp_ignored_old_generation'', 8), (''retx_requests_tx'', 8),
      (''udp_interarrival_samples'', 8), (''udp_interarrival_sum_ns'', 8),
      (''udp_interarrival_jitter_samples'', 8), (''udp_interarrival_jitter_sum_ns'', 8),
      (''udp_interarrival_max_ns'', 8), (''render_frames'', 8), (''present_samples'', 8),
      (''present_sum_ns'', 8), (''present_max_ns'', 8), (''input_present_samples'', 8),
      (''input_present_sum_ns'', 8), (''video_frames_rx'', 8), (''video_bytes_rx'', 8),
      (''video_frames_decoded'', 8), (''video_frames_presented'', 8), (''video_decode_failed'', 8),
      (''video_publish_failed'', 8), (''video_control_frames_rx'', 8),
      (''video_need_keyframe_drops'', 8), (''video_decoder_resets'', 8), (''video_decode_samples'', 8),
      (''video_decode_sum_ns'', 8), (''video_messages_rx'', 8), (''video_data_frames_rx'', 8),
      (''video_invalid_frames_rx'', 8), (''video_stale_frames_dropped'', 8),
      (''video_last_frame_id_rx'', 8), (''video_last_frame_id_presented'', 8),
      (''video_present_latency_samples'', 8), (''video_present_latency_sum_ns'', 8),
      (''audio_messages_rx'', 8), (''audio_packets_rx'', 8), (''audio_bytes_rx'', 8),
      (''audio_decode_failed'', 8), (''audio_discontinuities'', 8), (''audio_late_drops'', 8),
      (''audio_underflows'', 8), (''audio_video_sync_holds'', 8), (''audio_video_sync_drops'', 8),
      (''video_queue_overflow_drops'', 8), (''video_queue_depth'', 4), (''video_queue_depth_max'', 4),
      (''video_oldest_pts_usec'', 8), (''audio_video_delta_samples'', 8), (''tile_frames_presented'', 8),
      (''tile_content_epoch_presented'', 8), (''video_content_epoch_presented'', 8),
      (''video_decode_queue_drops'', 8), (''audio_video_startup_timeouts'', 8),
      (''audio_video_startup_hold_ms'', 4), (''audio_playback_state'', 1),
      (''video_last_frame_id_decoded'', 8), (''video_decode_queue_depth'', 4),
      (''video_decode_queue_depth_max'', 4), (''video_decode_queue_capacity'', 2),
      (''video_decoder_phase'', 1), (''video_waiting_keyframe'', 1),
      (''audio_video_sync_hold_current_ms'', 4), (''audio_video_sync_hold_max_ms'', 4),
      (''video_gpu_frames_presented'', 8), (''video_gpu_present_failures'', 8),
      (''video_gpu_present_fallbacks'', 8), (''tile_present_direct'', 8),
      (''tile_present_overflow_fallbacks'', 8), (''tile_present_queue_depth_max'', 4),
      (''lock_wait_samples'', 8), (''lock_wait_sum_ns'', 8), (''lock_wait_max_ns'', 8)]"

definition wd_input_channel_hello_payload_layout :: layout where
  "wd_input_channel_hello_payload_layout =
     [(''session_id'', 1), (''connection_token'', 8)]"

definition wd_selection_channel_hello_payload_layout :: layout where
  "wd_selection_channel_hello_payload_layout =
     [(''session_id'', 1), (''connection_token'', 8)]"

definition wd_video_channel_hello_payload_layout :: layout where
  "wd_video_channel_hello_payload_layout =
     [(''session_id'', 1), (''connection_token'', 8), (''video_codecs'', 4), (''video_transport'', 2)]"

definition wd_audio_channel_hello_payload_layout :: layout where
  "wd_audio_channel_hello_payload_layout =
     [(''session_id'', 1), (''connection_token'', 8), (''audio_codecs'', 4), (''audio_transport'', 2)]"

definition wd_audio_config_payload_layout :: layout where
  "wd_audio_config_payload_layout =
     [(''session_id'', 1), (''connection_token'', 8), (''audio_epoch'', 8), (''media_clock_id'', 8),
      (''codec'', 4), (''sample_rate'', 4), (''channels'', 1), (''reserved'', 1), (''frame_samples'', 2),
      (''codec_delay_samples'', 2), (''target_bitrate'', 4)]"

definition wd_audio_packet_payload_header_layout :: layout where
  "wd_audio_packet_payload_header_layout =
     [(''session_id'', 1), (''connection_token'', 8), (''audio_epoch'', 8), (''media_clock_id'', 8),
      (''sequence'', 8), (''pts_samples'', 8), (''duration_samples'', 2), (''flags'', 2),
      (''data_size'', 4)]"

definition wd_video_frame_payload_header_layout :: layout where
  "wd_video_frame_payload_header_layout =
     [(''session_id'', 1), (''connection_token'', 8), (''content_epoch'', 8), (''codec'', 4),
      (''flags'', 2), (''frame_id'', 8), (''pts_usec'', 8), (''width'', 2), (''height'', 2),
      (''coded_width'', 2), (''coded_height'', 2), (''data_size'', 4)]"

definition wd_keyboard_event_payload_layout :: layout where
  "wd_keyboard_event_payload_layout =
     [(''session_id'', 1), (''connection_token'', 8), (''client_timestamp_ns'', 8),
      (''input_sequence'', 8), (''evdev_key_code'', 2), (''pressed'', 1)]"

definition wd_pointer_event_payload_layout :: layout where
  "wd_pointer_event_payload_layout =
     [(''session_id'', 1), (''connection_token'', 8), (''client_timestamp_ns'', 8),
      (''input_sequence'', 8), (''event_type'', 2), (''x'', 2), (''y'', 2), (''button'', 2),
      (''button_state'', 1), (''axis'', 1), (''axis_value'', 4), (''modifiers'', 2)]"

definition wd_udp_tile_packet_header_layout :: layout where
  "wd_udp_tile_packet_header_layout =
     [(''session_id'', 1), (''connection_token'', 8), (''content_epoch'', 8), (''flags'', 1),
      (''tile_size'', 1), (''tile_pkt_id'', 1), (''tile_id'', 2), (''tile_pkt_count'', 1),
      (''reserved'', 1), (''payload_size'', 2), (''tile_payload_size'', 2), (''tile_generation'', 8)]"

definition wd_udp_tile_input_sequence_extension_layout :: layout where
  "wd_udp_tile_input_sequence_extension_layout =
     [(''input_sequence'', 8)]"

definition wd_mtu_probe_start_payload_layout :: layout where
  "wd_mtu_probe_start_payload_layout =
     [(''session_id'', 1), (''connection_token'', 8), (''probe_count'', 2)]"

definition wd_mtu_probe_result_payload_layout :: layout where
  "wd_mtu_probe_result_payload_layout =
     [(''session_id'', 1), (''connection_token'', 8), (''max_udp_payload_received'', 2)]"

definition wd_throughput_probe_start_payload_layout :: layout where
  "wd_throughput_probe_start_payload_layout =
     [(''session_id'', 1), (''connection_token'', 8), (''probe_count'', 2), (''payload_size'', 2),
      (''duration_ms'', 2)]"

definition wd_throughput_probe_result_payload_layout :: layout where
  "wd_throughput_probe_result_payload_layout =
     [(''session_id'', 1), (''connection_token'', 8), (''bytes_received'', 8), (''packets_received'', 4),
      (''duration_ms'', 2)]"

definition wd_selection_payload_header_layout :: layout where
  "wd_selection_payload_header_layout =
     [(''session_id'', 1), (''connection_token'', 8), (''mime_type'', 2), (''data_size'', 4)]"

definition wd_cursor_shape_payload_layout :: layout where
  "wd_cursor_shape_payload_layout =
     [(''session_id'', 1), (''connection_token'', 8), (''shape'', 2)]"

definition wd_display_resize_payload_layout :: layout where
  "wd_display_resize_payload_layout =
     [(''session_id'', 1), (''connection_token'', 8), (''width'', 2), (''height'', 2)]"

definition wd_launch_command_payload_layout :: layout where
  "wd_launch_command_payload_layout =
     [(''session_id'', 1), (''connection_token'', 8), (''command'', 256)]"

definition wd_video_feedback_payload_layout :: layout where
  "wd_video_feedback_payload_layout =
     [(''session_id'', 1), (''connection_token'', 8), (''content_epoch'', 8), (''sequence'', 8),
      (''flags'', 4), (''decoder_phase'', 1), (''reserved'', 3), (''last_frame_id_rx'', 8),
      (''last_frame_id_decoded'', 8), (''last_frame_id_presented'', 8), (''decode_queue_depth'', 2),
      (''decode_queue_capacity'', 2), (''present_queue_depth'', 2), (''present_queue_capacity'', 2),
      (''presentation_stall_ms'', 4), (''audio_sync_hold_ms'', 4)]"

definition wd_config_applied_payload_layout :: layout where
  "wd_config_applied_payload_layout =
     [(''session_id'', 1), (''connection_token'', 8), (''config_epoch'', 8)]"

text \<open>The sizes that the header asserts.\<close>

definition asserted_sizes :: "(layout \<times> nat) list" where
  "asserted_sizes =
     [(wd_tcp_header_layout, 12), (wd_client_hello_payload_layout, 44), (wd_server_config_payload_layout, 101),
      (wd_link_probe_payload_layout, 21), (wd_tile_generation_entry_layout, 10),
      (wd_tile_summary_payload_header_layout, 28), (wd_tile_repair_request_payload_header_layout, 19),
      (wd_tile_repair_entry_layout, 10), (wd_client_stats_payload_layout, 554),
      (wd_input_channel_hello_payload_layout, 9), (wd_selection_channel_hello_payload_layout, 9),
      (wd_video_channel_hello_payload_layout, 15), (wd_audio_channel_hello_payload_layout, 15),
      (wd_audio_config_payload_layout, 43), (wd_audio_packet_payload_header_layout, 49),
      (wd_video_frame_payload_header_layout, 51), (wd_keyboard_event_payload_layout, 28),
      (wd_pointer_event_payload_layout, 41), (wd_udp_tile_packet_header_layout, 36),
      (wd_mtu_probe_start_payload_layout, 11), (wd_mtu_probe_result_payload_layout, 11),
      (wd_throughput_probe_start_payload_layout, 15), (wd_throughput_probe_result_payload_layout, 23),
      (wd_selection_payload_header_layout, 15), (wd_cursor_shape_payload_layout, 11),
      (wd_display_resize_payload_layout, 13), (wd_launch_command_payload_layout, 265),
      (wd_video_feedback_payload_layout, 73), (wd_config_applied_payload_layout, 17)]"

lemmas layout_defs =
  wd_tcp_header_layout_def wd_client_hello_payload_layout_def wd_server_config_payload_layout_def wd_link_probe_payload_layout_def wd_tile_generation_entry_layout_def wd_tile_summary_payload_header_layout_def wd_tile_repair_request_payload_header_layout_def wd_tile_repair_entry_layout_def wd_client_stats_payload_layout_def wd_input_channel_hello_payload_layout_def wd_selection_channel_hello_payload_layout_def wd_video_channel_hello_payload_layout_def wd_audio_channel_hello_payload_layout_def wd_audio_config_payload_layout_def wd_audio_packet_payload_header_layout_def wd_video_frame_payload_header_layout_def wd_keyboard_event_payload_layout_def wd_pointer_event_payload_layout_def wd_udp_tile_packet_header_layout_def wd_udp_tile_input_sequence_extension_layout_def wd_mtu_probe_start_payload_layout_def wd_mtu_probe_result_payload_layout_def wd_throughput_probe_start_payload_layout_def wd_throughput_probe_result_payload_layout_def wd_selection_payload_header_layout_def wd_cursor_shape_payload_layout_def wd_display_resize_payload_layout_def wd_launch_command_payload_layout_def wd_video_feedback_payload_layout_def wd_config_applied_payload_layout_def

lemma length_layout_encode [simp]: "length (layout_encode l v) = sizeof l"
  by (induction l v rule: layout_encode.induct) auto

lemma layout_encode_cong:
  "(\<And>f. f \<in> fst ` set l \<Longrightarrow> v f = w f) \<Longrightarrow> layout_encode l v = layout_encode l w"
  by (induction l v rule: layout_encode.induct) auto

lemma layout_decode_encode:
  "\<lbrakk>distinct (map fst l); (f, k) \<in> set l; v f < 256 ^ k\<rbrakk> \<Longrightarrow> layout_decode l (layout_encode l v @ rest) f = v f"
proof (induction l v rule: layout_encode.induct)
  case (1 v)
  then show ?case by simp
next
  case (2 g j l v)
  show ?case
  proof (cases "f = g")
    case True
    then have "k = j" using "2.prems" by (metis distinct.simps(2) fst_conv image_eqI list.map(2) list.set_map prod.inject set_ConsD)
    then show ?thesis using True "2.prems"(3) by (simp add: le_val_le_bytes)
  next
    case False
    then show ?thesis using "2.prems" "2.IH" by auto
  qed
qed

lemma layout_encode_decode:
  "\<lbrakk>distinct (map fst l); sizeof l \<le> length bs\<rbrakk> \<Longrightarrow> layout_encode l (layout_decode l bs) = take (sizeof l) bs"
proof (induction l arbitrary: bs)
  case Nil
  then show ?case by simp
next
  case (Cons fk l)
  obtain f k where fk: "fk = (f, k)" by force
  have "layout_encode l (layout_decode ((f, k) # l) bs) = layout_encode l (layout_decode l (drop k bs))"
    by (rule layout_encode_cong) (use Cons.prems(1) fk in auto)
  also have "\<dots> = take (sizeof l) (drop k bs)" using Cons fk by simp
  finally have "layout_encode l (layout_decode ((f, k) # l) bs) = take (sizeof l) (drop k bs)" .
  moreover have "length (take k bs) = k" using Cons.prems(2) fk by simp
  then have "le_bytes k (le_val (take k bs)) = take k bs" by (metis le_bytes_le_val)
  ultimately show ?case unfolding fk layout_encode.simps sizeof.simps take_add by simp
qed

lemma asserted_sizes_ok: "list_all (\<lambda>(l, n). sizeof l = n \<and> distinct (map fst l)) asserted_sizes"
  by (simp add: asserted_sizes_def layout_defs)



end
