(* ===== verification/WD_Validate.thy ===== *)
theory WD_Validate
  imports WD_Payloads
begin

text \<open>
  The inline validators of \<open>src/include/waydisplay/wd_protocol.h\<close> (lines 1034 to 1237). Each takes
  the payload structure, \<open>None\<close> for a null pointer, as a record of its fields.
\<close>

section \<open>Launch command, configuration acknowledgement, input events\<close>

record wd_launch_command_payload =
  lc_session_id :: u8
  lc_connection_token :: u64
  lc_command :: bytes

text \<open>The scan of the command, from index \<open>i\<close>, with \<open>has_nonspace\<close> as the C local.\<close>

fun launch_scan :: "nat \<Rightarrow> bool \<Rightarrow> bytes \<Rightarrow> bool" where
  "launch_scan i has_nonspace [] = False"
| "launch_scan i has_nonspace (c # cs) =
     (if c = 0 then has_nonspace \<or> i = 0
      else if c < 32 \<or> c = 127 then False
      else launch_scan (Suc i) (has_nonspace \<or> c \<noteq> 32) cs)"

definition wd_launch_command_payload_valid :: "wd_launch_command_payload option \<Rightarrow> bool" where
  "wd_launch_command_payload_valid launch \<longleftrightarrow>
     (case launch of
        None \<Rightarrow> False
      | Some l \<Rightarrow>
          if lc_session_id l = 0 \<or> lc_connection_token l = 0 then False
          else launch_scan 0 False (lc_command l))"

definition wd_launch_command_payload_matches :: "wd_launch_command_payload option \<Rightarrow> u8 \<Rightarrow> u64 \<Rightarrow> bool" where
  "wd_launch_command_payload_matches launch session_id connection_token \<longleftrightarrow>
     wd_launch_command_payload_valid launch \<and> lc_session_id (the launch) = session_id \<and>
     lc_connection_token (the launch) = connection_token"

record wd_config_applied_payload =
  ca_session_id :: u8
  ca_connection_token :: u64
  ca_config_epoch :: u64

definition wd_config_applied_matches :: "wd_config_applied_payload option \<Rightarrow> u8 \<Rightarrow> u64 \<Rightarrow> u64 \<Rightarrow> bool" where
  "wd_config_applied_matches applied session_id connection_token config_epoch \<longleftrightarrow>
     (case applied of
        None \<Rightarrow> False
      | Some a \<Rightarrow>
          session_id \<noteq> 0 \<and> connection_token \<noteq> 0 \<and> config_epoch \<noteq> 0 \<and> ca_session_id a = session_id \<and>
          ca_connection_token a = connection_token \<and> ca_config_epoch a = config_epoch)"

definition wd_fixed_payload_size_is_valid :: "u32 \<Rightarrow> nat \<Rightarrow> bool" where
  "wd_fixed_payload_size_is_valid payload_size expected_size \<longleftrightarrow> unat payload_size = expected_size"

record wd_keyboard_event_payload =
  kb_session_id :: u8
  kb_connection_token :: u64
  kb_client_timestamp_ns :: u64
  kb_input_sequence :: u64
  kb_evdev_key_code :: u16
  kb_pressed :: u8

definition wd_keyboard_event_payload_is_valid :: "wd_keyboard_event_payload option \<Rightarrow> u32 \<Rightarrow> bool" where
  "wd_keyboard_event_payload_is_valid key payload_size \<longleftrightarrow>
     (case key of
        None \<Rightarrow> False
      | Some k \<Rightarrow>
          wd_fixed_payload_size_is_valid payload_size (sizeof wd_keyboard_event_payload_layout) \<and> kb_session_id k \<noteq> 0 \<and>
          kb_connection_token k \<noteq> 0 \<and> kb_client_timestamp_ns k \<noteq> 0 \<and> kb_input_sequence k \<noteq> 0 \<and>
          kb_evdev_key_code k \<noteq> 0 \<and> kb_pressed k \<le> 1)"

record wd_pointer_event_payload =
  pt_session_id :: u8
  pt_connection_token :: u64
  pt_client_timestamp_ns :: u64
  pt_input_sequence :: u64
  pt_event_type :: u16
  pt_x :: u16
  pt_y :: u16
  pt_button :: u16
  pt_button_state :: u8
  pt_axis :: u8
  pt_axis_value :: u32
  pt_modifiers :: u16

definition wd_pointer_event_payload_is_valid :: "wd_pointer_event_payload option \<Rightarrow> u32 \<Rightarrow> bool" where
  "wd_pointer_event_payload_is_valid pointer payload_size \<longleftrightarrow>
     (case pointer of
        None \<Rightarrow> False
      | Some p \<Rightarrow>
          if \<not> wd_fixed_payload_size_is_valid payload_size (sizeof wd_pointer_event_payload_layout) \<or> pt_session_id p = 0 \<or>
             pt_connection_token p = 0 \<or> pt_client_timestamp_ns p = 0 \<or> pt_input_sequence p = 0 \<or>
             pt_modifiers p AND NOT 0x0f \<noteq> 0
          then False
          else if pt_event_type p = 1 then
            pt_button p = 0 \<and> pt_button_state p = 0 \<and> pt_axis p = 0 \<and> pt_axis_value p = 0
          else if pt_event_type p = 2 then
            pt_button p \<noteq> 0 \<and> pt_button_state p \<le> 1 \<and> pt_axis p = 0 \<and> pt_axis_value p = 0
          else if pt_event_type p = 3 then
            pt_button p = 0 \<and> pt_button_state p = 0 \<and> pt_axis p \<le> 1 \<and> pt_axis_value p \<noteq> 0
          else False)"

section \<open>Counted payloads\<close>

text \<open>\<open>size_t\<close> is 64 bits wide; the guard keeps the product and the sum from wrapping.\<close>

definition wd_counted_payload_size_is_valid :: "u32 \<Rightarrow> u64 \<Rightarrow> u32 \<Rightarrow> u64 \<Rightarrow> bool" where
  "wd_counted_payload_size_is_valid payload_size header_size count entry_size \<longleftrightarrow>
     (if entry_size \<noteq> 0 \<and> ucast count > (UINT64_MAX - header_size) div entry_size then False
      else ucast payload_size = header_size + ucast count * entry_size)"

abbreviation WD_SELECTION_MAX_TEXT_BYTES :: nat where "WD_SELECTION_MAX_TEXT_BYTES \<equiv> 1048576"

record wd_selection_payload_header =
  sel_session_id :: u8
  sel_connection_token :: u64
  sel_mime_type :: u16
  sel_data_size :: u32

definition wd_selection_payload_size_is_valid :: "wd_selection_payload_header option \<Rightarrow> u32 \<Rightarrow> bool" where
  "wd_selection_payload_size_is_valid header payload_size \<longleftrightarrow>
     (case header of
        None \<Rightarrow> False
      | Some h \<Rightarrow>
          sel_data_size h \<le> word_of_nat WD_SELECTION_MAX_TEXT_BYTES \<and>
          wd_counted_payload_size_is_valid payload_size (word_of_nat (sizeof wd_selection_payload_header_layout))
            (sel_data_size h) 1)"

definition wd_tile_summary_count_is_valid :: "u16 \<Rightarrow> u16 \<Rightarrow> u16 \<Rightarrow> bool" where
  "wd_tile_summary_count_is_valid flags tile_count total_tiles \<longleftrightarrow>
     total_tiles \<noteq> 0 \<and> tile_count \<le> total_tiles \<and> (flags AND 1 \<noteq> 0 \<or> tile_count = total_tiles)"

definition wd_tile_repair_count_is_valid :: "u16 \<Rightarrow> u16 \<Rightarrow> bool" where
  "wd_tile_repair_count_is_valid request_count total_tiles \<longleftrightarrow>
     total_tiles \<noteq> 0 \<and> request_count \<noteq> 0 \<and> request_count \<le> total_tiles"

section \<open>Client hello\<close>

record wd_client_hello_payload =
  ch_client_udp_port :: u16
  ch_requested_session_fps :: u16
  ch_desired_width :: u16
  ch_desired_height :: u16
  ch_link_cap_kib_per_second :: u32
  ch_capabilities :: u32
  ch_video_codecs :: u32
  ch_video_transport :: u16
  ch_video_mode :: u8
  ch_video_min_dirty_percent :: u8
  ch_video_enter_seconds :: u16
  ch_video_bitrate_kib_per_second :: u32
  ch_video_exit_dirty_percent :: u8
  ch_video_reserved :: u8
  ch_video_exit_seconds :: u16
  ch_audio_codecs :: u32
  ch_audio_transport :: u16
  ch_audio_max_channels :: u8
  ch_audio_reserved :: u8
  ch_audio_target_latency_ms :: u16

definition wd_client_hello_payload_is_valid :: "wd_client_hello_payload option \<Rightarrow> u32 \<Rightarrow> bool" where
  "wd_client_hello_payload_is_valid hello payload_size \<longleftrightarrow>
     (case hello of
        None \<Rightarrow> False
      | Some h \<Rightarrow>
          if \<not> wd_fixed_payload_size_is_valid payload_size (sizeof wd_client_hello_payload_layout) \<or>
             ch_capabilities h AND NOT 7 \<noteq> 0 \<or> ch_video_codecs h AND NOT 7 \<noteq> 0 \<or> ch_video_reserved h \<noteq> 0 \<or>
             ch_audio_codecs h AND NOT 1 \<noteq> 0 \<or> ch_audio_reserved h \<noteq> 0 \<or> ch_video_mode h > 2 \<or>
             ch_video_min_dirty_percent h > 100 \<or> ch_video_exit_dirty_percent h > 100 \<or> ch_video_enter_seconds h > 60 \<or>
             ch_video_exit_seconds h > 300 \<or> (ch_desired_width h = 0) \<noteq> (ch_desired_height h = 0) \<or>
             ch_desired_width h > 4096 \<or> ch_desired_height h > 2160
          then False
          else
            let video = ch_capabilities h AND 1 \<noteq> 0; audio = ch_capabilities h AND 2 \<noteq> 0 in
            if ch_capabilities h AND 4 \<noteq> 0 \<and> \<not> video then False
            else if video \<and> (ch_video_codecs h = 0 \<or> ch_video_transport h \<noteq> 1) then False
            else if \<not> video \<and> (ch_video_codecs h \<noteq> 0 \<or> ch_video_transport h \<noteq> 0) then False
            else if audio then
              ch_audio_codecs h \<noteq> 0 \<and> ch_audio_transport h = 1 \<and> ch_audio_max_channels h \<noteq> 0 \<and>
              ch_audio_max_channels h \<le> 2 \<and>
              (ch_audio_target_latency_ms h = 0 \<or> ch_audio_target_latency_ms h \<ge> 10 \<and> ch_audio_target_latency_ms h \<le> 400)
            else ch_audio_codecs h = 0 \<and> ch_audio_transport h = 0 \<and> ch_audio_max_channels h = 0 \<and>
              ch_audio_target_latency_ms h = 0)"

section \<open>Audio and video payloads\<close>

definition wd_audio_frame_samples_is_valid :: "u16 \<Rightarrow> bool" where
  "wd_audio_frame_samples_is_valid frame_samples \<longleftrightarrow>
     frame_samples = 120 \<or> frame_samples = 240 \<or> frame_samples = 480 \<or> frame_samples = 960 \<or> frame_samples = 1920 \<or>
     frame_samples = 2880"

record wd_audio_config_payload =
  ac_session_id :: u8
  ac_connection_token :: u64
  ac_audio_epoch :: u64
  ac_media_clock_id :: u64
  ac_codec :: u32
  ac_sample_rate :: u32
  ac_channels :: u8
  ac_reserved :: u8
  ac_frame_samples :: u16
  ac_codec_delay_samples :: u16
  ac_target_bitrate :: u32

definition wd_audio_config_payload_is_valid :: "wd_audio_config_payload option \<Rightarrow> u32 \<Rightarrow> bool" where
  "wd_audio_config_payload_is_valid config payload_size \<longleftrightarrow>
     (case config of
        None \<Rightarrow> False
      | Some c \<Rightarrow>
          wd_fixed_payload_size_is_valid payload_size (sizeof wd_audio_config_payload_layout) \<and> ac_session_id c \<noteq> 0 \<and>
          ac_connection_token c \<noteq> 0 \<and> ac_audio_epoch c \<noteq> 0 \<and> ac_media_clock_id c \<noteq> 0 \<and> ac_codec c = 1 \<and>
          ac_sample_rate c = 48000 \<and> ac_channels c \<noteq> 0 \<and> ac_channels c \<le> 2 \<and> ac_reserved c = 0 \<and>
          wd_audio_frame_samples_is_valid (ac_frame_samples c) \<and> ac_codec_delay_samples c \<le> ac_frame_samples c \<and>
          ac_target_bitrate c \<noteq> 0)"

record wd_audio_packet_payload_header =
  ap_session_id :: u8
  ap_connection_token :: u64
  ap_audio_epoch :: u64
  ap_media_clock_id :: u64
  ap_sequence :: u64
  ap_pts_samples :: u64
  ap_duration_samples :: u16
  ap_flags :: u16
  ap_data_size :: u32

abbreviation WD_AUDIO_PACKET_MAX_PAYLOAD_BYTES :: u32 where "WD_AUDIO_PACKET_MAX_PAYLOAD_BYTES \<equiv> 16384"

definition wd_audio_packet_payload_size_is_valid :: "wd_audio_packet_payload_header option \<Rightarrow> u32 \<Rightarrow> bool" where
  "wd_audio_packet_payload_size_is_valid header tcp_size \<longleftrightarrow>
     (case header of
        None \<Rightarrow> False
      | Some h \<Rightarrow>
          if tcp_size < 49 \<or> ap_session_id h = 0 \<or> ap_connection_token h = 0 \<or> ap_audio_epoch h = 0 \<or>
             ap_media_clock_id h = 0 \<or> ap_sequence h = 0 \<or> ap_flags h AND NOT 3 \<noteq> 0
          then False
          else
            let expected_data_size = tcp_size - 49 in
            if ap_data_size h \<noteq> expected_data_size \<or> ap_data_size h > WD_AUDIO_PACKET_MAX_PAYLOAD_BYTES then False
            else if ap_flags h AND 2 \<noteq> 0 then ap_flags h = 2 \<and> ap_data_size h = 0 \<and> ap_duration_samples h = 0
            else ap_data_size h \<noteq> 0 \<and> wd_audio_frame_samples_is_valid (ap_duration_samples h))"

record wd_video_frame_payload_header =
  vf_session_id :: u8
  vf_connection_token :: u64
  vf_content_epoch :: u64
  vf_codec :: u32
  vf_flags :: u16
  vf_frame_id :: u64
  vf_pts_usec :: u64
  vf_width :: u16
  vf_height :: u16
  vf_coded_width :: u16
  vf_coded_height :: u16
  vf_data_size :: u32

abbreviation WD_VIDEO_FRAME_MAX_PAYLOAD_BYTES :: u32 where "WD_VIDEO_FRAME_MAX_PAYLOAD_BYTES \<equiv> 67108864"

abbreviation WD_VIDEO_FRAME_CONFIG :: u16 where "WD_VIDEO_FRAME_CONFIG \<equiv> 1"
abbreviation WD_VIDEO_FRAME_KEYFRAME :: u16 where "WD_VIDEO_FRAME_KEYFRAME \<equiv> 2"
abbreviation WD_VIDEO_FRAME_RESIZE :: u16 where "WD_VIDEO_FRAME_RESIZE \<equiv> 4"
abbreviation WD_VIDEO_FRAME_END_OF_STREAM :: u16 where "WD_VIDEO_FRAME_END_OF_STREAM \<equiv> 8"

definition wd_video_frame_payload_size_is_valid :: "wd_video_frame_payload_header option \<Rightarrow> u32 \<Rightarrow> bool" where
  "wd_video_frame_payload_size_is_valid header tcp_size \<longleftrightarrow>
     (case header of
        None \<Rightarrow> False
      | Some h \<Rightarrow>
          if tcp_size < 51 \<or> vf_session_id h = 0 \<or> vf_connection_token h = 0 \<or> vf_content_epoch h = 0 \<or>
             vf_flags h AND NOT 15 \<noteq> 0 \<or> vf_codec h = 0 \<or> vf_codec h AND NOT 7 \<noteq> 0 \<or> vf_codec h AND (vf_codec h - 1) \<noteq> 0
          then False
          else
            let expected_data_size = tcp_size - 51 in
            if vf_data_size h \<noteq> expected_data_size \<or> vf_data_size h > WD_VIDEO_FRAME_MAX_PAYLOAD_BYTES then False
            else
              let end_of_stream = vf_flags h AND WD_VIDEO_FRAME_END_OF_STREAM \<noteq> 0;
                  resize = vf_flags h AND WD_VIDEO_FRAME_RESIZE \<noteq> 0
              in
              if end_of_stream \<or> resize then
                vf_data_size h = 0 \<and> vf_frame_id h = 0 \<and> vf_width h \<noteq> 0 \<and> vf_height h \<noteq> 0 \<and>
                vf_coded_width h = vf_width h \<and> vf_coded_height h = vf_height h \<and> (\<not> resize \<or> end_of_stream) \<and>
                vf_flags h AND (WD_VIDEO_FRAME_CONFIG OR WD_VIDEO_FRAME_KEYFRAME) = 0
              else
                vf_data_size h \<noteq> 0 \<and> vf_frame_id h \<noteq> 0 \<and> vf_width h \<noteq> 0 \<and> vf_height h \<noteq> 0 \<and>
                vf_coded_width h \<ge> vf_width h \<and> vf_coded_height h \<ge> vf_height h \<and>
                (vf_flags h AND WD_VIDEO_FRAME_CONFIG = 0 \<or> vf_flags h AND WD_VIDEO_FRAME_KEYFRAME \<noteq> 0))"

text \<open>The header at the front of a payload block, and the offset of the data behind it.\<close>

definition video_frame_header_decode :: "bytes \<Rightarrow> wd_video_frame_payload_header" where
  "video_frame_header_decode bs =
     \<lparr>vf_session_id = field 0 1 bs, vf_connection_token = field 1 8 bs, vf_content_epoch = field 9 8 bs,
      vf_codec = field 17 4 bs, vf_flags = field 21 2 bs, vf_frame_id = field 23 8 bs, vf_pts_usec = field 31 8 bs,
      vf_width = field 39 2 bs, vf_height = field 41 2 bs, vf_coded_width = field 43 2 bs,
      vf_coded_height = field 45 2 bs, vf_data_size = field 47 4 bs\<rparr>"

definition video_frame_header_encode :: "wd_video_frame_payload_header \<Rightarrow> bytes" where
  "video_frame_header_encode h =
     le 1 (vf_session_id h) @ le 8 (vf_connection_token h) @ le 8 (vf_content_epoch h) @ le 4 (vf_codec h) @
     le 2 (vf_flags h) @ le 8 (vf_frame_id h) @ le 8 (vf_pts_usec h) @ le 2 (vf_width h) @ le 2 (vf_height h) @
     le 2 (vf_coded_width h) @ le 2 (vf_coded_height h) @ le 4 (vf_data_size h)"

definition wd_video_frame_payload_data :: "bytes option \<Rightarrow> u32 \<Rightarrow> nat option" where
  "wd_video_frame_payload_data payload tcp_size =
     (case payload of
        None \<Rightarrow> None
      | Some bs \<Rightarrow>
          if tcp_size < 51 then None
          else if \<not> wd_video_frame_payload_size_is_valid (Some (video_frame_header_decode bs)) tcp_size then None
          else Some 51)"

interpretation video_frame_header: wire_codec 51 video_frame_header_encode video_frame_header_decode
proof unfold_locales
  fix h rest bs
  show "length (video_frame_header_encode h) = 51" by (simp add: video_frame_header_encode_def)
  show "video_frame_header_decode (video_frame_header_encode h @ rest) = h"
    by (simp add: video_frame_header_encode_def video_frame_header_decode_def)
  assume "51 \<le> length (bs :: bytes)"
  then show "video_frame_header_encode (video_frame_header_decode bs) = take 51 bs"
    using take_drop_join [of 1 0 bs 8] take_drop_join [of 9 0 bs 8] take_drop_join [of 17 0 bs 4]
      take_drop_join [of 21 0 bs 2] take_drop_join [of 23 0 bs 8] take_drop_join [of 31 0 bs 8]
      take_drop_join [of 39 0 bs 2] take_drop_join [of 41 0 bs 2] take_drop_join [of 43 0 bs 2]
      take_drop_join [of 45 0 bs 2] take_drop_join [of 47 0 bs 4]
    by (simp add: video_frame_header_encode_def video_frame_header_decode_def flip: append_assoc)
qed


section \<open>Properties\<close>

definition printable :: "u8 \<Rightarrow> bool" where
  "printable c \<longleftrightarrow> c \<ge> 32 \<and> c \<noteq> 127"

lemma launch_scan_iff:
  "launch_scan i ns cs \<longleftrightarrow>
     (\<exists>s rest. cs = s @ 0 # rest \<and> list_all printable s \<and> (ns \<or> list_ex (\<lambda>c. c \<noteq> 32) s \<or> s = [] \<and> i = 0))"
proof (induction i ns cs rule: launch_scan.induct)
  case (1 i ns)
  then show ?case by simp
next
  case (2 i ns c cs)
  have z: "\<not> printable 0" by (simp add: printable_def word_le_nat_alt)
  show ?case
  proof (cases "c = 0")
    case True
    have eq: "c # cs = s @ 0 # rest \<and> list_all printable s \<longleftrightarrow> s = [] \<and> rest = cs" for s rest
      using True z by (cases s) auto
    show ?thesis using True unfolding conj_assoc [symmetric] eq by auto
  next
    case False
    have split: "c # cs = s @ 0 # rest \<longleftrightarrow> (\<exists>s'. s = c # s' \<and> cs = s' @ 0 # rest)" for s rest
      using False by (cases s) auto
    show ?thesis
    proof (cases "c < 32 \<or> c = 127")
      case True
      then have "\<not> printable c" by (auto simp: printable_def not_le)
      then show ?thesis using False True unfolding split by auto
    next
      case p: False
      then have c: "printable c" by (simp add: printable_def not_less)
      have "launch_scan i ns (c # cs) \<longleftrightarrow>
          (\<exists>s rest. cs = s @ 0 # rest \<and> list_all printable s \<and> ((ns \<or> c \<noteq> 32) \<or> list_ex (\<lambda>c. c \<noteq> 32) s))"
        using False p 2 by simp
      also have "\<dots> \<longleftrightarrow> (\<exists>s rest. (\<exists>s'. s = c # s' \<and> cs = s' @ 0 # rest) \<and> list_all printable s \<and>
          (ns \<or> list_ex (\<lambda>c. c \<noteq> 32) s \<or> s = [] \<and> i = 0))"
        (is "?l \<longleftrightarrow> ?r")
      proof
        assume ?l
        then obtain s rest where "cs = s @ 0 # rest" "list_all printable s" "(ns \<or> c \<noteq> 32) \<or> list_ex (\<lambda>c. c \<noteq> 32) s" by blast
        with c show ?r by (intro exI [of _ "c # s"] exI [of _ rest]) auto
      next
        assume ?r
        then show ?l by auto
      qed
      finally show ?thesis unfolding split .
    qed
  qed
qed

text \<open>
  C22: A launch command is accepted exactly when it names a session and a connection and its buffer
  holds a NUL-terminated string of printable bytes (no control byte, no delete) that is empty or has
  a byte other than a space before the terminator.
\<close>

theorem launch_command_valid_iff:
  "wd_launch_command_payload_valid (Some l) \<longleftrightarrow>
     lc_session_id l \<noteq> 0 \<and> lc_connection_token l \<noteq> 0 \<and>
     (\<exists>s rest. lc_command l = s @ 0 # rest \<and> list_all printable s \<and> (s = [] \<or> list_ex (\<lambda>c. c \<noteq> 32) s))"
  by (auto simp: wd_launch_command_payload_valid_def launch_scan_iff)

text \<open>
  C21: The size check of a payload with repeated entries is exact on natural numbers: it accepts
  precisely the payloads whose size is the header plus all entries, with no 64-bit wrap-around, for
  every header size, count and entry size.
\<close>

theorem counted_payload_size_exact:
  "wd_counted_payload_size_is_valid payload_size header_size cnt entry_size \<longleftrightarrow>
     unat payload_size = unat header_size + unat cnt * unat entry_size"
proof -
  let ?h = "unat header_size" and ?c = "unat cnt" and ?e = "unat entry_size"
  have hb: "?h \<le> 18446744073709551615" using unat_u64_lt [of header_size] by linarith
  have m: "unat (UINT64_MAX - header_size) = 18446744073709551615 - ?h"
    by (subst unat_sub_exact) (use hb in auto)
  show ?thesis
  proof (cases "entry_size = 0")
    case True
    then show ?thesis by (simp add: wd_counted_payload_size_is_valid_def word_unat_eq_iff [of "ucast payload_size"])
  next
    case False
    then have e: "0 < ?e" by (simp add: unat_gt_0)
    have g: "ucast cnt > (UINT64_MAX - header_size) div entry_size \<longleftrightarrow> 18446744073709551615 - ?h < ?c * ?e"
      using e by (simp add: word_less_nat_alt unat_div m div_less_iff_less_mult)
    show ?thesis
    proof (cases "18446744073709551615 - ?h < ?c * ?e")
      case True
      then have "unat payload_size \<noteq> ?h + ?c * ?e" using unat_u32_lt [of payload_size] hb by linarith
      then show ?thesis using True g False by (simp add: wd_counted_payload_size_is_valid_def)
    next
      case fits: False
      then have le: "?h + ?c * ?e \<le> 18446744073709551615" using hb by linarith
      have p: "unat (ucast cnt * entry_size) = ?c * ?e" by (subst unat_mult_exact) (use le in auto)
      have "unat (header_size + ucast cnt * entry_size) = ?h + ?c * ?e"
        by (subst unat_add_exact) (use p le in auto)
      then have "ucast payload_size = header_size + ucast cnt * entry_size \<longleftrightarrow> unat payload_size = ?h + ?c * ?e"
        by (simp add: unat_eq_iff)
      then show ?thesis using fits g False by (simp add: wd_counted_payload_size_is_valid_def)
    qed
  qed
qed

lemma and_not_mask_small:
  fixes x :: "'a::len word"
  assumes "x AND NOT (mask n) = 0"
  shows "unat x < 2 ^ n"
proof -
  have "x = take_bit n x"
  proof (rule bit_word_eqI)
    fix i assume i: "i < LENGTH('a)"
    have "\<not> bit (x AND NOT (mask n)) i" using assms by simp
    then show "bit x i = bit (take_bit n x) i" using i by (auto simp: bit_simps)
  qed
  then have "unat x = take_bit n (unat x)" by (metis unsigned_take_bit_eq)
  then show ?thesis by (metis take_bit_nat_less_exp)
qed

lemma mask_4_u16: "(15 :: u16) = mask 4" and mask_3_u32: "(7 :: u32) = mask 3"
  by (simp_all add: mask_numeral)

lemma small_u16_cases:
  assumes "unat (x :: u16) < 16"
  shows "x \<in> {0, 1, 2, 3, 4, 5, 6, 7, 8, 9, 10, 11, 12, 13, 14, 15}"
proof -
  have "unat x \<in> {..<16}" using assms by simp
  also have "{..<16 :: nat} = {0, 1, 2, 3, 4, 5, 6, 7, 8, 9, 10, 11, 12, 13, 14, 15}"
    by (simp add: lessThan_nat_numeral lessThan_Suc insert_commute)
  finally show ?thesis by (auto simp: unat_eq_iff)
qed

lemma small_u32_cases:
  assumes "unat (x :: u32) < 8"
  shows "x \<in> {0, 1, 2, 3, 4, 5, 6, 7}"
proof -
  have "unat x \<in> {..<8}" using assms by simp
  also have "{..<8 :: nat} = {0, 1, 2, 3, 4, 5, 6, 7}"
    by (simp add: lessThan_nat_numeral lessThan_Suc insert_commute)
  finally show ?thesis by (auto simp: unat_eq_iff)
qed

lemma one_codec_bit:
  assumes "c \<noteq> 0" "c AND NOT 7 = 0" "c AND (c - 1) = (0 :: u32)"
  shows "c \<in> {1, 2, 4}"
proof -
  have "c \<in> {0, 1, 2, 3, 4, 5, 6, 7}"
    by (rule small_u32_cases) (use and_not_mask_small [of c 3] assms(2) in \<open>simp add: mask_3_u32\<close>)
  then show ?thesis using assms(1,3) by auto
qed


lemma control_flags:
  assumes "f AND NOT 15 = 0" "f AND 8 \<noteq> 0 \<or> f AND 4 \<noteq> 0" "\<not> f AND 4 \<noteq> 0 \<or> f AND 8 \<noteq> 0" "f AND (1 OR 2) = (0 :: u16)"
  shows "f \<in> {8, 12}"
proof -
  have "f \<in> {0, 1, 2, 3, 4, 5, 6, 7, 8, 9, 10, 11, 12, 13, 14, 15}"
    by (rule small_u16_cases) (use and_not_mask_small [of f 4] assms(1) in \<open>simp add: mask_4_u16\<close>)
  then show ?thesis using assms(2-4) by auto
qed

lemma data_flags:
  assumes "f AND NOT 15 = 0" "\<not> (f AND 8 \<noteq> 0 \<or> f AND 4 \<noteq> 0)" "f AND 1 = 0 \<or> f AND 2 \<noteq> (0 :: u16)"
  shows "f \<in> {0, 2, 3}"
proof -
  have "f \<in> {0, 1, 2, 3, 4, 5, 6, 7, 8, 9, 10, 11, 12, 13, 14, 15}"
    by (rule small_u16_cases) (use and_not_mask_small [of f 4] assms(1) in \<open>simp add: mask_4_u16\<close>)
  then show ?thesis using assms(2,3) by auto
qed

lemma video_frame_valid_facts:
  assumes v: "wd_video_frame_payload_size_is_valid (Some h) n"
  shows "51 \<le> unat n" "unat (vf_data_size h) = unat n - 51" "unat (vf_data_size h) \<le> 67108864" "vf_codec h \<in> {1, 2, 4}"
    and "if vf_data_size h = 0 then vf_flags h \<in> {8, 12} \<and> vf_frame_id h = 0 else vf_flags h \<in> {0, 2, 3} \<and> vf_frame_id h \<noteq> 0"
    and "vf_width h \<noteq> 0 \<and> vf_height h \<noteq> 0 \<and> vf_width h \<le> vf_coded_width h \<and> vf_height h \<le> vf_coded_height h"
proof -
  let ?g1 = "n < 51 \<or> vf_session_id h = 0 \<or> vf_connection_token h = 0 \<or> vf_content_epoch h = 0 \<or>
      vf_flags h AND NOT 15 \<noteq> 0 \<or> vf_codec h = 0 \<or> vf_codec h AND NOT 7 \<noteq> 0 \<or> vf_codec h AND (vf_codec h - 1) \<noteq> 0"
  let ?g2 = "vf_data_size h \<noteq> n - 51 \<or> vf_data_size h > WD_VIDEO_FRAME_MAX_PAYLOAD_BYTES"
  have g1: "\<not> ?g1" using v unfolding wd_video_frame_payload_size_is_valid_def option.case by (rule contrapos_pn) simp
  have g2: "\<not> ?g2" using v unfolding wd_video_frame_payload_size_is_valid_def option.case if_not_P [OF g1] Let_def
    by (rule contrapos_pn) simp
  have body: "if vf_flags h AND 8 \<noteq> 0 \<or> vf_flags h AND 4 \<noteq> 0 then
      vf_data_size h = 0 \<and> vf_frame_id h = 0 \<and> vf_width h \<noteq> 0 \<and> vf_height h \<noteq> 0 \<and>
      vf_coded_width h = vf_width h \<and> vf_coded_height h = vf_height h \<and> (\<not> vf_flags h AND 4 \<noteq> 0 \<or> vf_flags h AND 8 \<noteq> 0) \<and>
      vf_flags h AND (1 OR 2) = 0
    else vf_data_size h \<noteq> 0 \<and> vf_frame_id h \<noteq> 0 \<and> vf_width h \<noteq> 0 \<and> vf_height h \<noteq> 0 \<and>
      vf_coded_width h \<ge> vf_width h \<and> vf_coded_height h \<ge> vf_height h \<and> (vf_flags h AND 1 = 0 \<or> vf_flags h AND 2 \<noteq> 0)"
    using v unfolding wd_video_frame_payload_size_is_valid_def option.case if_not_P [OF g1] Let_def if_not_P [OF g2] .
  show n: "51 \<le> unat n" using g1 by (simp add: word_less_nat_alt not_less)
  show "unat (vf_data_size h) = unat n - 51" using g2 n by (simp add: unat_sub_exact)
  show "unat (vf_data_size h) \<le> 67108864" using g2 by (simp add: word_less_nat_alt not_less)
  show "vf_codec h \<in> {1, 2, 4}" using g1 by (intro one_codec_bit) blast+
  have f: "vf_flags h AND NOT 15 = 0" using g1 by blast
  show "if vf_data_size h = 0 then vf_flags h \<in> {8, 12} \<and> vf_frame_id h = 0 else vf_flags h \<in> {0, 2, 3} \<and> vf_frame_id h \<noteq> 0"
    using body control_flags [OF f] data_flags [OF f] by presburger
  show "vf_width h \<noteq> 0 \<and> vf_height h \<noteq> 0 \<and> vf_width h \<le> vf_coded_width h \<and> vf_height h \<le> vf_coded_height h"
    using body by (auto split: if_splits)
qed

text \<open>
  C20: When the video frame check returns a data pointer, the payload is the packed header followed by
  exactly the announced number of bytes (at most 64 MiB), the codec is one of the three known ones, and
  the flags are one of the five meaningful combinations: a control message (end of stream, with or
  without resize) has no data and no frame id, a picture (delta, key, key with configuration) has both.
\<close>

theorem video_frame_accepted_wellformed:
  assumes len: "length p < 2 ^ 32" and acc: "wd_video_frame_payload_data (Some p) (word_of_nat (length p)) = Some off"
  shows "\<exists>h. video_frame_header_decode p = h \<and> p = video_frame_header_encode h @ drop off p \<and>
     length (drop off p) = unat (vf_data_size h) \<and> length (drop off p) \<le> 67108864 \<and> vf_codec h \<in> {1, 2, 4} \<and>
     (if drop off p = [] then vf_flags h \<in> {8, 12} \<and> vf_frame_id h = 0 else vf_flags h \<in> {0, 2, 3} \<and> vf_frame_id h \<noteq> 0) \<and>
     vf_width h \<noteq> 0 \<and> vf_height h \<noteq> 0 \<and> vf_width h \<le> vf_coded_width h \<and> vf_height h \<le> vf_coded_height h"
proof -
  let ?h = "video_frame_header_decode p" and ?n = "word_of_nat (length p) :: u32"
  have un: "unat ?n = length p" using len by (simp add: unat_word_of_nat)
  from acc have off: "off = 51" and v: "wd_video_frame_payload_size_is_valid (Some ?h) ?n"
    by (auto simp: wd_video_frame_payload_data_def split: if_splits)
  note f = video_frame_valid_facts [OF v, unfolded un]
  have l: "length (drop off p) = unat (vf_data_size ?h)" using f(2) off by simp
  then have e: "drop off p = [] \<longleftrightarrow> vf_data_size ?h = 0" by (metis length_0_conv unat_eq_zero)
  have "p = video_frame_header_encode ?h @ drop off p"
    using video_frame_header.enc_dec [OF f(1)] off by (metis append_take_drop_id)
  with l f show ?thesis unfolding e by auto
qed

definition demo_video_header :: wd_video_frame_payload_header where
  "demo_video_header =
     \<lparr>vf_session_id = 1, vf_connection_token = 2, vf_content_epoch = 3, vf_codec = 2, vf_flags = 3, vf_frame_id = 1,
      vf_pts_usec = 0, vf_width = 800, vf_height = 600, vf_coded_width = 800, vf_coded_height = 608, vf_data_size = 2\<rparr>"

theorem video_frame_accepted_wellformed_witness:
  "wd_video_frame_payload_data (Some (video_frame_header_encode demo_video_header @ [9, 8])) 53 = Some 51 \<and>
   length (drop 51 (video_frame_header_encode demo_video_header @ [9, 8])) = 2"
proof -
  let ?p = "video_frame_header_encode demo_video_header @ [9, 8 :: u8]"
  have l: "length ?p = 53" by (simp add: video_frame_header.length_enc)
  have a: "wd_video_frame_payload_data (Some ?p) (word_of_nat (length ?p)) = Some 51"
    by (simp add: video_frame_header.length_enc wd_video_frame_payload_data_def video_frame_header.dec_enc wd_video_frame_payload_size_is_valid_def
        demo_video_header_def word_le_nat_alt)
  have "length ?p < 2 ^ 32" unfolding l by simp
  from video_frame_accepted_wellformed [OF this a] video_frame_header.dec_enc [of demo_video_header "[9, 8]"]
  have d: "length (drop 51 ?p) = unat (vf_data_size demo_video_header)" by metis
  have "unat (vf_data_size demo_video_header) = 2" by (simp add: demo_video_header_def)
  with a d show ?thesis unfolding l by (simp only: of_nat_numeral simp_thms)
qed

end
