(* ===== verification/WD_Dispatch.thy ===== *)
theory WD_Dispatch
  imports WD_Validate
begin

text \<open>
  The message table of the protocol and its lookups
  (\<open>src/src/common/wd_protocol_dispatch.c\<close>): which message may travel on which channel, in which
  phase and direction, and with which payload size.
\<close>

abbreviation (input) WD_MSG_CLIENT_HELLO :: u16 where "WD_MSG_CLIENT_HELLO \<equiv> 1"
abbreviation (input) WD_MSG_SERVER_CONFIG :: u16 where "WD_MSG_SERVER_CONFIG \<equiv> 2"
abbreviation (input) WD_MSG_TILE_GENERATION_SUMMARY :: u16 where "WD_MSG_TILE_GENERATION_SUMMARY \<equiv> 3"
abbreviation (input) WD_MSG_TILE_REPAIR_REQUEST :: u16 where "WD_MSG_TILE_REPAIR_REQUEST \<equiv> 4"
abbreviation (input) WD_MSG_KEYBOARD_KEY :: u16 where "WD_MSG_KEYBOARD_KEY \<equiv> 5"
abbreviation (input) WD_MSG_POINTER_EVENT :: u16 where "WD_MSG_POINTER_EVENT \<equiv> 6"
abbreviation (input) WD_MSG_MTU_PROBE_START :: u16 where "WD_MSG_MTU_PROBE_START \<equiv> 7"
abbreviation (input) WD_MSG_MTU_PROBE_RESULT :: u16 where "WD_MSG_MTU_PROBE_RESULT \<equiv> 8"
abbreviation (input) WD_MSG_CLIPBOARD_SET :: u16 where "WD_MSG_CLIPBOARD_SET \<equiv> 9"
abbreviation (input) WD_MSG_CLIPBOARD_REQUEST :: u16 where "WD_MSG_CLIPBOARD_REQUEST \<equiv> 10"
abbreviation (input) WD_MSG_PRIMARY_SET :: u16 where "WD_MSG_PRIMARY_SET \<equiv> 11"
abbreviation (input) WD_MSG_PRIMARY_REQUEST :: u16 where "WD_MSG_PRIMARY_REQUEST \<equiv> 12"
abbreviation (input) WD_MSG_CURSOR_SHAPE :: u16 where "WD_MSG_CURSOR_SHAPE \<equiv> 13"
abbreviation (input) WD_MSG_DISPLAY_RESIZE :: u16 where "WD_MSG_DISPLAY_RESIZE \<equiv> 14"
abbreviation (input) WD_MSG_THROUGHPUT_PROBE_START :: u16 where "WD_MSG_THROUGHPUT_PROBE_START \<equiv> 15"
abbreviation (input) WD_MSG_THROUGHPUT_PROBE_RESULT :: u16 where "WD_MSG_THROUGHPUT_PROBE_RESULT \<equiv> 16"
abbreviation (input) WD_MSG_INPUT_CHANNEL_HELLO :: u16 where "WD_MSG_INPUT_CHANNEL_HELLO \<equiv> 17"
abbreviation (input) WD_MSG_SELECTION_CHANNEL_HELLO :: u16 where "WD_MSG_SELECTION_CHANNEL_HELLO \<equiv> 18"
abbreviation (input) WD_MSG_CLIENT_STATS :: u16 where "WD_MSG_CLIENT_STATS \<equiv> 19"
abbreviation (input) WD_MSG_LINK_PROBE_PING :: u16 where "WD_MSG_LINK_PROBE_PING \<equiv> 20"
abbreviation (input) WD_MSG_LINK_PROBE_PONG :: u16 where "WD_MSG_LINK_PROBE_PONG \<equiv> 21"
abbreviation (input) WD_MSG_VIDEO_CHANNEL_HELLO :: u16 where "WD_MSG_VIDEO_CHANNEL_HELLO \<equiv> 22"
abbreviation (input) WD_MSG_VIDEO_FRAME :: u16 where "WD_MSG_VIDEO_FRAME \<equiv> 23"
abbreviation (input) WD_MSG_CONFIG_APPLIED :: u16 where "WD_MSG_CONFIG_APPLIED \<equiv> 24"
abbreviation (input) WD_MSG_AUDIO_CHANNEL_HELLO :: u16 where "WD_MSG_AUDIO_CHANNEL_HELLO \<equiv> 25"
abbreviation (input) WD_MSG_AUDIO_CONFIG :: u16 where "WD_MSG_AUDIO_CONFIG \<equiv> 26"
abbreviation (input) WD_MSG_AUDIO_PACKET :: u16 where "WD_MSG_AUDIO_PACKET \<equiv> 27"
abbreviation (input) WD_MSG_VIDEO_FEEDBACK :: u16 where "WD_MSG_VIDEO_FEEDBACK \<equiv> 28"
abbreviation (input) WD_MSG_LAUNCH_COMMAND :: u16 where "WD_MSG_LAUNCH_COMMAND \<equiv> 29"
abbreviation (input) WD_MSG_CLIPBOARD_PASTE :: u16 where "WD_MSG_CLIPBOARD_PASTE \<equiv> 30"
abbreviation (input) WD_MSG_PRIMARY_PASTE :: u16 where "WD_MSG_PRIMARY_PASTE \<equiv> 31"

abbreviation (input) WD_PROTOCOL_CHANNEL_CONTROL :: u32 where "WD_PROTOCOL_CHANNEL_CONTROL \<equiv> 1"
abbreviation (input) WD_PROTOCOL_CHANNEL_INPUT :: u32 where "WD_PROTOCOL_CHANNEL_INPUT \<equiv> 2"
abbreviation (input) WD_PROTOCOL_CHANNEL_SELECTION :: u32 where "WD_PROTOCOL_CHANNEL_SELECTION \<equiv> 4"
abbreviation (input) WD_PROTOCOL_CHANNEL_VIDEO :: u32 where "WD_PROTOCOL_CHANNEL_VIDEO \<equiv> 8"
abbreviation (input) WD_PROTOCOL_CHANNEL_AUDIO :: u32 where "WD_PROTOCOL_CHANNEL_AUDIO \<equiv> 16"
abbreviation (input) WD_PROTOCOL_CHANNEL_AUX_HANDSHAKE :: u32 where "WD_PROTOCOL_CHANNEL_AUX_HANDSHAKE \<equiv> 32"
abbreviation (input) WD_PROTOCOL_PHASE_NEGOTIATION :: u32 where "WD_PROTOCOL_PHASE_NEGOTIATION \<equiv> 1"
abbreviation (input) WD_PROTOCOL_PHASE_ESTABLISHED :: u32 where "WD_PROTOCOL_PHASE_ESTABLISHED \<equiv> 2"
abbreviation (input) WD_PROTOCOL_CLIENT_TO_SERVER :: u32 where "WD_PROTOCOL_CLIENT_TO_SERVER \<equiv> 1"
abbreviation (input) WD_PROTOCOL_SERVER_TO_CLIENT :: u32 where "WD_PROTOCOL_SERVER_TO_CLIENT \<equiv> 2"
abbreviation (input) WD_TCP_MAX_PAYLOAD_SIZE :: u32 where "WD_TCP_MAX_PAYLOAD_SIZE \<equiv> 2097152"

datatype wd_protocol_payload_kind =
    WD_PROTOCOL_PAYLOAD_EMPTY
  | WD_PROTOCOL_PAYLOAD_FIXED
  | WD_PROTOCOL_PAYLOAD_OPAQUE_TAIL
  | WD_PROTOCOL_PAYLOAD_REPEATED

record wd_protocol_message_descriptor =
  md_message_type :: u16
  md_name :: string
  md_channels :: u32
  md_phases :: u32
  md_directions :: u32
  md_payload_kind :: wd_protocol_payload_kind
  md_payload_prefix_size :: u32
  md_repeated_entry_size :: u32
  md_minimum_payload_size :: u32
  md_maximum_payload_size :: u32

definition WD_FIXED :: "u16 \<Rightarrow> string \<Rightarrow> u32 \<Rightarrow> u32 \<Rightarrow> u32 \<Rightarrow> layout \<Rightarrow> wd_protocol_message_descriptor" where
  "WD_FIXED t n c p d l =
     \<lparr>md_message_type = t, md_name = n, md_channels = c, md_phases = p, md_directions = d,
      md_payload_kind = WD_PROTOCOL_PAYLOAD_FIXED, md_payload_prefix_size = word_of_nat (sizeof l),
      md_repeated_entry_size = 0, md_minimum_payload_size = word_of_nat (sizeof l),
      md_maximum_payload_size = word_of_nat (sizeof l)\<rparr>"

definition WD_EMPTY :: "u16 \<Rightarrow> string \<Rightarrow> u32 \<Rightarrow> u32 \<Rightarrow> u32 \<Rightarrow> wd_protocol_message_descriptor" where
  "WD_EMPTY t n c p d =
     \<lparr>md_message_type = t, md_name = n, md_channels = c, md_phases = p, md_directions = d,
      md_payload_kind = WD_PROTOCOL_PAYLOAD_EMPTY, md_payload_prefix_size = 0, md_repeated_entry_size = 0,
      md_minimum_payload_size = 0, md_maximum_payload_size = 0\<rparr>"

definition WD_OPAQUE :: "u16 \<Rightarrow> string \<Rightarrow> u32 \<Rightarrow> u32 \<Rightarrow> u32 \<Rightarrow> layout \<Rightarrow> u32 \<Rightarrow> wd_protocol_message_descriptor" where
  "WD_OPAQUE t n c p d l maximum =
     \<lparr>md_message_type = t, md_name = n, md_channels = c, md_phases = p, md_directions = d,
      md_payload_kind = WD_PROTOCOL_PAYLOAD_OPAQUE_TAIL, md_payload_prefix_size = word_of_nat (sizeof l),
      md_repeated_entry_size = 0, md_minimum_payload_size = word_of_nat (sizeof l), md_maximum_payload_size = maximum\<rparr>"

definition WD_REPEAT :: "u16 \<Rightarrow> string \<Rightarrow> u32 \<Rightarrow> u32 \<Rightarrow> u32 \<Rightarrow> layout \<Rightarrow> layout \<Rightarrow> u32 \<Rightarrow> wd_protocol_message_descriptor" where
  "WD_REPEAT t n c p d l e maximum =
     \<lparr>md_message_type = t, md_name = n, md_channels = c, md_phases = p, md_directions = d,
      md_payload_kind = WD_PROTOCOL_PAYLOAD_REPEATED, md_payload_prefix_size = word_of_nat (sizeof l),
      md_repeated_entry_size = word_of_nat (sizeof e), md_minimum_payload_size = word_of_nat (sizeof l),
      md_maximum_payload_size = maximum\<rparr>"

definition wd_message_descriptors :: "wd_protocol_message_descriptor list" where
  "wd_message_descriptors =
     [WD_FIXED WD_MSG_CLIENT_HELLO ''WD_MSG_CLIENT_HELLO'' WD_PROTOCOL_CHANNEL_CONTROL WD_PROTOCOL_PHASE_NEGOTIATION WD_PROTOCOL_CLIENT_TO_SERVER wd_client_hello_payload_layout,
      WD_FIXED WD_MSG_SERVER_CONFIG ''WD_MSG_SERVER_CONFIG'' WD_PROTOCOL_CHANNEL_CONTROL (WD_PROTOCOL_PHASE_NEGOTIATION OR WD_PROTOCOL_PHASE_ESTABLISHED) WD_PROTOCOL_SERVER_TO_CLIENT wd_server_config_payload_layout,
      WD_REPEAT WD_MSG_TILE_GENERATION_SUMMARY ''WD_MSG_TILE_GENERATION_SUMMARY'' WD_PROTOCOL_CHANNEL_CONTROL WD_PROTOCOL_PHASE_ESTABLISHED WD_PROTOCOL_SERVER_TO_CLIENT wd_tile_summary_payload_header_layout
        wd_tile_generation_entry_layout WD_TCP_MAX_PAYLOAD_SIZE,
      WD_REPEAT WD_MSG_TILE_REPAIR_REQUEST ''WD_MSG_TILE_REPAIR_REQUEST'' WD_PROTOCOL_CHANNEL_CONTROL WD_PROTOCOL_PHASE_ESTABLISHED WD_PROTOCOL_CLIENT_TO_SERVER wd_tile_repair_request_payload_header_layout
        wd_tile_repair_entry_layout WD_TCP_MAX_PAYLOAD_SIZE,
      WD_FIXED WD_MSG_KEYBOARD_KEY ''WD_MSG_KEYBOARD_KEY'' WD_PROTOCOL_CHANNEL_INPUT WD_PROTOCOL_PHASE_ESTABLISHED WD_PROTOCOL_CLIENT_TO_SERVER wd_keyboard_event_payload_layout,
      WD_FIXED WD_MSG_POINTER_EVENT ''WD_MSG_POINTER_EVENT'' WD_PROTOCOL_CHANNEL_INPUT WD_PROTOCOL_PHASE_ESTABLISHED WD_PROTOCOL_CLIENT_TO_SERVER wd_pointer_event_payload_layout,
      WD_FIXED WD_MSG_MTU_PROBE_START ''WD_MSG_MTU_PROBE_START'' WD_PROTOCOL_CHANNEL_CONTROL WD_PROTOCOL_PHASE_NEGOTIATION WD_PROTOCOL_SERVER_TO_CLIENT wd_mtu_probe_start_payload_layout,
      WD_FIXED WD_MSG_MTU_PROBE_RESULT ''WD_MSG_MTU_PROBE_RESULT'' WD_PROTOCOL_CHANNEL_CONTROL WD_PROTOCOL_PHASE_NEGOTIATION WD_PROTOCOL_CLIENT_TO_SERVER wd_mtu_probe_result_payload_layout,
      WD_OPAQUE WD_MSG_CLIPBOARD_SET ''WD_MSG_CLIPBOARD_SET'' WD_PROTOCOL_CHANNEL_SELECTION WD_PROTOCOL_PHASE_ESTABLISHED (WD_PROTOCOL_CLIENT_TO_SERVER OR WD_PROTOCOL_SERVER_TO_CLIENT) wd_selection_payload_header_layout
        (word_of_nat (sizeof wd_selection_payload_header_layout) + 1048576),
      WD_EMPTY WD_MSG_CLIPBOARD_REQUEST ''WD_MSG_CLIPBOARD_REQUEST'' WD_PROTOCOL_CHANNEL_SELECTION WD_PROTOCOL_PHASE_ESTABLISHED WD_PROTOCOL_CLIENT_TO_SERVER,
      WD_OPAQUE WD_MSG_PRIMARY_SET ''WD_MSG_PRIMARY_SET'' WD_PROTOCOL_CHANNEL_SELECTION WD_PROTOCOL_PHASE_ESTABLISHED (WD_PROTOCOL_CLIENT_TO_SERVER OR WD_PROTOCOL_SERVER_TO_CLIENT) wd_selection_payload_header_layout
        (word_of_nat (sizeof wd_selection_payload_header_layout) + 1048576),
      WD_EMPTY WD_MSG_PRIMARY_REQUEST ''WD_MSG_PRIMARY_REQUEST'' WD_PROTOCOL_CHANNEL_SELECTION WD_PROTOCOL_PHASE_ESTABLISHED WD_PROTOCOL_CLIENT_TO_SERVER,
      WD_FIXED WD_MSG_CURSOR_SHAPE ''WD_MSG_CURSOR_SHAPE'' WD_PROTOCOL_CHANNEL_CONTROL WD_PROTOCOL_PHASE_ESTABLISHED WD_PROTOCOL_SERVER_TO_CLIENT wd_cursor_shape_payload_layout,
      WD_FIXED WD_MSG_DISPLAY_RESIZE ''WD_MSG_DISPLAY_RESIZE'' WD_PROTOCOL_CHANNEL_CONTROL WD_PROTOCOL_PHASE_ESTABLISHED WD_PROTOCOL_CLIENT_TO_SERVER wd_display_resize_payload_layout,
      WD_FIXED WD_MSG_THROUGHPUT_PROBE_START ''WD_MSG_THROUGHPUT_PROBE_START'' WD_PROTOCOL_CHANNEL_CONTROL WD_PROTOCOL_PHASE_NEGOTIATION WD_PROTOCOL_SERVER_TO_CLIENT wd_throughput_probe_start_payload_layout,
      WD_FIXED WD_MSG_THROUGHPUT_PROBE_RESULT ''WD_MSG_THROUGHPUT_PROBE_RESULT'' WD_PROTOCOL_CHANNEL_CONTROL WD_PROTOCOL_PHASE_NEGOTIATION WD_PROTOCOL_CLIENT_TO_SERVER wd_throughput_probe_result_payload_layout,
      WD_FIXED WD_MSG_INPUT_CHANNEL_HELLO ''WD_MSG_INPUT_CHANNEL_HELLO'' WD_PROTOCOL_CHANNEL_AUX_HANDSHAKE WD_PROTOCOL_PHASE_NEGOTIATION WD_PROTOCOL_CLIENT_TO_SERVER wd_input_channel_hello_payload_layout,
      WD_FIXED WD_MSG_SELECTION_CHANNEL_HELLO ''WD_MSG_SELECTION_CHANNEL_HELLO'' WD_PROTOCOL_CHANNEL_AUX_HANDSHAKE WD_PROTOCOL_PHASE_NEGOTIATION WD_PROTOCOL_CLIENT_TO_SERVER wd_selection_channel_hello_payload_layout,
      WD_FIXED WD_MSG_CLIENT_STATS ''WD_MSG_CLIENT_STATS'' WD_PROTOCOL_CHANNEL_CONTROL WD_PROTOCOL_PHASE_ESTABLISHED WD_PROTOCOL_CLIENT_TO_SERVER wd_client_stats_payload_layout,
      WD_FIXED WD_MSG_LINK_PROBE_PING ''WD_MSG_LINK_PROBE_PING'' WD_PROTOCOL_CHANNEL_CONTROL WD_PROTOCOL_PHASE_NEGOTIATION WD_PROTOCOL_SERVER_TO_CLIENT wd_link_probe_payload_layout,
      WD_FIXED WD_MSG_LINK_PROBE_PONG ''WD_MSG_LINK_PROBE_PONG'' WD_PROTOCOL_CHANNEL_CONTROL WD_PROTOCOL_PHASE_NEGOTIATION WD_PROTOCOL_CLIENT_TO_SERVER wd_link_probe_payload_layout,
      WD_FIXED WD_MSG_VIDEO_CHANNEL_HELLO ''WD_MSG_VIDEO_CHANNEL_HELLO'' WD_PROTOCOL_CHANNEL_AUX_HANDSHAKE WD_PROTOCOL_PHASE_NEGOTIATION WD_PROTOCOL_CLIENT_TO_SERVER wd_video_channel_hello_payload_layout,
      WD_OPAQUE WD_MSG_VIDEO_FRAME ''WD_MSG_VIDEO_FRAME'' WD_PROTOCOL_CHANNEL_VIDEO WD_PROTOCOL_PHASE_ESTABLISHED WD_PROTOCOL_SERVER_TO_CLIENT wd_video_frame_payload_header_layout
        (word_of_nat (sizeof wd_video_frame_payload_header_layout) + 67108864),
      WD_FIXED WD_MSG_CONFIG_APPLIED ''WD_MSG_CONFIG_APPLIED'' WD_PROTOCOL_CHANNEL_CONTROL WD_PROTOCOL_PHASE_ESTABLISHED WD_PROTOCOL_CLIENT_TO_SERVER wd_config_applied_payload_layout,
      WD_FIXED WD_MSG_AUDIO_CHANNEL_HELLO ''WD_MSG_AUDIO_CHANNEL_HELLO'' WD_PROTOCOL_CHANNEL_AUX_HANDSHAKE WD_PROTOCOL_PHASE_NEGOTIATION WD_PROTOCOL_CLIENT_TO_SERVER wd_audio_channel_hello_payload_layout,
      WD_FIXED WD_MSG_AUDIO_CONFIG ''WD_MSG_AUDIO_CONFIG'' WD_PROTOCOL_CHANNEL_AUDIO WD_PROTOCOL_PHASE_ESTABLISHED WD_PROTOCOL_SERVER_TO_CLIENT wd_audio_config_payload_layout,
      WD_OPAQUE WD_MSG_AUDIO_PACKET ''WD_MSG_AUDIO_PACKET'' WD_PROTOCOL_CHANNEL_AUDIO WD_PROTOCOL_PHASE_ESTABLISHED WD_PROTOCOL_SERVER_TO_CLIENT wd_audio_packet_payload_header_layout
        (word_of_nat (sizeof wd_audio_packet_payload_header_layout) + 16384),
      WD_FIXED WD_MSG_VIDEO_FEEDBACK ''WD_MSG_VIDEO_FEEDBACK'' WD_PROTOCOL_CHANNEL_CONTROL WD_PROTOCOL_PHASE_ESTABLISHED WD_PROTOCOL_CLIENT_TO_SERVER wd_video_feedback_payload_layout,
      WD_FIXED WD_MSG_LAUNCH_COMMAND ''WD_MSG_LAUNCH_COMMAND'' WD_PROTOCOL_CHANNEL_CONTROL WD_PROTOCOL_PHASE_ESTABLISHED WD_PROTOCOL_CLIENT_TO_SERVER wd_launch_command_payload_layout,
      WD_EMPTY WD_MSG_CLIPBOARD_PASTE ''WD_MSG_CLIPBOARD_PASTE'' WD_PROTOCOL_CHANNEL_SELECTION WD_PROTOCOL_PHASE_ESTABLISHED WD_PROTOCOL_CLIENT_TO_SERVER,
      WD_FIXED WD_MSG_PRIMARY_PASTE ''WD_MSG_PRIMARY_PASTE'' WD_PROTOCOL_CHANNEL_SELECTION WD_PROTOCOL_PHASE_ESTABLISHED WD_PROTOCOL_CLIENT_TO_SERVER wd_pointer_event_payload_layout]"

definition wd_protocol_message_descriptor_find :: "u16 \<Rightarrow> wd_protocol_message_descriptor option" where
  "wd_protocol_message_descriptor_find message_type =
     find (\<lambda>d. md_message_type d = message_type) wd_message_descriptors"

definition wd_protocol_descriptor_size_is_valid :: "wd_protocol_message_descriptor option \<Rightarrow> u32 \<Rightarrow> bool" where
  "wd_protocol_descriptor_size_is_valid descriptor payload_size \<longleftrightarrow>
     (case descriptor of
        None \<Rightarrow> False
      | Some d \<Rightarrow>
          if payload_size < md_minimum_payload_size d \<or> payload_size > md_maximum_payload_size d then False
          else
            (case md_payload_kind d of
               WD_PROTOCOL_PAYLOAD_EMPTY \<Rightarrow> payload_size = 0
             | WD_PROTOCOL_PAYLOAD_FIXED \<Rightarrow> payload_size = md_payload_prefix_size d
             | WD_PROTOCOL_PAYLOAD_OPAQUE_TAIL \<Rightarrow> payload_size \<ge> md_payload_prefix_size d
             | WD_PROTOCOL_PAYLOAD_REPEATED \<Rightarrow>
                 payload_size \<ge> md_payload_prefix_size d \<and> md_repeated_entry_size d \<noteq> 0 \<and>
                 (payload_size - md_payload_prefix_size d) mod md_repeated_entry_size d = 0))"

definition wd_protocol_payload_size_is_valid :: "u16 \<Rightarrow> u32 \<Rightarrow> bool" where
  "wd_protocol_payload_size_is_valid message_type payload_size \<longleftrightarrow>
     wd_protocol_descriptor_size_is_valid (wd_protocol_message_descriptor_find message_type) payload_size"

definition wd_protocol_route_is_concrete :: "u32 \<Rightarrow> u32 \<Rightarrow> bool" where
  "wd_protocol_route_is_concrete v allowed_mask \<longleftrightarrow> v \<noteq> 0 \<and> v AND NOT allowed_mask = 0 \<and> v AND (v - 1) = 0"

text \<open>The masks of all channels, phases and directions.\<close>

definition channel_mask :: u32 where
  "channel_mask = WD_PROTOCOL_CHANNEL_CONTROL OR WD_PROTOCOL_CHANNEL_INPUT OR WD_PROTOCOL_CHANNEL_SELECTION OR
     WD_PROTOCOL_CHANNEL_VIDEO OR WD_PROTOCOL_CHANNEL_AUDIO OR WD_PROTOCOL_CHANNEL_AUX_HANDSHAKE"

definition phase_mask :: u32 where
  "phase_mask = WD_PROTOCOL_PHASE_NEGOTIATION OR WD_PROTOCOL_PHASE_ESTABLISHED"

definition direction_mask :: u32 where
  "direction_mask = WD_PROTOCOL_CLIENT_TO_SERVER OR WD_PROTOCOL_SERVER_TO_CLIENT"

definition routes_to :: "u32 \<Rightarrow> u32 \<Rightarrow> u32 \<Rightarrow> wd_protocol_message_descriptor \<Rightarrow> bool" where
  "routes_to channel phase direction d \<longleftrightarrow>
     md_channels d AND channel \<noteq> 0 \<and> md_phases d AND phase \<noteq> 0 \<and> md_directions d AND direction \<noteq> 0"

definition wd_protocol_message_allowed :: "u16 \<Rightarrow> u32 \<Rightarrow> u32 \<Rightarrow> u32 \<Rightarrow> u32 \<Rightarrow> bool" where
  "wd_protocol_message_allowed message_type channel phase direction payload_size \<longleftrightarrow>
     (if \<not> wd_protocol_route_is_concrete channel channel_mask \<or> \<not> wd_protocol_route_is_concrete phase phase_mask \<or>
         \<not> wd_protocol_route_is_concrete direction direction_mask
      then False
      else
        (case wd_protocol_message_descriptor_find message_type of
           None \<Rightarrow> False
         | Some d \<Rightarrow> routes_to channel phase direction d \<and> wd_protocol_descriptor_size_is_valid (Some d) payload_size))"

fun max_payload_scan :: "u32 \<Rightarrow> u32 \<Rightarrow> u32 \<Rightarrow> wd_protocol_message_descriptor list \<Rightarrow> u32 \<Rightarrow> u32" where
  "max_payload_scan channel phase direction [] maximum = maximum"
| "max_payload_scan channel phase direction (d # ds) maximum =
     max_payload_scan channel phase direction ds
       (if routes_to channel phase direction d \<and> md_maximum_payload_size d > maximum
        then md_maximum_payload_size d else maximum)"

definition wd_protocol_channel_max_payload :: "u32 \<Rightarrow> u32 \<Rightarrow> u32 \<Rightarrow> u32" where
  "wd_protocol_channel_max_payload channel phase direction =
     (if \<not> wd_protocol_route_is_concrete channel channel_mask \<or> \<not> wd_protocol_route_is_concrete phase phase_mask \<or>
         \<not> wd_protocol_route_is_concrete direction direction_mask
      then 0 else max_payload_scan channel phase direction wd_message_descriptors 0)"

definition wd_protocol_message_name :: "u16 \<Rightarrow> string" where
  "wd_protocol_message_name message_type =
     (case wd_protocol_message_descriptor_find message_type of None \<Rightarrow> ''WD_MSG_UNKNOWN'' | Some d \<Rightarrow> md_name d)"

text \<open>\<open>src/src/common/wd_protocol_codec.c\<close>: payload checks before sending.\<close>

definition wd_protocol_payload_validate :: "u16 \<Rightarrow> bytes option \<Rightarrow> u32 \<Rightarrow> bool" where
  "wd_protocol_payload_validate message_type payload payload_size \<longleftrightarrow>
     (if payload_size \<noteq> 0 \<and> payload = None then False else wd_protocol_payload_size_is_valid message_type payload_size)"

definition wd_protocol_payload_wire_size :: "u16 \<Rightarrow> bytes option \<Rightarrow> u32 \<Rightarrow> u32 option" where
  "wd_protocol_payload_wire_size message_type payload payload_size =
     (if \<not> wd_protocol_payload_validate message_type payload payload_size then None else Some payload_size)"

section \<open>Properties\<close>

lemma max_payload_scan_mono: "maximum \<le> max_payload_scan c p d ds maximum"
proof (induction ds arbitrary: maximum)
  case (Cons y ds)
  let ?m = "if routes_to c p d y \<and> md_maximum_payload_size y > maximum then md_maximum_payload_size y else maximum"
  have "maximum \<le> ?m" by auto
  from order_trans [OF this Cons.IH [of ?m]] show ?case by simp
qed simp

lemma max_payload_scan_ge:
  "x \<in> set ds \<Longrightarrow> routes_to c p d x \<Longrightarrow> md_maximum_payload_size x \<le> max_payload_scan c p d ds maximum"
proof (induction ds arbitrary: maximum)
  case (Cons y ds)
  let ?m = "if routes_to c p d y \<and> md_maximum_payload_size y > maximum then md_maximum_payload_size y else maximum"
  show ?case
  proof (cases "x = y")
    case True
    then have "md_maximum_payload_size x \<le> ?m" using Cons.prems(2) by (auto simp: not_less)
    from order_trans [OF this max_payload_scan_mono [of ?m c p d ds]] show ?thesis by simp
  next
    case False
    then have "x \<in> set ds" using Cons.prems(1) by simp
    from Cons.IH [OF this Cons.prems(2), of ?m] show ?thesis by simp
  qed
qed simp

lemma find_in_table:
  "wd_protocol_message_descriptor_find t = Some d \<Longrightarrow> d \<in> set wd_message_descriptors \<and> md_message_type d = t"
  unfolding wd_protocol_message_descriptor_find_def by (auto simp: find_Some_iff)

text \<open>
  C18: A receiver that accepts frames up to \<open>wd_protocol_channel_max_payload\<close> never has to refuse a
  message that the protocol allows there: every allowed message fits that limit.
\<close>

theorem allowed_message_fits_channel_limit:
  assumes "wd_protocol_message_allowed t channel phase direction n"
  shows "n \<le> wd_protocol_channel_max_payload channel phase direction"
proof -
  let ?c = "\<not> wd_protocol_route_is_concrete channel channel_mask \<or> \<not> wd_protocol_route_is_concrete phase phase_mask \<or>
      \<not> wd_protocol_route_is_concrete direction direction_mask"
  from assms have c: "\<not> ?c" unfolding wd_protocol_message_allowed_def by (metis (full_types))
  from assms obtain d where d: "wd_protocol_message_descriptor_find t = Some d" "routes_to channel phase direction d"
      "wd_protocol_descriptor_size_is_valid (Some d) n"
    unfolding wd_protocol_message_allowed_def if_not_P [OF c] by (auto split: option.splits)
  have "n \<le> md_maximum_payload_size d"
    using d(3) by (auto simp: wd_protocol_descriptor_size_is_valid_def not_less split: if_splits)
  also have "\<dots> \<le> max_payload_scan channel phase direction wd_message_descriptors 0"
    using max_payload_scan_ge find_in_table [OF d(1)] d(2) by blast
  finally show ?thesis unfolding wd_protocol_channel_max_payload_def if_not_P [OF c] .
qed


theorem allowed_message_fits_channel_limit_witness:
  "wd_protocol_message_allowed WD_MSG_CURSOR_SHAPE WD_PROTOCOL_CHANNEL_CONTROL WD_PROTOCOL_PHASE_ESTABLISHED
     WD_PROTOCOL_SERVER_TO_CLIENT 11 \<and>
   11 \<le> wd_protocol_channel_max_payload WD_PROTOCOL_CHANNEL_CONTROL WD_PROTOCOL_PHASE_ESTABLISHED WD_PROTOCOL_SERVER_TO_CLIENT"
proof -
  have a: "wd_protocol_message_allowed 13 1 2 2 11" by code_simp
  from allowed_message_fits_channel_limit [OF a] a show ?thesis by simp
qed

lemma table_types: "map md_message_type wd_message_descriptors = map word_of_nat [1..<32]"
  by code_simp

lemma table_channels: "list_all (\<lambda>d. md_channels d \<in> {1, 2, 4, 8, 16, 32}) wd_message_descriptors"
  by code_simp

lemma concrete_channels:
  "list_all (\<lambda>c. wd_protocol_route_is_concrete c channel_mask \<longrightarrow> c \<in> {1, 2, 4, 8, 16, 32}) (map word_of_nat [0..<64])"
  by code_simp


lemma concrete_channel_cases:
  assumes "wd_protocol_route_is_concrete c channel_mask"
  shows "c \<in> {1, 2, 4, 8, 16, 32}"
proof -
  have "channel_mask = mask 6" by (simp add: channel_mask_def mask_numeral)
  then have "unat c < 64" using assms and_not_mask_small [of c 6] by (simp add: wd_protocol_route_is_concrete_def)
  then have "c \<in> set (map word_of_nat [0..<64])"
    by (auto intro!: image_eqI [of _ _ "unat c"])
  then show ?thesis using concrete_channels assms unfolding list_all_iff by blast
qed

lemma find_iff_type:
  "wd_protocol_message_descriptor_find t \<noteq> None \<longleftrightarrow> 1 \<le> unat t \<and> unat t \<le> 31"
proof -
  have "wd_protocol_message_descriptor_find t \<noteq> None \<longleftrightarrow> t \<in> md_message_type ` set wd_message_descriptors"
    by (auto simp: wd_protocol_message_descriptor_find_def find_None_iff)
  also have "md_message_type ` set wd_message_descriptors = word_of_nat ` {1..<32}"
    using arg_cong [OF table_types, of set] by simp
  also have "t \<in> word_of_nat ` {1..<32} \<longleftrightarrow> 1 \<le> unat t \<and> unat t \<le> 31"
  proof
    assume "t \<in> word_of_nat ` {1..<32}"
    then obtain k where "t = word_of_nat k" "1 \<le> k" "k < 32" by auto
    then show "1 \<le> unat t \<and> unat t \<le> 31" by (simp add: unat_word_of_nat)
  next
    assume "1 \<le> unat t \<and> unat t \<le> 31"
    then show "t \<in> word_of_nat ` {1..<32}" by (intro image_eqI [of _ _ "unat t"]) auto
  qed
  finally show ?thesis .
qed



end
