(* ===== verification/WD_Refine.thy ===== *)
theory WD_Refine
  imports WD_Prelude
begin

text \<open>
  Interfaces shared by the stateful components. \<open>data_refinement\<close> is the contract between
  a C object and the abstract value it stands for: each operation, from a state that
  satisfies the object's invariant, makes no invalid memory access, returns what the
  abstract operation returns and keeps the invariant. Its client lemmas lift this to
  sequences of operations. The second part is the ring buffer: a window of \<open>n\<close> slots,
  starting at \<open>r\<close>, of an array used cyclically, read as a list.
\<close>

section \<open>Data refinement\<close>

fun run_steps :: "('op \<Rightarrow> 'c \<Rightarrow> ('r \<times> 'c) option) \<Rightarrow> 'op list \<Rightarrow> 'c \<Rightarrow> ('r list \<times> 'c) option" where
  "run_steps step [] c = Some ([], c)"
| "run_steps step (p # ps) c =
     (case step p c of None \<Rightarrow> None
      | Some (r, c') \<Rightarrow>
          (case run_steps step ps c' of None \<Rightarrow> None
           | Some (rs, c'') \<Rightarrow> Some (r # rs, c'')))"

fun run_spec :: "('op \<Rightarrow> 'a \<Rightarrow> 'r \<times> 'a) \<Rightarrow> 'op list \<Rightarrow> 'a \<Rightarrow> 'r list \<times> 'a" where
  "run_spec spec [] a = ([], a)"
| "run_spec spec (p # ps) a =
     (let (r, a') = spec p a; (rs, a'') = run_spec spec ps a' in (r # rs, a''))"

fun spec_ok :: "('op \<Rightarrow> 'a \<Rightarrow> bool) \<Rightarrow> ('op \<Rightarrow> 'a \<Rightarrow> 'r \<times> 'a) \<Rightarrow> 'op list \<Rightarrow> 'a \<Rightarrow> bool" where
  "spec_ok pre spec [] a = True"
| "spec_ok pre spec (p # ps) a = (pre p a \<and> spec_ok pre spec ps (snd (spec p a)))"

lemma spec_ok_True [simp]: "spec_ok (\<lambda>_ _. True) spec ps a"
  by (induction ps arbitrary: a) auto

locale data_refinement =
  fixes step :: "'op \<Rightarrow> 'c \<Rightarrow> ('r \<times> 'c) option"
    and spec :: "'op \<Rightarrow> 'a \<Rightarrow> 'r \<times> 'a"
    and pre :: "'op \<Rightarrow> 'a \<Rightarrow> bool"
    and invar :: "'c \<Rightarrow> bool"
    and absf :: "'c \<Rightarrow> 'a"
  assumes step_refines:
    "\<lbrakk>invar c; pre p (absf c)\<rbrakk> \<Longrightarrow>
       \<exists>r c'. step p c = Some (r, c') \<and> invar c' \<and> spec p (absf c) = (r, absf c')"
begin

lemma run_refines:
  "\<lbrakk>invar c; spec_ok pre spec ps (absf c)\<rbrakk> \<Longrightarrow>
     \<exists>rs c'. run_steps step ps c = Some (rs, c') \<and> invar c' \<and> run_spec spec ps (absf c) = (rs, absf c')"
proof (induction ps arbitrary: c)
  case Nil
  then show ?case by simp
next
  case (Cons p ps)
  from Cons.prems step_refines [of c p] obtain r c' where
    1: "step p c = Some (r, c')" "invar c'" "spec p (absf c) = (r, absf c')" by auto
  with Cons.prems have "spec_ok pre spec ps (absf c')" by simp
  with Cons.IH [OF 1(2)] obtain rs c'' where
    "run_steps step ps c' = Some (rs, c'')" "invar c''" "run_spec spec ps (absf c') = (rs, absf c'')"
    by blast
  with 1 show ?case by simp
qed

lemma run_invar:
  "\<lbrakk>invar c; spec_ok pre spec ps (absf c); run_steps step ps c = Some (rs, c')\<rbrakk> \<Longrightarrow> invar c'"
  using run_refines by fastforce

end

section \<open>Ring buffers\<close>

definition ring_elems :: "'a list \<Rightarrow> nat \<Rightarrow> nat \<Rightarrow> nat \<Rightarrow> 'a list" where
  "ring_elems st cap r n = map (\<lambda>i. st ! ((r + i) mod cap)) [0..<n]"

lemma length_ring_elems [simp]: "length (ring_elems st cap r n) = n"
  by (simp add: ring_elems_def)

lemma ring_elems_0 [simp]: "ring_elems st cap r 0 = []"
  by (simp add: ring_elems_def)

lemma ring_elems_nth: "i < n \<Longrightarrow> ring_elems st cap r n ! i = st ! ((r + i) mod cap)"
  by (simp add: ring_elems_def)

lemma ring_elems_mod [simp]: "ring_elems st cap (r mod cap) n = ring_elems st cap r n"
  by (simp add: ring_elems_def mod_simps)

lemma ring_slot_neq:
  fixes i j r cap :: nat
  assumes "i < j" "j < cap"
  shows "(r + i) mod cap \<noteq> (r + j) mod cap"
proof
  assume "(r + i) mod cap = (r + j) mod cap"
  then have "cap dvd (r + j) - (r + i)" using assms by (metis mod_eq_dvd_iff_nat add_left_mono less_imp_le)
  with assms show False by (auto dest: dvd_imp_le)
qed

lemma ring_elems_push:
  assumes "n < cap" "cap \<le> length st"
  shows "ring_elems (st[(r + n) mod cap := x]) cap r (Suc n) = ring_elems st cap r n @ [x]"
proof (rule nth_equalityI)
  fix i assume "i < length (ring_elems (st[(r + n) mod cap := x]) cap r (Suc n))"
  then have i: "i < n \<or> i = n" by auto
  have "(r + n) mod cap < length st" using assms by (metis less_le_trans mod_less_divisor neq0_conv not_less0)
  with i ring_slot_neq [of i n cap r] assms
  show "ring_elems (st[(r + n) mod cap := x]) cap r (Suc n) ! i = (ring_elems st cap r n @ [x]) ! i"
    by (auto simp: ring_elems_nth nth_append)
qed simp

lemma ring_elems_pop:
  "ring_elems st cap r (Suc n) = st ! (r mod cap) # ring_elems st cap (Suc r) n"
  by (simp add: ring_elems_def upt_conv_Cons map_Suc_upt [symmetric] del: upt_Suc)

lemma ring_elems_append:
  "ring_elems st cap r (m + n) = ring_elems st cap r m @ ring_elems st cap (r + m) n"
  by (induction m arbitrary: r) (auto simp: ring_elems_pop)

end
