(* ===== verification/WD_Completion_Queue.thy ===== *)
theory WD_Completion_Queue
  imports WD_Refine
begin

text \<open>
  The encode completion queue (\<open>src/src/server/wd_encode_completion_queue.c\<close>): a ring of
  16-bit job indices through which encoder workers hand finished jobs to the stream
  thread. The record has the fields of the C structure; \<open>storage\<close> is \<open>None\<close> for a null
  pointer. An operation is \<open>None\<close> when it would access the storage out of bounds.
\<close>

record wd_encode_completion_queue =
  storage :: "u16 list option"
  capacity :: u16
  read_index :: u16
  write_index :: u16
  count :: u16

definition wd_encode_completion_queue_init :: "u16 list option \<Rightarrow> u16 \<Rightarrow> wd_encode_completion_queue" where
  "wd_encode_completion_queue_init st cap =
     \<lparr>storage = st, capacity = cap, read_index = 0, write_index = 0, count = 0\<rparr>"

text \<open>\<open>(uint16_t)((index + 1u) % capacity)\<close>, computed as an \<open>unsigned int\<close>.\<close>

definition next_index :: "u16 \<Rightarrow> u16 \<Rightarrow> u16" where
  "next_index i cap = ucast ((ucast i + 1 :: u32) mod ucast cap)"

definition wd_encode_completion_queue_push ::
    "wd_encode_completion_queue \<Rightarrow> u16 \<Rightarrow> (bool \<times> wd_encode_completion_queue) option" where
  "wd_encode_completion_queue_push q job_index =
     (case storage q of None \<Rightarrow> Some (False, q)
      | Some st \<Rightarrow>
          if capacity q = 0 \<or> count q \<ge> capacity q \<or> job_index \<ge> capacity q then Some (False, q)
          else if unat (write_index q) < length st then
            Some (True, q\<lparr>storage := Some (st[unat (write_index q) := job_index]),
                          write_index := next_index (write_index q) (capacity q),
                          count := count q + 1\<rparr>)
          else None)"

definition wd_encode_completion_queue_pop ::
    "wd_encode_completion_queue \<Rightarrow> (u16 option \<times> wd_encode_completion_queue) option" where
  "wd_encode_completion_queue_pop q =
     (case storage q of None \<Rightarrow> Some (None, q)
      | Some st \<Rightarrow>
          if capacity q = 0 \<or> count q = 0 then Some (None, q)
          else
            (case rd st (unat (read_index q)) of None \<Rightarrow> None
             | Some job \<Rightarrow>
                 Some (Some job, q\<lparr>read_index := next_index (read_index q) (capacity q),
                                   count := count q - 1\<rparr>)))"

definition wd_encode_completion_queue_size :: "wd_encode_completion_queue option \<Rightarrow> u16" where
  "wd_encode_completion_queue_size q = (case q of None \<Rightarrow> 0 | Some q \<Rightarrow> count q)"

definition wd_encode_completion_queue_capacity :: "wd_encode_completion_queue option \<Rightarrow> u16" where
  "wd_encode_completion_queue_capacity q = (case q of None \<Rightarrow> 0 | Some q \<Rightarrow> capacity q)"

section \<open>Invariant and abstraction\<close>

definition cq_inv :: "wd_encode_completion_queue \<Rightarrow> bool" where
  "cq_inv q \<longleftrightarrow>
     (case storage q of None \<Rightarrow> False
      | Some st \<Rightarrow>
          unat (capacity q) \<le> length st \<and> count q \<le> capacity q \<and>
          (capacity q \<noteq> 0 \<longrightarrow>
             unat (read_index q) < unat (capacity q) \<and>
             unat (write_index q) = (unat (read_index q) + unat (count q)) mod unat (capacity q)) \<and>
          list_all (\<lambda>j. j < capacity q)
            (ring_elems st (unat (capacity q)) (unat (read_index q)) (unat (count q))))"

definition cq_abs :: "wd_encode_completion_queue \<Rightarrow> u16 \<times> u16 list" where
  "cq_abs q = (capacity q,
     ring_elems (the (storage q)) (unat (capacity q)) (unat (read_index q)) (unat (count q)))"

lemma unat_next_index:
  assumes "cap \<noteq> 0"
  shows "unat (next_index i cap) = (unat i + 1) mod unat cap"
proof -
  have i: "unat (ucast i + 1 :: u32) = unat i + 1"
    using unat_u16_lt [of i] by (simp add: unat_word_ariths)
  have "0 < unat cap" using assms by (simp add: unat_gt_0)
  then have "(unat i + 1) mod unat cap < unat cap" by simp
  moreover have "unat cap < 65536" by (rule unat_u16_lt)
  ultimately have "(unat i + 1) mod unat cap < 65536" by simp
  then show ?thesis by (simp add: next_index_def unat_ucast_small unat_mod i)
qed

datatype cq_op = Push u16 | Pop
datatype cq_res = Pushed bool | Popped "u16 option"

fun cq_step :: "cq_op \<Rightarrow> wd_encode_completion_queue \<Rightarrow> (cq_res \<times> wd_encode_completion_queue) option" where
  "cq_step (Push j) q = map_option (\<lambda>(b, q'). (Pushed b, q')) (wd_encode_completion_queue_push q j)"
| "cq_step Pop q = map_option (\<lambda>(j, q'). (Popped j, q')) (wd_encode_completion_queue_pop q)"

text \<open>The contract: a bounded first-in first-out list of valid job indices.\<close>

fun cq_spec :: "cq_op \<Rightarrow> u16 \<times> u16 list \<Rightarrow> cq_res \<times> (u16 \<times> u16 list)" where
  "cq_spec (Push j) (cap, xs) =
     (if length xs < unat cap \<and> j < cap then (Pushed True, (cap, xs @ [j])) else (Pushed False, (cap, xs)))"
| "cq_spec Pop (cap, []) = (Popped None, (cap, []))"
| "cq_spec Pop (cap, x # xs) = (Popped (Some x), (cap, xs))"

lemma cq_inv_init: "unat cap \<le> length st \<Longrightarrow> cq_inv (wd_encode_completion_queue_init (Some st) cap)"
  by (simp add: cq_inv_def wd_encode_completion_queue_init_def unat_gt_0)

lemma cq_push_refines:
  assumes inv: "cq_inv q"
  shows "\<exists>r q'. cq_step (Push j) q = Some (r, q') \<and> cq_inv q' \<and> cq_spec (Push j) (cq_abs q) = (r, cq_abs q')"
proof -
  from inv obtain st where st: "storage q = Some st" by (auto simp: cq_inv_def split: option.splits)
  let ?cap = "unat (capacity q)" and ?r = "unat (read_index q)" and ?n = "unat (count q)"
  show ?thesis
  proof (cases "count q < capacity q \<and> j < capacity q")
    case False
    then have "cq_step (Push j) q = Some (Pushed False, q)"
      by (auto simp: wd_encode_completion_queue_push_def st not_less)
    moreover have "cq_spec (Push j) (cq_abs q) = (Pushed False, cq_abs q)"
      using False by (auto simp: cq_abs_def word_less_nat_alt)
    ultimately show ?thesis using inv by blast
  next
    case True
    then have n: "?n < ?cap" and cap0: "capacity q \<noteq> 0" by (auto simp: word_less_nat_alt)
    with inv st have w: "unat (write_index q) = (?r + ?n) mod ?cap" and len: "?cap \<le> length st"
      and r: "?r < ?cap" and small: "list_all (\<lambda>j. j < capacity q) (ring_elems st ?cap ?r ?n)"
      by (auto simp: cq_inv_def)
    have cap1: "0 < ?cap" using n by simp
    have wlen: "(?r + ?n) mod ?cap < length st"
      using mod_less_divisor [OF cap1, of "?r + ?n"] len by (rule less_le_trans)
    have cnt: "unat (count q + 1) = Suc ?n"
      using n unat_u16_lt [of "capacity q"] by (simp add: unat_word_ariths)
    let ?q = "q\<lparr>storage := Some (st[unat (write_index q) := j]),
                write_index := next_index (write_index q) (capacity q), count := count q + 1\<rparr>"
    have els: "ring_elems (st[unat (write_index q) := j]) ?cap ?r (Suc ?n) = ring_elems st ?cap ?r ?n @ [j]"
      unfolding w by (rule ring_elems_push [OF n len])
    have step: "cq_step (Push j) q = Some (Pushed True, ?q)"
    proof -
      have "\<not> (capacity q = 0 \<or> count q \<ge> capacity q \<or> j \<ge> capacity q)" using True cap0 by (simp add: not_le)
      moreover have "unat (write_index q) < length st" using wlen w by simp
      ultimately show ?thesis unfolding cq_step.simps wd_encode_completion_queue_push_def st by simp
    qed
    have "unat (next_index (write_index q) (capacity q)) = (?r + Suc ?n) mod ?cap"
      by (simp add: unat_next_index [OF cap0] w mod_Suc_eq)
    then have "cq_inv ?q"
      using len r n True small by (simp add: cq_inv_def cnt els word_le_nat_alt)
    moreover have "cq_spec (Push j) (cq_abs q) = (Pushed True, cq_abs ?q)"
      using True n by (simp add: cq_abs_def cnt els st)
    ultimately show ?thesis using step by blast
  qed
qed

lemma cq_pop_refines:
  assumes inv: "cq_inv q"
  shows "\<exists>r q'. cq_step Pop q = Some (r, q') \<and> cq_inv q' \<and> cq_spec Pop (cq_abs q) = (r, cq_abs q')"
proof -
  from inv obtain st where st: "storage q = Some st" by (auto simp: cq_inv_def split: option.splits)
  let ?cap = "unat (capacity q)" and ?r = "unat (read_index q)"
  show ?thesis
  proof (cases "count q = 0")
    case True
    then have "cq_step Pop q = Some (Popped None, q)"
      by (simp add: wd_encode_completion_queue_pop_def st)
    moreover have "cq_spec Pop (cq_abs q) = (Popped None, cq_abs q)"
      using True by (simp add: cq_abs_def)
    ultimately show ?thesis using inv by blast
  next
    case False
    then obtain n where n: "unat (count q) = Suc n" by (metis not0_implies_Suc unat_eq_zero)
    with inv st have le: "Suc n \<le> ?cap" by (auto simp: cq_inv_def word_le_nat_alt)
    then have cap0: "capacity q \<noteq> 0" by auto
    with inv st n have w: "unat (write_index q) = (?r + Suc n) mod ?cap" and len: "?cap \<le> length st"
      and r: "?r < ?cap" and small: "list_all (\<lambda>j. j < capacity q) (ring_elems st ?cap ?r (Suc n))"
      by (auto simp: cq_inv_def)
    have cnt: "unat (count q - 1) = n" using False n by (simp add: unat_minus_one)
    let ?q = "q\<lparr>read_index := next_index (read_index q) (capacity q), count := count q - 1\<rparr>"
    have els: "ring_elems st ?cap ?r (Suc n) = st ! ?r # ring_elems st ?cap (Suc ?r) n"
      using r by (simp add: ring_elems_pop)
    have step: "cq_step Pop q = Some (Popped (Some (st ! ?r)), ?q)"
      using False cap0 r len by (simp add: wd_encode_completion_queue_pop_def st rd_def)
    have nxt: "unat (next_index (read_index q) (capacity q)) = Suc ?r mod ?cap"
      by (simp add: unat_next_index [OF cap0])
    have "cq_inv ?q"
      using len le small r by (simp add: cq_inv_def st cnt nxt els w word_le_nat_alt mod_add_left_eq)
    moreover have "cq_spec Pop (cq_abs q) = (Popped (Some (st ! ?r)), cq_abs ?q)"
      by (simp add: cq_abs_def cnt n els st nxt)
    ultimately show ?thesis using step by blast
  qed
qed

interpretation cq: data_refinement cq_step cq_spec "\<lambda>_ _. True" cq_inv cq_abs
proof unfold_locales
  fix c :: wd_encode_completion_queue and p
  assume "cq_inv c"
  then show "\<exists>r c'. cq_step p c = Some (r, c') \<and> cq_inv c' \<and> cq_spec p (cq_abs c) = (r, cq_abs c')"
    by (cases p) (use cq_push_refines cq_pop_refines in blast)+
qed


text \<open>
  C27: A completion queue initialised over a storage of at least \<open>cap\<close> entries behaves, for every
  sequence of pushes and pops, as a first-in first-out list bounded by \<open>cap\<close>: no access is out of
  bounds, each result is the list's, and the entries held are at most \<open>cap\<close> job indices below \<open>cap\<close>.
\<close>

theorem completion_queue_is_bounded_fifo:
  assumes "unat cap \<le> length st"
  shows "\<exists>rs q'. run_steps cq_step ops (wd_encode_completion_queue_init (Some st) cap) = Some (rs, q') \<and>
           run_spec cq_spec ops (cap, []) = (rs, cq_abs q') \<and>
           length (snd (cq_abs q')) \<le> unat (capacity q') \<and> list_all (\<lambda>j. j < capacity q') (snd (cq_abs q'))"
proof -
  let ?q = "wd_encode_completion_queue_init (Some st) cap"
  have "cq_abs ?q = (cap, [])" by (simp add: cq_abs_def wd_encode_completion_queue_init_def)
  with cq.run_refines [OF cq_inv_init [OF assms], of ops] obtain rs q' where
    r: "run_steps cq_step ops ?q = Some (rs, q')" "cq_inv q'" "run_spec cq_spec ops (cap, []) = (rs, cq_abs q')" by auto
  then have "length (snd (cq_abs q')) \<le> unat (capacity q') \<and> list_all (\<lambda>j. j < capacity q') (snd (cq_abs q'))"
    by (auto simp: cq_inv_def cq_abs_def word_le_nat_alt split: option.splits)
  with r show ?thesis by blast
qed

theorem completion_queue_is_bounded_fifo_witness:
  "\<exists>q'. run_steps cq_step [Push 1, Push 2, Push 0, Push 0, Pop, Push 1, Pop, Pop, Pop]
          (wd_encode_completion_queue_init (Some [0, 0]) 2) =
        Some ([Pushed True, Pushed False, Pushed True, Pushed False, Popped (Some 1), Pushed True,
               Popped (Some 0), Popped (Some 1), Popped None], q')"
  using completion_queue_is_bounded_fifo
    [of 2 "[0, 0]" "[Push 1, Push 2, Push 0, Push 0, Pop, Push 1, Pop, Pop, Pop]"]
  by auto

end
