(* ===== verification/WD_Audio_Ring.thy ===== *)
theory WD_Audio_Ring
  imports WD_Refine
begin

text \<open>
  The PCM ring between the audio capture thread and the encoder
  (\<open>src/src/server/wd_audio_ring.c\<close>). Cursors are 64-bit frame counts that only grow; the slot
  of a frame is its cursor modulo the capacity. A sample is a value of an arbitrary
  type: the code copies samples, writes silence (the parameter \<open>zero\<close>, \<open>0.0f\<close>) and
  averages two of them (the parameter \<open>mix\<close>, \<open>(left + right) * 0.5f\<close>).

  Null pointers are \<open>None\<close>; an operation is \<open>None\<close> when it would read or write outside a
  buffer. \<open>first_pts_sample\<close> and \<open>continuity\<close> are results of the read.
\<close>

record 'f wd_audio_pcm_ring =
  samples :: "'f list option"
  pts_samples :: "u64 list option"
  capacity_frames :: u32
  channels :: u8
  read_frame :: u64
  write_frame :: u64
  overruns :: u64

definition wd_audio_size_multiply :: "u64 \<Rightarrow> u64 \<Rightarrow> u64 option" where
  "wd_audio_size_multiply a b = (if a \<noteq> 0 \<and> b > UINT64_MAX div a then None else Some (a * b))"

definition wd_audio_pcm_ring_finish :: "'f wd_audio_pcm_ring" where
  "wd_audio_pcm_ring_finish =
     \<lparr>samples = None, pts_samples = None, capacity_frames = 0, channels = 0,
      read_frame = 0, write_frame = 0, overruns = 0\<rparr>"

text \<open>
  \<open>calloc_samples\<close> and \<open>calloc_pts\<close> say whether the two allocations succeed. The ring that
  the C function leaves behind is returned with the success flag; an argument error leaves
  the old ring \<open>r\<close>.
\<close>

definition wd_audio_pcm_ring_init ::
    "bool \<Rightarrow> bool \<Rightarrow> 'f \<Rightarrow> 'f wd_audio_pcm_ring \<Rightarrow> u32 \<Rightarrow> u8 \<Rightarrow> bool \<times> 'f wd_audio_pcm_ring" where
  "wd_audio_pcm_ring_init calloc_samples calloc_pts zero r cap chs =
     (if cap = 0 \<or> chs = 0 \<or> chs > 2 then (False, r)
      else
        (case wd_audio_size_multiply (ucast cap) (ucast chs) of
           None \<Rightarrow> (False, wd_audio_pcm_ring_finish)
         | Some sample_count \<Rightarrow>
             (case wd_audio_size_multiply sample_count 4 of
                None \<Rightarrow> (False, wd_audio_pcm_ring_finish)
              | Some sample_bytes \<Rightarrow>
                  (case wd_audio_size_multiply (ucast cap) 8 of
                     None \<Rightarrow> (False, wd_audio_pcm_ring_finish)
                   | Some pts_bytes \<Rightarrow>
                       if \<not> calloc_samples \<or> \<not> calloc_pts then (False, wd_audio_pcm_ring_finish)
                       else
                         (True,
                          \<lparr>samples = Some (replicate (unat sample_bytes div 4) zero),
                           pts_samples = Some (replicate (unat pts_bytes div 8) 0),
                           capacity_frames = cap, channels = chs,
                           read_frame = 0, write_frame = 0, overruns = 0\<rparr>)))))"

definition wd_audio_pcm_ring_reset :: "'f wd_audio_pcm_ring \<Rightarrow> 'f wd_audio_pcm_ring" where
  "wd_audio_pcm_ring_reset r = r\<lparr>read_frame := 0, write_frame := 0\<rparr>"

definition wd_audio_pcm_ring_drop_all :: "'f wd_audio_pcm_ring \<Rightarrow> 'f wd_audio_pcm_ring" where
  "wd_audio_pcm_ring_drop_all r = r\<lparr>read_frame := write_frame r\<rparr>"

section \<open>Writing\<close>

text \<open>\<open>(uint32_t)((cursor + frame) % capacity_frames)\<close>\<close>

definition slot_of :: "u64 \<Rightarrow> nat \<Rightarrow> u32 \<Rightarrow> u32" where
  "slot_of cursor k cap = ucast ((cursor + word_of_nat k) mod ucast cap)"

text \<open>
  The loops of the three writers differ only in where the samples of frame \<open>k\<close> come
  from; \<open>src k\<close> is that, and the loop stores them with the frame's time stamp.
\<close>

definition put_frame :: "'f list \<Rightarrow> u64 \<Rightarrow> u32 \<Rightarrow> 'f wd_audio_pcm_ring \<Rightarrow> 'f wd_audio_pcm_ring option" where
  "put_frame fr pts slot r =
     (case (samples r, pts_samples r) of
        (Some ss, Some ps) \<Rightarrow>
          (case wr_range ss (unat slot * unat (channels r)) fr of
             None \<Rightarrow> None
           | Some ss' \<Rightarrow>
               if unat slot < length ps
               then Some (r\<lparr>samples := Some ss', pts_samples := Some (ps[unat slot := pts])\<rparr>)
               else None)
      | _ \<Rightarrow> None)"

fun write_frames ::
    "(nat \<Rightarrow> 'f list option) \<Rightarrow> u64 \<Rightarrow> u64 \<Rightarrow> nat list \<Rightarrow> 'f wd_audio_pcm_ring \<Rightarrow> 'f wd_audio_pcm_ring option" where
  "write_frames src wr pts [] r = Some r"
| "write_frames src wr pts (k # ks) r =
     (case src k of
        None \<Rightarrow> None
      | Some fr \<Rightarrow>
          (case put_frame fr (pts + word_of_nat k) (slot_of wr k (capacity_frames r)) r of
             None \<Rightarrow> None
           | Some r' \<Rightarrow> write_frames src wr pts ks r'))"

definition ring_full :: "'f wd_audio_pcm_ring \<Rightarrow> u32 \<Rightarrow> bool" where
  "ring_full r frames \<longleftrightarrow>
     write_frame r - read_frame r > ucast (capacity_frames r) \<or>
     frames > capacity_frames r - ucast (write_frame r - read_frame r)"

definition write_block ::
    "(nat \<Rightarrow> 'f list option) \<Rightarrow> u32 \<Rightarrow> u64 \<Rightarrow> 'f wd_audio_pcm_ring \<Rightarrow> (bool \<times> 'f wd_audio_pcm_ring) option" where
  "write_block src frames pts r =
     (if ring_full r frames then Some (False, r\<lparr>overruns := overruns r + 1\<rparr>)
      else
        (case write_frames src (write_frame r) pts [0..<unat frames] r of
           None \<Rightarrow> None
         | Some r' \<Rightarrow> Some (True, r'\<lparr>write_frame := write_frame r + ucast frames\<rparr>)))"

definition wd_audio_pcm_ring_write ::
    "'f wd_audio_pcm_ring \<Rightarrow> 'f list option \<Rightarrow> u32 \<Rightarrow> u64 \<Rightarrow> (bool \<times> 'f wd_audio_pcm_ring) option" where
  "wd_audio_pcm_ring_write r input frames first_pts =
     (case (samples r, pts_samples r, input) of
        (Some _, Some _, Some inp) \<Rightarrow>
          if frames = 0 \<or> frames > capacity_frames r then Some (False, r)
          else write_block (\<lambda>k. rd_range inp (k * unat (channels r)) (unat (channels r))) frames first_pts r
      | _ \<Rightarrow> Some (False, r))"

definition capture_frame :: "('f \<Rightarrow> 'f \<Rightarrow> 'f) \<Rightarrow> 'f \<Rightarrow> u8 \<Rightarrow> bool \<Rightarrow> u8 \<Rightarrow> 'f list \<Rightarrow> nat \<Rightarrow> 'f list option" where
  "capture_frame mix zero source_channels silent chs inp k =
     (if silent then Some (replicate (unat chs) zero)
      else if source_channels = chs then rd_range inp (k * unat source_channels) (unat chs)
      else
        (case (rd inp (k * 2), rd inp (k * 2 + 1)) of
           (Some left, Some right) \<Rightarrow> Some [mix left right]
         | _ \<Rightarrow> None))"

definition wd_audio_pcm_ring_write_capture ::
    "('f \<Rightarrow> 'f \<Rightarrow> 'f) \<Rightarrow> 'f \<Rightarrow> 'f wd_audio_pcm_ring \<Rightarrow> 'f list option \<Rightarrow> u32 \<Rightarrow> u8 \<Rightarrow> bool \<Rightarrow> u64 \<Rightarrow>
       (bool \<times> 'f wd_audio_pcm_ring) option" where
  "wd_audio_pcm_ring_write_capture mix zero r input frames source_channels silent first_pts =
     (if samples r = None \<or> pts_samples r = None \<or> frames = 0 \<or> frames > capacity_frames r \<or>
         source_channels = 0 \<or> source_channels > 2 \<or> (\<not> silent \<and> input = None) then Some (False, r)
      else if \<not> silent \<and> source_channels \<noteq> channels r \<and> \<not> (source_channels = 2 \<and> channels r = 1)
      then Some (False, r)
      else
        write_block
          (capture_frame mix zero source_channels silent (channels r) (case input of None \<Rightarrow> [] | Some i \<Rightarrow> i))
          frames first_pts r)"

text \<open>\<open>planes\<close> is the array of channel pointers.\<close>

definition planar_frame :: "u8 \<Rightarrow> 'f list option list \<Rightarrow> nat \<Rightarrow> 'f list option" where
  "planar_frame chs planes k =
     those (map (\<lambda>c. case rd planes c of Some (Some plane) \<Rightarrow> rd plane k | _ \<Rightarrow> None) [0..<unat chs])"

definition wd_audio_pcm_ring_write_planar ::
    "'f wd_audio_pcm_ring \<Rightarrow> 'f list option list option \<Rightarrow> u32 \<Rightarrow> u64 \<Rightarrow> (bool \<times> 'f wd_audio_pcm_ring) option" where
  "wd_audio_pcm_ring_write_planar r planes frames first_pts =
     (case (samples r, pts_samples r, planes) of
        (Some _, Some _, Some pl) \<Rightarrow>
          if frames = 0 \<or> frames > capacity_frames r then Some (False, r)
          else if length pl < unat (channels r) then None
          else if list_ex (\<lambda>p. p = None) (take (unat (channels r)) pl) then Some (False, r)
          else write_block (planar_frame (channels r) pl) frames first_pts r
      | _ \<Rightarrow> Some (False, r))"

section \<open>Reading\<close>

record 'f read_result =
  frames_read :: u32
  out_samples :: "'f list"
  first_pts_sample :: u64
  continuity :: bool

text \<open>The read loop, with its locals \<open>contiguous\<close>, \<open>first\<close>, \<open>previous\<close> and the output so far.\<close>

fun read_frames ::
    "'f wd_audio_pcm_ring \<Rightarrow> 'f list \<Rightarrow> u64 list \<Rightarrow> nat list \<Rightarrow> bool \<Rightarrow> u64 \<Rightarrow> u64 \<Rightarrow> 'f list \<Rightarrow>
       (bool \<times> u64 \<times> 'f list) option" where
  "read_frames r ss ps [] contiguous first previous out = Some (contiguous, first, out)"
| "read_frames r ss ps (k # ks) contiguous first previous out =
     (let slot = unat (slot_of (read_frame r) k (capacity_frames r)) in
      case (rd ps slot, rd_range ss (slot * unat (channels r)) (unat (channels r))) of
        (Some pts, Some fr) \<Rightarrow>
          read_frames r ss ps ks
            (if k = 0 then contiguous else if pts \<noteq> previous + 1 then False else contiguous)
            (if k = 0 then pts else first) pts (out @ fr)
      | _ \<Rightarrow> None)"

definition wd_audio_pcm_ring_read ::
    "'f wd_audio_pcm_ring \<Rightarrow> u32 \<Rightarrow> ('f read_result option \<times> 'f wd_audio_pcm_ring) option" where
  "wd_audio_pcm_ring_read r frames =
     (case (samples r, pts_samples r) of
        (Some ss, Some ps) \<Rightarrow>
          if frames = 0 \<or> write_frame r - read_frame r < ucast frames then Some (None, r)
          else
            (case read_frames r ss ps [0..<unat frames] True 0 0 [] of
               None \<Rightarrow> None
             | Some (contiguous, first, out) \<Rightarrow>
                 Some (Some \<lparr>frames_read = frames, out_samples = out, first_pts_sample = first, continuity = contiguous\<rparr>,
                       r\<lparr>read_frame := read_frame r + ucast frames\<rparr>))
      | _ \<Rightarrow> Some (None, r))"

definition wd_audio_pcm_ring_queued_frames :: "'f wd_audio_pcm_ring option \<Rightarrow> u32" where
  "wd_audio_pcm_ring_queued_frames ring =
     (case ring of
        None \<Rightarrow> 0
      | Some r \<Rightarrow>
          let queued = (if write_frame r \<ge> read_frame r then write_frame r - read_frame r else 0)
          in if queued > UINT32_MAX then UINT32_MAX else ucast queued)"

definition wd_audio_pcm_ring_overruns :: "'f wd_audio_pcm_ring option \<Rightarrow> u64" where
  "wd_audio_pcm_ring_overruns ring = (case ring of None \<Rightarrow> 0 | Some r \<Rightarrow> overruns r)"

section \<open>Invariant and abstraction\<close>

definition ring_inv :: "'f wd_audio_pcm_ring \<Rightarrow> bool" where
  "ring_inv r \<longleftrightarrow>
     samples r \<noteq> None \<and> length (the (samples r)) = unat (capacity_frames r) * unat (channels r) \<and>
     pts_samples r \<noteq> None \<and> length (the (pts_samples r)) = unat (capacity_frames r) \<and>
     capacity_frames r \<noteq> 0 \<and> (channels r = 1 \<or> channels r = 2) \<and>
     unat (read_frame r) \<le> unat (write_frame r) \<and>
     unat (write_frame r) - unat (read_frame r) \<le> unat (capacity_frames r)"

text \<open>Slot \<open>s\<close> of the two arrays, as one frame: its samples and its time stamp.\<close>

definition slots :: "'f wd_audio_pcm_ring \<Rightarrow> ('f list \<times> u64) list" where
  "slots r = map (\<lambda>s. (take (unat (channels r)) (drop (s * unat (channels r)) (the (samples r))), the (pts_samples r) ! s))
               [0..<unat (capacity_frames r)]"

definition queued :: "'f wd_audio_pcm_ring \<Rightarrow> ('f list \<times> u64) list" where
  "queued r = ring_elems (slots r) (unat (capacity_frames r)) (unat (read_frame r))
                (unat (write_frame r) - unat (read_frame r))"


lemma length_slots [simp]: "length (slots r) = unat (capacity_frames r)"
  by (simp add: slots_def)

lemma unat_slot_of:
  assumes "cap \<noteq> 0" and "unat cursor + k < 2 ^ 64"
  shows "unat (slot_of cursor k cap) = (unat cursor + k) mod unat cap"
proof -
  have c: "unat (cursor + word_of_nat k) = unat cursor + k"
    using assms(2) by (simp add: unat_word_ariths unat_word_of_nat)
  have "0 < unat cap" using assms(1) by (simp add: unat_gt_0)
  then have "(unat cursor + k) mod unat cap < unat cap" by simp
  also have "unat cap < 4294967296" by (rule unat_u32_lt)
  finally show ?thesis by (simp add: slot_of_def unat_ucast_small unat_mod c)
qed

lemma take_drop_wr_range:
  assumes w: "wr_range ss (s * c) fr = Some ss'" and l: "length fr = c" "length ss = n * c" and t: "t < n" "s < n"
  shows "take c (drop (t * c) ss') = (if t = s then fr else take c (drop (t * c) ss))"
proof (rule nth_equalityI)
  have len: "length ss' = n * c" using length_wr_range [OF w] l by simp
  have tc: "t * c + c \<le> n * c" "s * c + c \<le> n * c"
    using mult_le_mono1 [of "Suc t" n c] mult_le_mono1 [of "Suc s" n c] t by simp_all
  then show "length (take c (drop (t * c) ss')) = length (if t = s then fr else take c (drop (t * c) ss))"
    using len l by simp
  fix i assume "i < length (take c (drop (t * c) ss'))"
  then have i: "i < c" by simp
  have apart: "t \<noteq> s \<Longrightarrow> t * c + i < s * c \<or> s * c + c \<le> t * c + i"
    using i mult_le_mono1 [of "Suc t" s c] mult_le_mono1 [of "Suc s" t c] by (cases "t < s") auto
  have "t * c + i < length ss" using i tc l by simp
  moreover have "take c (drop (t * c) xs) ! i = xs ! (t * c + i)" if "length xs = n * c" for xs :: "'a list"
    by (subst nth_take [OF i], rule nth_drop) (use that tc in linarith)
  ultimately show "take c (drop (t * c) ss') ! i = (if t = s then fr else take c (drop (t * c) ss)) ! i"
    using nth_wr_range [OF w] i len l apart by auto
qed

text \<open>What the writers keep: everything but the sample buffers.\<close>

definition same_frame :: "'f wd_audio_pcm_ring \<Rightarrow> 'f wd_audio_pcm_ring \<Rightarrow> bool" where
  "same_frame r r' \<longleftrightarrow>
     capacity_frames r' = capacity_frames r \<and> channels r' = channels r \<and> read_frame r' = read_frame r \<and>
     write_frame r' = write_frame r \<and> overruns r' = overruns r"

lemma put_frame_ok:
  assumes inv: "ring_inv r" and s: "unat slot < unat (capacity_frames r)" and l: "length fr = unat (channels r)"
  shows "\<exists>r'. put_frame fr pts slot r = Some r' \<and> ring_inv r' \<and> same_frame r r' \<and>
              slots r' = (slots r)[unat slot := (fr, pts)]"
proof -
  let ?s = "unat slot" and ?c = "unat (channels r)" and ?n = "unat (capacity_frames r)"
  from inv obtain ss ps where ss: "samples r = Some ss" "length ss = ?n * ?c"
    and ps: "pts_samples r = Some ps" "length ps = ?n"
    by (auto simp: ring_inv_def split: option.splits)
  have "?s * ?c + ?c \<le> ?n * ?c" using mult_le_mono1 [of "Suc ?s" ?n ?c] s by simp
  then obtain ss' where w: "wr_range ss (?s * ?c) fr = Some ss'" using ss l by (simp add: wr_range_def)
  let ?r = "r\<lparr>samples := Some ss', pts_samples := Some (ps[?s := pts])\<rparr>"
  have "put_frame fr pts slot r = Some ?r" using ss ps w s by (simp add: put_frame_def)
  moreover have "ring_inv ?r"
    using inv length_wr_range [OF w] ss ps by (simp add: ring_inv_def)
  moreover have "slots ?r = (slots r)[?s := (fr, pts)]"
  proof (rule nth_equalityI)
    fix t assume "t < length (slots ?r)"
    then have "t < ?n" by simp
    then show "slots ?r ! t = (slots r)[?s := (fr, pts)] ! t"
      using take_drop_wr_range [OF w l ss(2) _ s, of t] s ss ps
      by (cases "t = ?s") (simp_all add: slots_def)
  qed simp
  ultimately show ?thesis by (auto simp: same_frame_def)
qed

lemma write_frames_ok:
  assumes "ring_inv r" and "\<And>k. k < a + m \<Longrightarrow> src k = Some (f k) \<and> length (f k) = unat (channels r)"
    and "unat wr = rp + q" and "q + a + m \<le> unat (capacity_frames r)" and "unat wr + a + m \<le> 2 ^ 64"
  shows "\<exists>r'. write_frames src wr pts [a..<a + m] r = Some r' \<and> ring_inv r' \<and> same_frame r r' \<and>
           ring_elems (slots r') (unat (capacity_frames r)) rp (q + a + m) =
             ring_elems (slots r) (unat (capacity_frames r)) rp (q + a) @
             map (\<lambda>k. (f k, pts + word_of_nat k)) [a..<a + m]"
  using assms
proof (induction m arbitrary: a r)
  case 0
  then show ?case by (simp add: same_frame_def)
next
  case (Suc m)
  let ?n = "unat (capacity_frames r)"
  let ?slot = "slot_of wr a (capacity_frames r)"
  have cap: "capacity_frames r \<noteq> 0" using Suc.prems(1) by (simp add: ring_inv_def)
  then have n0: "0 < ?n" by (simp add: unat_gt_0)
  have slot: "unat ?slot = (rp + (q + a)) mod ?n"
    using unat_slot_of [OF cap, of wr a] Suc.prems(3,5) by (simp add: add.assoc)
  then have "unat ?slot < ?n" using n0 by simp
  from put_frame_ok [OF Suc.prems(1) this, of "f a" "pts + word_of_nat a"] Suc.prems(2) [of a]
  obtain r1 where r1: "put_frame (f a) (pts + word_of_nat a) ?slot r = Some r1" "ring_inv r1" "same_frame r r1"
    "slots r1 = (slots r)[unat ?slot := (f a, pts + word_of_nat a)]" by auto
  have eq: "capacity_frames r1 = capacity_frames r" "channels r1 = channels r" using r1(3) by (auto simp: same_frame_def)
  from Suc.IH [of r1 "Suc a"] Suc.prems r1(2) eq obtain r' where
    r': "write_frames src wr pts [Suc a..<Suc a + m] r1 = Some r'" "ring_inv r'" "same_frame r1 r'"
      "ring_elems (slots r') ?n rp (q + Suc a + m) =
         ring_elems (slots r1) ?n rp (q + Suc a) @ map (\<lambda>k. (f k, pts + word_of_nat k)) [Suc a..<Suc a + m]"
    by auto
  have "ring_elems (slots r1) ?n rp (Suc (q + a)) = ring_elems (slots r) ?n rp (q + a) @ [(f a, pts + word_of_nat a)]"
    unfolding r1(4) slot by (rule ring_elems_push) (use Suc.prems(4) in simp_all)
  moreover have "[a..<a + Suc m] = a # [Suc a..<Suc a + m]" by (simp add: upt_conv_Cons del: upt_Suc)
  ultimately show ?case
    using r1 r' Suc.prems(2) [of a] by (auto simp: same_frame_def simp del: upt_Suc)
qed


section \<open>Refinement to a bounded list of frames\<close>

lemma queued_length [simp]: "length (queued r) = unat (write_frame r) - unat (read_frame r)"
  by (simp add: queued_def)

lemma ring_distance:
  "ring_inv r \<Longrightarrow> unat (write_frame r - read_frame r) = length (queued r)"
  by (simp add: ring_inv_def unat_sub_exact)

lemma ring_full_iff:
  assumes inv: "ring_inv r"
  shows "ring_full r frames \<longleftrightarrow> length (queued r) + unat frames > unat (capacity_frames r)"
proof -
  have le: "length (queued r) \<le> unat (capacity_frames r)" using inv by (simp add: ring_inv_def)
  have d: "unat (write_frame r - read_frame r) = length (queued r)" by (rule ring_distance [OF inv])
  have "unat (ucast (write_frame r - read_frame r) :: u32) = length (queued r)"
    using d le unat_u32_lt [of "capacity_frames r"] by (simp add: unat_ucast_small)
  then have "unat (capacity_frames r - ucast (write_frame r - read_frame r)) = unat (capacity_frames r) - length (queued r)"
    using le by (simp add: unat_sub_exact)
  then show ?thesis using d le by (auto simp: ring_full_def word_less_nat_alt)
qed

lemma write_block_refines:
  assumes inv: "ring_inv r" and src: "\<And>k. k < unat frames \<Longrightarrow> src k = Some (f k) \<and> length (f k) = unat (channels r)"
    and total: "unat (write_frame r) + unat frames < 2 ^ 64"
  shows "\<exists>r'. write_block src frames pts r = Some (length (queued r) + unat frames \<le> unat (capacity_frames r), r') \<and>
           ring_inv r' \<and> capacity_frames r' = capacity_frames r \<and> channels r' = channels r \<and>
           (if length (queued r) + unat frames \<le> unat (capacity_frames r)
            then queued r' = queued r @ map (\<lambda>k. (f k, pts + word_of_nat k)) [0..<unat frames] \<and>
                 unat (write_frame r') = unat (write_frame r) + unat frames \<and> overruns r' = overruns r
            else queued r' = queued r \<and> write_frame r' = write_frame r \<and> overruns r' = overruns r + 1)"
proof (cases "length (queued r) + unat frames \<le> unat (capacity_frames r)")
  case False
  then have "write_block src frames pts r = Some (False, r\<lparr>overruns := overruns r + 1\<rparr>)"
    using ring_full_iff [OF inv] by (simp add: write_block_def)
  then show ?thesis using inv False by (simp add: ring_inv_def queued_def slots_def)
next
  case True
  have w: "unat (write_frame r) = unat (read_frame r) + length (queued r)"
    using inv by (simp add: ring_inv_def)
  have "length (queued r) + 0 + unat frames \<le> unat (capacity_frames r)" "unat (write_frame r) + 0 + unat frames \<le> 2 ^ 64"
    using True total by simp_all
  from write_frames_ok [OF inv, of 0 "unat frames" src f, OF _ w this] src
  obtain r1 where r1: "write_frames src (write_frame r) pts [0..<unat frames] r = Some r1" "ring_inv r1" "same_frame r r1"
      "ring_elems (slots r1) (unat (capacity_frames r)) (unat (read_frame r)) (length (queued r) + unat frames) =
       queued r @ map (\<lambda>k. (f k, pts + word_of_nat k)) [0..<unat frames]"
    by (auto simp: queued_def)
  let ?r = "r1\<lparr>write_frame := write_frame r + ucast frames\<rparr>"
  have cnt: "unat (write_frame r + ucast frames) = unat (write_frame r) + unat frames"
    using total by (subst unat_add_exact) simp_all
  have sl: "slots ?r = slots r1" by (simp add: slots_def)
  have "write_block src frames pts r = Some (True, ?r)"
    using r1(1) ring_full_iff [OF inv] True by (simp add: write_block_def)
  moreover have "ring_inv ?r"
  proof -
    have "unat (write_frame ?r) = unat (read_frame ?r) + (length (queued r) + unat frames)"
      using w cnt r1(3) by (simp add: same_frame_def)
    with r1(2,3) True show ?thesis by (simp add: ring_inv_def same_frame_def)
  qed
  moreover have "queued ?r = queued r @ map (\<lambda>k. (f k, pts + word_of_nat k)) [0..<unat frames]"
    using r1(3,4) w cnt unfolding queued_def sl by (simp add: same_frame_def)
  ultimately show ?thesis using True r1(3) cnt by (simp add: same_frame_def)
qed

text \<open>Whether consecutive time stamps grow by exactly one sample.\<close>

fun contig :: "u64 list \<Rightarrow> bool" where
  "contig (a # b # ps) \<longleftrightarrow> b = a + 1 \<and> contig (b # ps)"
| "contig _ \<longleftrightarrow> True"

lemma contig_snoc: "contig (ps @ [b]) \<longleftrightarrow> contig ps \<and> (ps = [] \<or> b = last ps + 1)"
  by (induction ps rule: contig.induct) auto

lemma last_map_take: "\<lbrakk>a \<noteq> 0; a \<le> length q\<rbrakk> \<Longrightarrow> last (map f (take a q)) = f (q ! (a - 1))"
  by (cases a) (auto simp: take_Suc_conv_app_nth)

lemma slots_nth:
  "\<lbrakk>s < unat (capacity_frames r); samples r = Some ss; pts_samples r = Some ps\<rbrakk> \<Longrightarrow>
     slots r ! s = (take (unat (channels r)) (drop (s * unat (channels r)) ss), ps ! s)"
  by (simp add: slots_def)

lemma read_frames_ok:
  assumes inv: "ring_inv r" and b: "samples r = Some ss" "pts_samples r = Some ps"
    and n: "a + m \<le> length (queued r)"
    and st: "c = contig (map snd (take a (queued r)))"
      "a \<noteq> 0 \<Longrightarrow> first = snd (hd (queued r)) \<and> prev = snd (queued r ! (a - 1))"
      "out = concat (map fst (take a (queued r)))" "a + m \<noteq> 0"
  shows "read_frames r ss ps [a..<a + m] c first prev out =
           Some (contig (map snd (take (a + m) (queued r))), snd (hd (queued r)), concat (map fst (take (a + m) (queued r))))"
  using n st
proof (induction m arbitrary: a c first prev out)
  case 0
  then show ?case by simp
next
  case (Suc m)
  let ?n = "unat (capacity_frames r)" and ?q = "queued r"
  let ?s = "unat (slot_of (read_frame r) a (capacity_frames r))"
  have cap: "capacity_frames r \<noteq> 0" using inv by (simp add: ring_inv_def)
  then have n0: "0 < ?n" by (simp add: unat_gt_0)
  have lt: "a < length ?q" using Suc.prems(1) by simp
  have "unat (read_frame r) + a < 2 ^ 64" using lt unat_u64_lt [of "write_frame r"] by simp
  then have s: "?s = (unat (read_frame r) + a) mod ?n" by (rule unat_slot_of [OF cap])
  then have sn: "?s < ?n" using n0 by simp
  have q: "?q ! a = (take (unat (channels r)) (drop (?s * unat (channels r)) ss), ps ! ?s)"
    using lt sn slots_nth [OF sn b] by (simp add: queued_def ring_elems_nth s)
  have lens: "length ss = ?n * unat (channels r)" "length ps = ?n" using inv b by (auto simp: ring_inv_def)
  have "?s * unat (channels r) + unat (channels r) \<le> ?n * unat (channels r)"
    using mult_le_mono1 [of "Suc ?s" ?n "unat (channels r)"] sn by simp
  then have rr: "rd ps ?s = Some (snd (?q ! a))"
      "rd_range ss (?s * unat (channels r)) (unat (channels r)) = Some (fst (?q ! a))"
    using sn lens q by (simp_all add: rd_def rd_range_def)
  have tk: "take (Suc a) ?q = take a ?q @ [?q ! a]" by (rule take_Suc_conv_app_nth [OF lt])
  have ne: "last (map snd (take a ?q)) = snd (?q ! (a - 1))" if "a \<noteq> 0"
    using last_map_take [of a ?q snd] that lt by simp
  have qne: "?q \<noteq> []" using lt by (metis list.size(3) not_less0)
  have hd: "a = 0 \<Longrightarrow> snd (hd ?q) = snd (?q ! a)" using lt by (metis hd_conv_nth list.size(3) not_less0)
  let ?c = "if a = 0 then c else if snd (?q ! a) \<noteq> prev + 1 then False else c"
  let ?f = "if a = 0 then snd (?q ! a) else first"
  have c': "?c = contig (map snd (take (Suc a) ?q))"
    using Suc.prems(2,3) ne qne unfolding tk by (auto simp: contig_snoc)
  have "read_frames r ss ps [Suc a..<Suc a + m] ?c ?f (snd (?q ! a)) (out @ fst (?q ! a)) =
      Some (contig (map snd (take (Suc a + m) ?q)), snd (hd ?q), concat (map fst (take (Suc a + m) ?q)))"
    by (rule Suc.IH) (use Suc.prems c' hd tk in auto)
  moreover have "[a..<a + Suc m] = a # [Suc a..<Suc a + m]" by (simp add: upt_conv_Cons del: upt_Suc)
  ultimately show ?case using rr by (simp add: Let_def del: upt_Suc)
qed

lemma ring_read_refines:
  assumes inv: "ring_inv r"
  shows "wd_audio_pcm_ring_read r frames =
    (if frames = 0 \<or> length (queued r) < unat frames then Some (None, r)
     else Some (Some \<lparr>frames_read = frames, out_samples = concat (map fst (take (unat frames) (queued r))),
                      first_pts_sample = snd (hd (queued r)),
                      continuity = contig (map snd (take (unat frames) (queued r)))\<rparr>,
                r\<lparr>read_frame := read_frame r + ucast frames\<rparr>))"
proof -
  from inv obtain ss ps where b: "samples r = Some ss" "pts_samples r = Some ps"
    by (auto simp: ring_inv_def split: option.splits)
  have g: "write_frame r - read_frame r < ucast frames \<longleftrightarrow> length (queued r) < unat frames"
    using ring_distance [OF inv] by (simp add: word_less_nat_alt)
  have "read_frames r ss ps [0..<0 + unat frames] True 0 0 [] =
      Some (contig (map snd (take (0 + unat frames) (queued r))), snd (hd (queued r)),
            concat (map fst (take (0 + unat frames) (queued r))))"
    if "frames \<noteq> 0" "\<not> length (queued r) < unat frames"
    by (rule read_frames_ok [OF inv b]) (use that in \<open>auto simp: unat_eq_zero\<close>)
  then show ?thesis using g b by (simp add: wd_audio_pcm_ring_read_def)
qed

lemma ring_read_invar:
  assumes inv: "ring_inv r" and n: "unat (frames :: u32) \<le> length (queued r)"
  shows "ring_inv (r\<lparr>read_frame := read_frame r + ucast frames\<rparr>)"
    and "queued (r\<lparr>read_frame := read_frame r + ucast frames\<rparr>) = drop (unat frames) (queued r)"
proof -
  let ?r = "r\<lparr>read_frame := read_frame r + ucast frames\<rparr>"
  have rf: "unat (read_frame r + ucast frames) = unat (read_frame r) + unat frames"
  proof -
    have "unat (read_frame r) \<le> unat (write_frame r)" using inv by (simp add: ring_inv_def)
    then have "unat (read_frame r) + unat frames < 2 ^ 64" using n unat_u64_lt [of "write_frame r"] by simp
    then show ?thesis by (subst unat_add_exact) simp_all
  qed
  with inv n show "ring_inv ?r" by (auto simp: ring_inv_def)
  let ?rest = "unat (write_frame r) - unat (read_frame r) - unat frames"
  have sl: "slots ?r = slots r" by (simp add: slots_def)
  have "unat (write_frame r) - unat (read_frame r) = unat frames + ?rest" using n by simp
  then have "queued r = ring_elems (slots r) (unat (capacity_frames r)) (unat (read_frame r)) (unat frames) @
      ring_elems (slots r) (unat (capacity_frames r)) (unat (read_frame r) + unat frames) ?rest"
    unfolding queued_def by (metis ring_elems_append)
  then show "queued ?r = drop (unat frames) (queued r)"
    unfolding queued_def [of ?r] sl by (simp add: rf)
qed


text \<open>
  The contract, on a list of time-stamped frames: a block is appended whole or dropped
  whole, a read returns exactly the requested number of the oldest frames or nothing.
  The components of the state are the capacity, the channel count, the number of frames
  ever accepted, the dropped blocks and the frames queued.
\<close>

type_synonym 'f ring_spec = "u32 \<times> u8 \<times> nat \<times> u64 \<times> ('f list \<times> u64) list"

datatype 'f ring_op =
    RWrite "'f list" u32 u64
  | RCapture "'f list option" u32 u8 bool u64
  | RPlanar "'f list option list" u32 u64
  | RRead u32
  | RDropAll

datatype 'f ring_res = Wrote bool | Read "'f read_result option" | Dropped

fun ring_step :: "('f \<Rightarrow> 'f \<Rightarrow> 'f) \<Rightarrow> 'f \<Rightarrow> 'f ring_op \<Rightarrow> 'f wd_audio_pcm_ring \<Rightarrow> ('f ring_res \<times> 'f wd_audio_pcm_ring) option" where
  "ring_step mix zero (RWrite inp frames pts) r =
     map_option (map_prod Wrote id) (wd_audio_pcm_ring_write r (Some inp) frames pts)"
| "ring_step mix zero (RCapture inp frames source_channels silent pts) r =
     map_option (map_prod Wrote id) (wd_audio_pcm_ring_write_capture mix zero r inp frames source_channels silent pts)"
| "ring_step mix zero (RPlanar planes frames pts) r =
     map_option (map_prod Wrote id) (wd_audio_pcm_ring_write_planar r (Some planes) frames pts)"
| "ring_step mix zero (RRead frames) r = map_option (map_prod Read id) (wd_audio_pcm_ring_read r frames)"
| "ring_step mix zero RDropAll r = Some (Dropped, wd_audio_pcm_ring_drop_all r)"

definition stamp :: "u64 \<Rightarrow> 'f list list \<Rightarrow> ('f list \<times> u64) list" where
  "stamp pts fs = map (\<lambda>k. (fs ! k, pts + word_of_nat k)) [0..<length fs]"

fun spec_put :: "('f list \<times> u64) list \<Rightarrow> 'f ring_spec \<Rightarrow> 'f ring_res \<times> 'f ring_spec" where
  "spec_put blk (cap, chs, acc, ovr, xs) =
     (if blk = [] \<or> length blk > unat cap then (Wrote False, (cap, chs, acc, ovr, xs))
      else if length xs + length blk \<le> unat cap
      then (Wrote True, (cap, chs, acc + length blk, ovr, xs @ blk))
      else (Wrote False, (cap, chs, acc, ovr + 1, xs)))"

definition interleaved :: "nat \<Rightarrow> nat \<Rightarrow> 'f list \<Rightarrow> 'f list list" where
  "interleaved n c inp = map (\<lambda>k. take c (drop (k * c) inp)) [0..<n]"

definition captured :: "('f \<Rightarrow> 'f \<Rightarrow> 'f) \<Rightarrow> 'f \<Rightarrow> nat \<Rightarrow> u8 \<Rightarrow> u8 \<Rightarrow> bool \<Rightarrow> 'f list option \<Rightarrow> 'f list list" where
  "captured mix zero n chs source_channels silent inp =
     (if silent then replicate n (replicate (unat chs) zero)
      else if source_channels = chs then interleaved n (unat chs) (the inp)
      else map (\<lambda>k. [mix (the inp ! (k * 2)) (the inp ! (k * 2 + 1))]) [0..<n])"

definition planar :: "nat \<Rightarrow> nat \<Rightarrow> 'f list option list \<Rightarrow> 'f list list" where
  "planar n c planes = map (\<lambda>k. map (\<lambda>ch. the (planes ! ch) ! k) [0..<c]) [0..<n]"

fun ring_spec :: "('f \<Rightarrow> 'f \<Rightarrow> 'f) \<Rightarrow> 'f \<Rightarrow> 'f ring_op \<Rightarrow> 'f ring_spec \<Rightarrow> 'f ring_res \<times> 'f ring_spec" where
  "ring_spec mix zero (RWrite inp frames pts) (cap, chs, acc, ovr, xs) =
     spec_put (stamp pts (interleaved (unat frames) (unat chs) inp)) (cap, chs, acc, ovr, xs)"
| "ring_spec mix zero (RCapture inp frames source_channels silent pts) (cap, chs, acc, ovr, xs) =
     (if source_channels \<in> {1, 2} \<and>
         (silent \<or> inp \<noteq> None \<and> (source_channels = chs \<or> source_channels = 2 \<and> chs = 1))
      then spec_put (stamp pts (captured mix zero (unat frames) chs source_channels silent inp)) (cap, chs, acc, ovr, xs)
      else (Wrote False, (cap, chs, acc, ovr, xs)))"
| "ring_spec mix zero (RPlanar planes frames pts) (cap, chs, acc, ovr, xs) =
     (if list_ex (\<lambda>p. p = None) (take (unat chs) planes) then (Wrote False, (cap, chs, acc, ovr, xs))
      else spec_put (stamp pts (planar (unat frames) (unat chs) planes)) (cap, chs, acc, ovr, xs))"
| "ring_spec mix zero (RRead frames) (cap, chs, acc, ovr, xs) =
     (if frames = 0 \<or> length xs < unat frames then (Read None, (cap, chs, acc, ovr, xs))
      else
        (Read (Some \<lparr>frames_read = frames, out_samples = concat (map fst (take (unat frames) xs)),
                     first_pts_sample = snd (hd xs), continuity = contig (map snd (take (unat frames) xs))\<rparr>),
         (cap, chs, acc, ovr, drop (unat frames) xs)))"
| "ring_spec mix zero RDropAll (cap, chs, acc, ovr, xs) = (Dropped, (cap, chs, acc, ovr, []))"

text \<open>
  What the callers guarantee: the input holds the frames announced, and fewer than
  \<open>2\<^sup>6\<^sup>4\<close> frames are written in the life of a ring (twelve million years at 48 kHz).
\<close>

fun ring_pre :: "'f ring_op \<Rightarrow> 'f ring_spec \<Rightarrow> bool" where
  "ring_pre (RWrite inp frames pts) (cap, chs, acc, ovr, xs) \<longleftrightarrow>
     unat frames * unat chs \<le> length inp \<and> acc + unat frames < 2 ^ 64"
| "ring_pre (RCapture inp frames source_channels silent pts) (cap, chs, acc, ovr, xs) \<longleftrightarrow>
     (silent \<or> inp = None \<or> unat frames * unat source_channels \<le> length (the inp)) \<and> acc + unat frames < 2 ^ 64"
| "ring_pre (RPlanar planes frames pts) (cap, chs, acc, ovr, xs) \<longleftrightarrow>
     unat chs \<le> length planes \<and> list_all (\<lambda>p. p = None \<or> unat frames \<le> length (the p)) planes \<and>
     acc + unat frames < 2 ^ 64"
| "ring_pre _ _ \<longleftrightarrow> True"

definition ring_abs :: "'f wd_audio_pcm_ring \<Rightarrow> 'f ring_spec" where
  "ring_abs r = (capacity_frames r, channels r, unat (write_frame r), overruns r, queued r)"

lemma length_stamp [simp]: "length (stamp pts fs) = length fs" "stamp pts [] = []" "stamp pts fs = [] \<longleftrightarrow> fs = []"
  by (simp_all add: stamp_def)

lemma length_frame_lists [simp]:
  "length (interleaved n c inp) = n" "length (planar n c planes) = n"
  "length (captured mix zero n chs sc silent inp') = n"
  by (simp_all add: interleaved_def planar_def captured_def)

lemma write_block_spec:
  assumes inv: "ring_inv r" and fs: "length fs = unat frames" and n: "frames \<noteq> 0" "frames \<le> capacity_frames r"
    and src: "\<And>k. k < unat frames \<Longrightarrow> src k = Some (fs ! k) \<and> length (fs ! k) = unat (channels r)"
    and total: "unat (write_frame r) + unat frames < 2 ^ 64"
  shows "\<exists>b r'. write_block src frames pts r = Some (b, r') \<and> ring_inv r' \<and>
           spec_put (stamp pts fs) (ring_abs r) = (Wrote b, ring_abs r')"
proof -
  have "unat frames \<noteq> 0" "unat frames \<le> unat (capacity_frames r)"
    using n by (simp_all add: unat_eq_zero word_le_nat_alt)
  moreover obtain r' where
      "write_block src frames pts r = Some (length (queued r) + unat frames \<le> unat (capacity_frames r), r')"
      "ring_inv r'" "capacity_frames r' = capacity_frames r" "channels r' = channels r"
      "if length (queued r) + unat frames \<le> unat (capacity_frames r)
       then queued r' = queued r @ map (\<lambda>k. (fs ! k, pts + word_of_nat k)) [0..<unat frames] \<and>
            unat (write_frame r') = unat (write_frame r) + unat frames \<and> overruns r' = overruns r
       else queued r' = queued r \<and> write_frame r' = write_frame r \<and> overruns r' = overruns r + 1"
    using write_block_refines [where src = src and f = "\<lambda>k. fs ! k" and pts = pts, OF inv src total] by blast
  ultimately show ?thesis using fs
    by (cases "length (queued r) + unat frames \<le> unat (capacity_frames r)")
       (auto simp: ring_abs_def stamp_def simp del: queued_length)
qed

lemma spec_put_reject:
  assumes "length fs = unat frames" "frames = 0 \<or> frames > cap"
  shows "spec_put (stamp pts fs) (cap, chs, acc, ovr, xs) = (Wrote False, (cap, chs, acc, ovr, xs))"
  using assms by (auto simp: word_less_nat_alt)


lemma ring_write_step:
  assumes inv: "ring_inv r" and pre: "ring_pre (RWrite inp frames pts) (ring_abs r)"
  shows "\<exists>x r'. ring_step mix zero (RWrite inp frames pts) r = Some (x, r') \<and> ring_inv r' \<and>
           ring_spec mix zero (RWrite inp frames pts) (ring_abs r) = (x, ring_abs r')"
proof -
  let ?c = "unat (channels r)" and ?fs = "interleaved (unat frames) (unat (channels r)) inp"
  from inv obtain ss ps where b: "samples r = Some ss" "pts_samples r = Some ps" by (auto simp: ring_inv_def)
  show ?thesis
  proof (cases "frames = 0 \<or> frames > capacity_frames r")
    case True
    then show ?thesis using inv b spec_put_reject [of ?fs frames "capacity_frames r"]
      by (auto simp: wd_audio_pcm_ring_write_def ring_abs_def)
  next
    case False
    then have n: "frames \<noteq> 0" "frames \<le> capacity_frames r" by (simp_all add: not_less)
    have tot: "unat (write_frame r) + unat frames < 2 ^ 64" using pre by (simp add: ring_abs_def)
    have "rd_range inp (k * ?c) ?c = Some (?fs ! k) \<and> length (?fs ! k) = ?c" if "k < unat frames" for k
    proof -
      have "k * ?c + ?c \<le> unat frames * ?c" using mult_le_mono1 [of "Suc k" "unat frames" ?c] that by simp
      also have "\<dots> \<le> length inp" using pre by (simp add: ring_abs_def)
      finally show ?thesis using that by (simp add: rd_range_def interleaved_def)
    qed
    then obtain w r' where
      "write_block (\<lambda>k. rd_range inp (k * ?c) ?c) frames pts r = Some (w, r')" "ring_inv r'"
      "spec_put (stamp pts ?fs) (ring_abs r) = (Wrote w, ring_abs r')"
      using write_block_spec [where src = "\<lambda>k. rd_range inp (k * ?c) ?c" and fs = ?fs and frames = frames and pts = pts,
          OF inv _ n _ tot] by auto
    then show ?thesis using False by (simp add: wd_audio_pcm_ring_write_def b ring_abs_def)
  qed
qed

lemma capture_guards:
  fixes sc :: u8
  assumes inv: "ring_inv r"
  shows "wd_audio_pcm_ring_write_capture mix zero r inp frames sc silent pts =
    (if (sc \<in> {1, 2} \<and> (silent \<or> inp \<noteq> None \<and> (sc = channels r \<or> sc = 2 \<and> channels r = 1))) \<and>
        frames \<noteq> 0 \<and> frames \<le> capacity_frames r
     then write_block (capture_frame mix zero sc silent (channels r) (case inp of None \<Rightarrow> [] | Some i \<Rightarrow> i)) frames pts r
     else Some (False, r))"
proof -
  have "sc \<in> {1, 2} \<longleftrightarrow> unat sc = 1 \<or> unat sc = 2" by (auto simp: unat_eq_iff)
  also have "\<dots> \<longleftrightarrow> \<not> (unat sc = 0 \<or> unat sc > 2)" by linarith
  finally have sc12: "\<not> (sc = 0 \<or> sc > 2) \<longleftrightarrow> sc \<in> {1, 2}" by (simp add: unat_eq_zero word_less_nat_alt)
  have fr: "\<not> frames > capacity_frames r \<longleftrightarrow> frames \<le> capacity_frames r" by (simp add: not_less)
  have b: "samples r \<noteq> None" "pts_samples r \<noteq> None" using inv by (simp_all add: ring_inv_def)
  show ?thesis
    unfolding wd_audio_pcm_ring_write_capture_def
    unfolding sc12 [symmetric] fr [symmetric] by (rule if_two_guards) (use b in argo)
qed

lemma ring_capture_step:
  assumes inv: "ring_inv r" and pre: "ring_pre (RCapture inp frames sc silent pts) (ring_abs r)"
  shows "\<exists>x r'. ring_step mix zero (RCapture inp frames sc silent pts) r = Some (x, r') \<and> ring_inv r' \<and>
           ring_spec mix zero (RCapture inp frames sc silent pts) (ring_abs r) = (x, ring_abs r')"
proof -
  let ?c = "unat (channels r)" and ?fs = "captured mix zero (unat frames) (channels r) sc silent inp"
  let ?ok = "sc \<in> {1, 2} \<and> (silent \<or> inp \<noteq> None \<and> (sc = channels r \<or> sc = 2 \<and> channels r = 1))"
  let ?n = "frames \<noteq> 0 \<and> frames \<le> capacity_frames r"
  note step = capture_guards [OF inv, of mix zero inp frames sc silent pts]
  consider "\<not> ?ok" | "?ok" "\<not> ?n" | "?ok" ?n by blast
  then show ?thesis
  proof cases
    case 1
    then have "ring_spec mix zero (RCapture inp frames sc silent pts) (ring_abs r) = (Wrote False, ring_abs r)"
      unfolding ring_abs_def ring_spec.simps by (rule if_not_P)
    moreover have "wd_audio_pcm_ring_write_capture mix zero r inp frames sc silent pts = Some (False, r)"
      unfolding step by (rule if_not_P) (use 1 in blast)
    ultimately show ?thesis using inv by simp
  next
    case 2
    then have "frames = 0 \<or> frames > capacity_frames r" by auto
    then have "ring_spec mix zero (RCapture inp frames sc silent pts) (ring_abs r) = (Wrote False, ring_abs r)"
      unfolding ring_abs_def ring_spec.simps if_P [OF 2(1)] by (intro spec_put_reject) auto
    moreover have "wd_audio_pcm_ring_write_capture mix zero r inp frames sc silent pts = Some (False, r)"
      unfolding step by (rule if_not_P) (use 2 in blast)
    ultimately show ?thesis using inv by simp
  next
    case 3
    have tot: "unat (write_frame r) + unat frames < 2 ^ 64" using pre by (simp add: ring_abs_def)
    let ?src = "capture_frame mix zero sc silent (channels r) (case inp of None \<Rightarrow> [] | Some i \<Rightarrow> i)"
    have "?src k = Some (?fs ! k) \<and> length (?fs ! k) = ?c" if k: "k < unat frames" for k
    proof -
      have len: "silent \<or> unat frames * unat sc \<le> length (the inp)" and i: "silent \<or> inp \<noteq> None"
        using pre 3(1) by (auto simp: ring_abs_def)
      have "k * unat sc + unat sc \<le> unat frames * unat sc" using mult_le_mono1 [of "Suc k" "unat frames" "unat sc"] k by simp
      then have fits: "silent \<or> k * unat sc + unat sc \<le> length (the inp)" using len by linarith
      show ?thesis
      proof (cases "silent \<or> sc = channels r")
        case True
        with fits i k show ?thesis
          by (auto simp: capture_frame_def captured_def interleaved_def rd_range_def)
      next
        case False
        with 3(1) fits i k show ?thesis
          by (auto simp: capture_frame_def captured_def rd_def)
      qed
    qed
    then obtain w r' where w: "write_block ?src frames pts r = Some (w, r')" "ring_inv r'"
      "spec_put (stamp pts ?fs) (ring_abs r) = (Wrote w, ring_abs r')"
      using write_block_spec [where src = ?src and fs = ?fs and frames = frames and pts = pts,
          OF inv _ conjunct1 [OF 3(2)] conjunct2 [OF 3(2)] _ tot] by auto
    have "wd_audio_pcm_ring_write_capture mix zero r inp frames sc silent pts = Some (w, r')"
      unfolding step w(1) [symmetric] by (rule if_P) (use 3 in blast)
    moreover have "ring_spec mix zero (RCapture inp frames sc silent pts) (ring_abs r) = (Wrote w, ring_abs r')"
      using w(3) unfolding ring_abs_def [of r] ring_spec.simps if_P [OF 3(1)] .
    ultimately show ?thesis using w(2) by simp
  qed
qed

lemma those_map_Some: "(\<And>x. x \<in> set xs \<Longrightarrow> f x = Some (g x)) \<Longrightarrow> those (map f xs) = Some (map g xs)"
  by (induction xs) auto

lemma ring_planar_step:
  assumes inv: "ring_inv r" and pre: "ring_pre (RPlanar planes frames pts) (ring_abs r)"
  shows "\<exists>x r'. ring_step mix zero (RPlanar planes frames pts) r = Some (x, r') \<and> ring_inv r' \<and>
           ring_spec mix zero (RPlanar planes frames pts) (ring_abs r) = (x, ring_abs r')"
proof -
  let ?c = "unat (channels r)" and ?fs = "planar (unat frames) (unat (channels r)) planes"
  from inv obtain ss ps where b: "samples r = Some ss" "pts_samples r = Some ps" by (auto simp: ring_inv_def)
  have len: "?c \<le> length planes" using pre by (simp add: ring_abs_def)
  let ?null = "list_ex (\<lambda>p. p = None) (take ?c planes)"
  consider "frames = 0 \<or> frames > capacity_frames r" | "frames \<noteq> 0" "frames \<le> capacity_frames r" ?null
    | "frames \<noteq> 0" "frames \<le> capacity_frames r" "\<not> ?null" by (meson not_le)
  then show ?thesis
  proof cases
    case 1
    then show ?thesis using inv b spec_put_reject [of ?fs frames "capacity_frames r"]
      by (auto simp: wd_audio_pcm_ring_write_planar_def ring_abs_def)
  next
    case 2
    then show ?thesis using inv b len by (auto simp: wd_audio_pcm_ring_write_planar_def ring_abs_def)
  next
    case 3
    have tot: "unat (write_frame r) + unat frames < 2 ^ 64" using pre by (simp add: ring_abs_def)
    have "planar_frame (channels r) planes k = Some (?fs ! k) \<and> length (?fs ! k) = ?c" if k: "k < unat frames" for k
    proof -
      have "(case rd planes c of Some (Some plane) \<Rightarrow> rd plane k | _ \<Rightarrow> None) = Some (the (planes ! c) ! k)"
        if c: "c < ?c" for c
      proof -
        have "planes ! c \<in> set (take ?c planes)" using c len by (metis in_set_conv_nth length_take min.absorb2 nth_take)
        with 3(3) have "planes ! c \<noteq> None" unfolding list_ex_iff by metis
        moreover have "planes ! c \<in> set planes" using c len by simp
        ultimately have "unat frames \<le> length (the (planes ! c))" using pre by (auto simp: ring_abs_def list_all_iff)
        with \<open>planes ! c \<noteq> None\<close> show ?thesis using c len k by (auto simp: rd_def)
      qed
      then show ?thesis using k unfolding planar_frame_def
        by (subst those_map_Some [where g = "\<lambda>c. the (planes ! c) ! k"]) (auto simp: planar_def)
    qed
    then obtain w r' where w: "write_block (planar_frame (channels r) planes) frames pts r = Some (w, r')" "ring_inv r'"
      "spec_put (stamp pts ?fs) (ring_abs r) = (Wrote w, ring_abs r')"
      using write_block_spec [where src = "planar_frame (channels r) planes" and fs = ?fs and frames = frames and pts = pts,
          OF inv _ 3(1,2) _ tot] by auto
    have "wd_audio_pcm_ring_write_planar r (Some planes) frames pts = write_block (planar_frame (channels r) planes) frames pts r"
      using 3 b len leD [OF 3(2)] unfolding wd_audio_pcm_ring_write_planar_def by simp
    with w 3(3) show ?thesis by (simp add: ring_abs_def)
  qed
qed

lemma ring_read_step:
  assumes inv: "ring_inv r"
  shows "\<exists>x r'. ring_step mix zero (RRead frames) r = Some (x, r') \<and> ring_inv r' \<and>
           ring_spec mix zero (RRead frames) (ring_abs r) = (x, ring_abs r')"
proof (cases "frames = 0 \<or> length (queued r) < unat frames")
  case True
  then show ?thesis using inv ring_read_refines [OF inv, of frames] by (auto simp: ring_abs_def)
next
  case False
  then have "unat frames \<le> length (queued r)" by simp
  note r = ring_read_invar [OF inv this]
  show ?thesis using False r ring_read_refines [OF inv, of frames] by (auto simp: ring_abs_def)
qed

lemma ring_drop_step:
  assumes inv: "ring_inv r"
  shows "\<exists>x r'. ring_step mix zero RDropAll r = Some (x, r') \<and> ring_inv r' \<and>
           ring_spec mix zero RDropAll (ring_abs r) = (x, ring_abs r')"
  using inv by (auto simp: wd_audio_pcm_ring_drop_all_def ring_inv_def ring_abs_def queued_def)

interpretation ring: data_refinement "ring_step mix zero" "ring_spec mix zero" ring_pre ring_inv ring_abs for mix zero
proof unfold_locales
  fix c :: "'a wd_audio_pcm_ring" and p
  assume "ring_inv c" "ring_pre p (ring_abs c)"
  then show "\<exists>r c'. ring_step mix zero p c = Some (r, c') \<and> ring_inv c' \<and> ring_spec mix zero p (ring_abs c) = (r, ring_abs c')"
    by (cases p; hypsubst)
       (erule (1) ring_write_step ring_capture_step ring_planar_step | erule ring_read_step ring_drop_step)+
qed


lemma ring_init_inv:
  assumes "wd_audio_pcm_ring_init cs cp zero r0 cap chs = (True, r)"
  shows "ring_inv r" and "ring_abs r = (cap, chs, 0, 0, [])"
proof -
  have a: "cap \<noteq> 0" "chs \<noteq> 0" "\<not> chs > 2" using assms by (auto simp: wd_audio_pcm_ring_init_def split: if_splits)
  then have c: "unat chs = 1 \<or> unat chs = 2" unfolding unat_eq_iff word_less_nat_alt by simp linarith
  have cap: "unat cap < 4294967296" by (rule unat_u32_lt)
  have m1: "unat (ucast cap * ucast chs :: u64) = unat cap * unat chs"
    by (subst unat_mult_exact) (use c cap in auto)
  have m2: "unat (ucast cap * ucast chs * 4 :: u64) = unat cap * unat chs * 4"
    by (subst unat_mult_exact) (use c cap m1 in auto)
  have m3: "unat (ucast cap * 8 :: u64) = unat cap * 8"
    by (subst unat_mult_exact) (use cap in auto)
  from assms a have r: "r = \<lparr>samples = Some (replicate (unat (ucast cap * ucast chs * 4 :: u64) div 4) zero),
      pts_samples = Some (replicate (unat (ucast cap * 8 :: u64) div 8) 0),
      capacity_frames = cap, channels = chs, read_frame = 0, write_frame = 0, overruns = 0\<rparr>"
    by (auto simp: wd_audio_pcm_ring_init_def wd_audio_size_multiply_def split: if_splits)
  have "chs = 1 \<or> chs = 2" using c unfolding unat_eq_iff by simp
  then show "ring_inv r" using a by (simp add: r ring_inv_def m2 m3)
  show "ring_abs r = (cap, chs, 0, 0, [])" by (simp add: r ring_abs_def queued_def)
qed

text \<open>
  C12: From a freshly initialised ring, every sequence of block writes (interleaved, captured with
  silence or downmix, planar), reads and drops acts as on a bounded list of time-stamped frames:
  no buffer is overrun, a block is kept whole or dropped whole and counted, and a read returns
  exactly the oldest frames asked for, with the first time stamp and whether all stamps are consecutive.
\<close>

theorem audio_ring_is_bounded_fifo:
  assumes "wd_audio_pcm_ring_init cs cp zero r0 cap chs = (True, r)"
    and "spec_ok ring_pre (ring_spec mix zero) ops (cap, chs, 0, 0, [])"
  shows "\<exists>rs r'. run_steps (ring_step mix zero) ops r = Some (rs, r') \<and>
           run_spec (ring_spec mix zero) ops (cap, chs, 0, 0, []) = (rs, ring_abs r') \<and>
           length (queued r') \<le> unat (capacity_frames r')"
proof -
  note init = ring_init_inv [OF assms(1)]
  from ring.run_refines [OF init(1), where mix = mix and zero = zero and ps = ops] assms(2) init(2)
  obtain rs r' where "run_steps (ring_step mix zero) ops r = Some (rs, r')" "ring_inv r'"
    "run_spec (ring_spec mix zero) ops (cap, chs, 0, 0, []) = (rs, ring_abs r')" by auto
  then show ?thesis by (auto simp: ring_inv_def)
qed

text \<open>A mono ring of two frames, with integers for samples.\<close>

definition demo_ring :: "int wd_audio_pcm_ring" where
  "demo_ring = snd (wd_audio_pcm_ring_init True True 0 wd_audio_pcm_ring_finish 2 1)"

definition demo_ops :: "int ring_op list" where
  "demo_ops = [RCapture (Some [10, 20, 30, 50]) 2 2 False 100, RWrite [7] 1 102, RRead 1, RWrite [9] 1 200, RRead 2]"

theorem audio_ring_is_bounded_fifo_witness:
  "\<exists>r'. run_steps (ring_step (\<lambda>l r. (l + r) div 2) 0) demo_ops demo_ring =
     Some ([Wrote True, Wrote False,
            Read (Some \<lparr>frames_read = 1, out_samples = [15], first_pts_sample = 100, continuity = True\<rparr>),
            Wrote True,
            Read (Some \<lparr>frames_read = 2, out_samples = [40, 9], first_pts_sample = 101, continuity = False\<rparr>)], r') \<and>
     overruns r' = 1"
proof -
  let ?mix = "\<lambda>l r :: int. (l + r) div 2"
  have i: "wd_audio_pcm_ring_init True True (0 :: int) wd_audio_pcm_ring_finish 2 1 = (True, demo_ring)"
    by (simp add: demo_ring_def wd_audio_pcm_ring_init_def wd_audio_size_multiply_def)
  have ok: "spec_ok ring_pre (ring_spec ?mix 0) demo_ops (2, 1, 0, 0, [])"
    by (simp add: demo_ops_def spec_put.simps captured_def interleaved_def stamp_def upt_rec)
  have "run_spec (ring_spec ?mix 0) demo_ops (2, 1, 0, 0, []) =
      ([Wrote True, Wrote False,
        Read (Some \<lparr>frames_read = 1, out_samples = [15], first_pts_sample = 100, continuity = True\<rparr>),
        Wrote True,
        Read (Some \<lparr>frames_read = 2, out_samples = [40, 9], first_pts_sample = 101, continuity = False\<rparr>)],
       (2, 1, 3, 1, []))"
    by (simp add: demo_ops_def spec_put.simps captured_def interleaved_def stamp_def upt_rec)
  with audio_ring_is_bounded_fifo [OF i ok] show ?thesis by (auto simp: ring_abs_def)
qed

end
