(* ===== verification/WD_Region_Heap.thy ===== *)
theory WD_Region_Heap
  imports WD_Prelude "HOL-Library.Monad_Syntax" "HOL-Library.Product_Lexorder"
begin

text \<open>
  The binary heap of the dirty-region scheduler (\<open>heap_entry_less\<close>, \<open>heap_swap\<close>,
  \<open>heap_sift_up\<close> and \<open>heap_sift_down\<close> of \<open>src/src/server/wd_dirty_region_scheduler.c\<close>):
  an array whose entry at index \<open>i > 0\<close> is not less than the entry at \<open>(i - 1) div 2\<close>. A
  \<open>None\<close> result is an access outside the array. The lemmas show that both loops restore the
  order when it is broken at one index only, keep the entries and stay inside the array.
\<close>

record wd_dirty_region_heap_entry =
  he_enqueued_ns :: u64
  he_serial :: u32
  he_region_id :: u16

definition heap_entry_less :: "wd_dirty_region_heap_entry \<Rightarrow> wd_dirty_region_heap_entry \<Rightarrow> bool" where
  "heap_entry_less lhs rhs =
     (if he_enqueued_ns lhs \<noteq> he_enqueued_ns rhs then he_enqueued_ns lhs < he_enqueued_ns rhs
      else he_region_id lhs < he_region_id rhs)"

definition heap_swap :: "'a list \<Rightarrow> nat \<Rightarrow> nat \<Rightarrow> 'a list" where
  "heap_swap h i j = h[i := h ! j, j := h ! i]"

fun heap_sift_up ::
    "wd_dirty_region_heap_entry list \<Rightarrow> nat \<Rightarrow> wd_dirty_region_heap_entry list option" where
  "heap_sift_up h index =
     (if index = 0 then Some h
      else let parent = (index - 1) div 2 in
        do { child \<leftarrow> rd h index;
             above \<leftarrow> rd h parent;
             if \<not> heap_entry_less child above then Some h
             else heap_sift_up (heap_swap h index parent) parent })"

text \<open>The child to exchange with, or \<open>index\<close> itself: the two comparisons of the loop body.\<close>

definition heap_smallest :: "wd_dirty_region_heap_entry list \<Rightarrow> nat \<Rightarrow> nat \<Rightarrow> nat option" where
  "heap_smallest h n index =
     (let left = index * 2 + 1; right = left + 1 in
      do { smallest \<leftarrow>
             (if left < n then
                do { l \<leftarrow> rd h left; s \<leftarrow> rd h index;
                     Some (if heap_entry_less l s then left else index) }
              else Some index);
           if right < n then
             do { r \<leftarrow> rd h right; s \<leftarrow> rd h smallest;
                  Some (if heap_entry_less r s then right else smallest) }
           else Some smallest })"

lemma heap_smallest_cases:
  assumes "heap_smallest h n i = Some s"
  shows "s = i \<or> i < s \<and> s < n"
  using assms by (auto simp: heap_smallest_def Let_def Option.bind_eq_Some_conv split: if_splits)

function heap_sift_down ::
    "wd_dirty_region_heap_entry list \<Rightarrow> nat \<Rightarrow> nat \<Rightarrow> wd_dirty_region_heap_entry list option" where
  "heap_sift_down h n index =
     (case heap_smallest h n index of None \<Rightarrow> None
      | Some smallest \<Rightarrow>
          if smallest = index then Some h
          else heap_sift_down (heap_swap h index smallest) n smallest)"
  by pat_completeness auto
termination
  by (relation "measure (\<lambda>(h, n, index). n - index)") (auto dest: heap_smallest_cases)

declare heap_sift_up.simps [simp del] heap_sift_down.simps [simp del]

section \<open>The order\<close>

definition entry_key :: "wd_dirty_region_heap_entry \<Rightarrow> u64 \<times> u16" where
  "entry_key e = (he_enqueued_ns e, he_region_id e)"

lemma heap_entry_less_key: "heap_entry_less a b \<longleftrightarrow> entry_key a < entry_key b"
  by (auto simp: heap_entry_less_def entry_key_def less_prod_def)

abbreviation hkey :: "wd_dirty_region_heap_entry list \<Rightarrow> nat \<Rightarrow> u64 \<times> u16" where
  "hkey h i \<equiv> entry_key (h ! i)"

abbreviation parent :: "nat \<Rightarrow> nat" where "parent i \<equiv> (i - 1) div 2"

definition heap_ordered :: "wd_dirty_region_heap_entry list \<Rightarrow> nat \<Rightarrow> bool" where
  "heap_ordered h n \<longleftrightarrow> (\<forall>i<n. 0 < i \<longrightarrow> hkey h (parent i) \<le> hkey h i)"

text \<open>The order may fail between \<open>k\<close> and its parent, or between \<open>k\<close> and its children.\<close>

definition ordered_but_up :: "wd_dirty_region_heap_entry list \<Rightarrow> nat \<Rightarrow> nat \<Rightarrow> bool" where
  "ordered_but_up h n k \<longleftrightarrow>
     (\<forall>i<n. 0 < i \<longrightarrow> i \<noteq> k \<longrightarrow> hkey h (parent i) \<le> hkey h i) \<and>
     (\<forall>i<n. 0 < i \<longrightarrow> parent i = k \<longrightarrow> 0 < k \<longrightarrow> hkey h (parent k) \<le> hkey h i)"

definition ordered_but_down :: "wd_dirty_region_heap_entry list \<Rightarrow> nat \<Rightarrow> nat \<Rightarrow> bool" where
  "ordered_but_down h n k \<longleftrightarrow>
     (\<forall>i<n. 0 < i \<longrightarrow> parent i \<noteq> k \<longrightarrow> hkey h (parent i) \<le> hkey h i) \<and>
     (\<forall>i<n. 0 < i \<longrightarrow> parent i = k \<longrightarrow> 0 < k \<longrightarrow> hkey h (parent k) \<le> hkey h i)"

lemma heap_root_least:
  assumes "heap_ordered h n" "i < n"
  shows "hkey h 0 \<le> hkey h i"
  using assms(2)
proof (induction i rule: less_induct)
  case (less i)
  show ?case
  proof (cases "i = 0")
    case False
    then have p: "parent i < i" by linarith
    with less have "hkey h 0 \<le> hkey h (parent i)" by simp
    also have "\<dots> \<le> hkey h i" using assms(1) less.prems False by (simp add: heap_ordered_def)
    finally show ?thesis .
  qed simp
qed

lemma length_heap_swap [simp]: "length (heap_swap h i j) = length h"
  by (simp add: heap_swap_def)

lemma nth_heap_swap:
  "i < length h \<Longrightarrow> j < length h \<Longrightarrow> k < length h \<Longrightarrow>
     heap_swap h i j ! k = h ! (if k = j then i else if k = i then j else k)"
  by (simp add: heap_swap_def nth_list_update)

lemma set_take_heap_swap:
  assumes "i < n" "j < n" "n \<le> length h"
  shows "set (take n (heap_swap h i j)) = set (take n h)"
proof -
  have "take n (heap_swap h i j) = (take n h)[i := take n h ! j, j := take n h ! i]"
    using assms by (simp add: heap_swap_def take_update_swap)
  then show ?thesis using assms by (simp only: set_swap length_take min_absorb2)
qed

lemma sift_up_step:
  assumes inv: "ordered_but_up h n k" and k: "0 < k" "k < n" "n \<le> length h"
    and less: "hkey h k < hkey h (parent k)"
  shows "ordered_but_up (heap_swap h k (parent k)) n (parent k)"
proof -
  let ?p = "parent k" and ?h = "heap_swap h k (parent k)"
  have p: "?p < k" using k by linarith
  have nth: "?h ! i = h ! (if i = ?p then k else if i = k then ?p else i)" if "i < n" for i
    using that k p by (simp add: nth_heap_swap)
  have ord: "hkey h (parent i) \<le> hkey h i" if "i < n" "0 < i" "i \<noteq> k" for i
    using inv that by (simp add: ordered_but_up_def)
  have grand: "hkey h ?p \<le> hkey h i" if "i < n" "0 < i" "parent i = k" for i
    using inv that k by (auto simp: ordered_but_up_def)
  have a: "hkey ?h (parent i) \<le> hkey ?h i" if i: "i < n" "0 < i" "i \<noteq> ?p" for i
  proof -
    have pi: "parent i < n" using i by linarith
    consider "i = k" | "i \<noteq> k" "parent i = k" | "i \<noteq> k" "parent i = ?p" | "i \<noteq> k" "parent i \<noteq> k" "parent i \<noteq> ?p"
      by blast
    then show ?thesis
    proof cases
      case 1 then show ?thesis using less nth [OF i(1)] nth [OF pi] p by simp
    next
      case 2 then show ?thesis using grand [of i] i nth [OF i(1)] nth [OF pi] p by simp
    next
      case 3
      have "hkey h ?p \<le> hkey h i" using ord [of i] i 3 by simp
      then show ?thesis using less 3 i nth [OF i(1)] nth [OF pi] by simp
    next
      case 4 then show ?thesis using ord [of i] i nth [OF i(1)] nth [OF pi] by simp
    qed
  qed
  have b: "hkey ?h (parent ?p) \<le> hkey ?h i" if i: "i < n" "0 < i" "parent i = ?p" "0 < ?p" for i
  proof -
    have pp: "parent ?p < ?p" using i by linarith
    then have "?h ! parent ?p = h ! parent ?p" using nth [of "parent ?p"] p k by simp
    moreover have up: "hkey h (parent ?p) \<le> hkey h ?p" using ord [of ?p] p k i by simp
    moreover have "hkey h ?p \<le> hkey h i" if "i \<noteq> k" using ord [of i] i that by simp
    moreover have "i \<noteq> ?p" using i by linarith
    ultimately show ?thesis using nth [OF i(1)] by (cases "i = k") auto
  qed
  show ?thesis using a b by (auto simp: ordered_but_up_def)
qed

lemma heap_sift_up_ok:
  "\<lbrakk>ordered_but_up h n k; k < n; n \<le> length h\<rbrakk> \<Longrightarrow>
     \<exists>h'. heap_sift_up h k = Some h' \<and> length h' = length h \<and> heap_ordered h' n
          \<and> set (take n h') = set (take n h)"
proof (induction k arbitrary: h rule: less_induct)
  case (less k)
  show ?case
  proof (cases "k = 0")
    case True
    then have "heap_ordered h n" using less.prems by (auto simp: ordered_but_up_def heap_ordered_def)
    then show ?thesis using True by (simp add: heap_sift_up.simps)
  next
    case False
    let ?p = "parent k"
    have p: "?p < k" using False by linarith
    have unf: "heap_sift_up h k =
        (if \<not> hkey h k < hkey h ?p then Some h else heap_sift_up (heap_swap h k ?p) ?p)"
      using less.prems False p by (simp add: heap_sift_up.simps [of h k] heap_entry_less_key Let_def)
    show ?thesis
    proof (cases "hkey h k < hkey h ?p")
      case False
      have "heap_ordered h n"
        using less.prems(1) False by (auto simp: ordered_but_up_def heap_ordered_def not_less)
      then show ?thesis using False by (simp add: unf)
    next
      case True
      have "ordered_but_up (heap_swap h k ?p) n ?p"
        using sift_up_step less.prems True \<open>k \<noteq> 0\<close> by simp
      from less.IH [OF p this] p less.prems set_take_heap_swap [of k n ?p h]
      show ?thesis using True by (simp add: unf)
    qed
  qed
qed

lemma child_iff: "0 < c \<and> parent c = i \<longleftrightarrow> c = i * 2 + 1 \<or> c = i * 2 + 2" for c i :: nat
  by presburger

lemma heap_smallest_ok:
  assumes i: "i < n" "n \<le> length h"
  shows "\<exists>s. heap_smallest h n i = Some s
             \<and> (s = i \<or> s < n \<and> 0 < s \<and> parent s = i \<and> hkey h s < hkey h i)
             \<and> (\<forall>c<n. 0 < c \<and> parent c = i \<longrightarrow> hkey h s \<le> hkey h c)"
proof -
  let ?l = "i * 2 + 1" and ?r = "i * 2 + 2"
  define a where "a = (if ?l < n \<and> hkey h ?l < hkey h i then ?l else i)"
  define s where "s = (if ?r < n \<and> hkey h ?r < hkey h a then ?r else a)"
  have an: "a < n" using i by (simp add: a_def)
  have "heap_smallest h n i = Some s"
    using i an by (simp add: heap_smallest_def Let_def heap_entry_less_key a_def s_def)
  moreover have "s = i \<or> s < n \<and> 0 < s \<and> parent s = i \<and> hkey h s < hkey h i"
  proof -
    have "a = i \<or> a < n \<and> a = ?l \<and> hkey h a < hkey h i" by (simp add: a_def)
    then have "s = i \<or> s < n \<and> (s = ?l \<or> s = ?r) \<and> hkey h s < hkey h i"
      by (auto simp: s_def)
    then show ?thesis using child_iff [of s i] by blast
  qed
  moreover have "\<forall>c<n. 0 < c \<and> parent c = i \<longrightarrow> hkey h s \<le> hkey h c"
  proof (intro allI impI)
    fix c assume c: "c < n" "0 < c \<and> parent c = i"
    have sa: "hkey h s \<le> hkey h a" by (auto simp: s_def)
    from c(2) have "c = ?l \<or> c = ?r" by (simp only: child_iff)
    then show "hkey h s \<le> hkey h c"
    proof
      assume "c = ?l"
      then have "hkey h a \<le> hkey h c" using c(1) by (auto simp: a_def)
      with sa show ?thesis by (rule order_trans)
    next
      assume "c = ?r"
      then show ?thesis using c(1) by (auto simp: s_def)
    qed
  qed
  ultimately show ?thesis by blast
qed

lemma sift_down_step:
  assumes inv: "ordered_but_down h n k" and k: "n \<le> length h"
    and s: "s < n" "0 < s" "parent s = k" "hkey h s < hkey h k"
    and least: "\<forall>c<n. 0 < c \<and> parent c = k \<longrightarrow> hkey h s \<le> hkey h c"
  shows "ordered_but_down (heap_swap h k s) n s"
proof -
  let ?h = "heap_swap h k s"
  have ks: "k < s" using s by linarith
  have nth: "?h ! i = h ! (if i = s then k else if i = k then s else i)" if "i < n" for i
    using that k ks s by (simp add: nth_heap_swap)
  have ord: "hkey h (parent i) \<le> hkey h i" if "i < n" "0 < i" "parent i \<noteq> k" for i
    using inv that by (simp add: ordered_but_down_def)
  have a: "hkey ?h (parent i) \<le> hkey ?h i" if i: "i < n" "0 < i" "parent i \<noteq> s" for i
  proof -
    have pi: "parent i < n" "parent i < i" using i by linarith+
    consider "i = s" | "i \<noteq> s" "parent i = k" | "i = k" | "i \<noteq> s" "i \<noteq> k" "parent i \<noteq> k" by blast
    then show ?thesis
    proof cases
      case 1 then show ?thesis using s nth [OF i(1)] nth [OF pi(1)] ks by simp
    next
      case 2 then show ?thesis using least i nth [OF i(1)] nth [OF pi(1)] ks pi(2) by auto
    next
      case 3
      then have "hkey h (parent k) \<le> hkey h s" using inv s i by (auto simp: ordered_but_down_def)
      then show ?thesis using 3 i nth [OF i(1)] nth [OF pi(1)] ks pi(2) by simp
    next
      case 4 then show ?thesis using ord [of i] i nth [OF i(1)] nth [OF pi(1)] by simp
    qed
  qed
  have b: "hkey ?h (parent s) \<le> hkey ?h i" if i: "i < n" "0 < i" "parent i = s" for i
  proof -
    have si: "s < i" using i by linarith
    have "hkey h s \<le> hkey h i" using ord [of i] i ks by simp
    then show ?thesis using s si ks nth [OF i(1)] nth [of k] by simp
  qed
  show ?thesis using a b by (auto simp: ordered_but_down_def)
qed

lemma heap_sift_down_ok:
  "\<lbrakk>ordered_but_down h n k; k < n; n \<le> length h\<rbrakk> \<Longrightarrow>
     \<exists>h'. heap_sift_down h n k = Some h' \<and> length h' = length h \<and> heap_ordered h' n
          \<and> set (take n h') = set (take n h)"
proof (induction "n - k" arbitrary: h k rule: less_induct)
  case less
  from heap_smallest_ok [OF less.prems(2,3)] obtain s where
    s: "heap_smallest h n k = Some s"
      "s = k \<or> s < n \<and> 0 < s \<and> parent s = k \<and> hkey h s < hkey h k"
      "\<forall>c<n. 0 < c \<and> parent c = k \<longrightarrow> hkey h s \<le> hkey h c" by blast
  show ?case
  proof (cases "s = k")
    case True
    have "heap_ordered h n"
      using less.prems(1) s(3) True by (auto simp: heap_ordered_def ordered_but_down_def)
    then show ?thesis using s(1) True by (simp add: heap_sift_down.simps)
  next
    case False
    with s(2) have s2: "s < n" "0 < s" "parent s = k" "hkey h s < hkey h k" by blast+
    then have ks: "k < s" by linarith
    have "ordered_but_down (heap_swap h k s) n s"
      by (rule sift_down_step [OF less.prems(1,3) s2 s(3)])
    from less.hyps [OF _ this s2(1)] ks s2(1) less.prems set_take_heap_swap [of k n s h]
    show ?thesis using s(1) False by (simp add: heap_sift_down.simps [of h])
  qed
qed

end
