(* ===== verification/WD_Scheduler.thy ===== *)
theory WD_Scheduler
  imports WD_Refine WD_Region_Heap
begin

text \<open>
  The dirty-region scheduler (\<open>src/src/server/wd_dirty_region_scheduler.c\<close>): which screen
  region is read back and sent next. A region is queued at most once; it is found again
  through a bit set, scanned cyclically from a cursor, and through a binary heap ordered by
  the time it became dirty, from which entries are removed lazily (an entry whose serial
  is out of date is stale). The record has the fields of the C structure; \<open>heap\<close> is the
  whole allocated block, of which the first \<open>heap_count\<close> entries are in use. A \<open>None\<close> result
  is an access outside an array. \<open>size_t\<close> values and the \<open>uint32_t\<close> indices, which are at
  most 65536, are natural numbers; a null scheduler pointer is \<open>None\<close>.
\<close>

record wd_dirty_region_scheduler =
  ds_capacity :: u16
  ds_regions_x :: u16
  ds_count :: u16
  starvation_ns :: u64
  queued :: "bool list"
  enqueued_ns :: "u64 list"
  serial :: "u32 list"
  queued_bits :: "u64 list"
  bit_word_count :: nat
  heap :: "wd_dirty_region_heap_entry list"
  heap_count :: nat
  heap_capacity :: nat

section \<open>The heap\<close>

text \<open>
  \<open>realloc\<close> may fail (\<open>mem_ok\<close>); the entries it adds to the block have arbitrary contents
  (\<open>junk\<close>).
\<close>

definition WD_SERVER_DIRTY_REGION_HEAP_INITIAL_CAPACITY :: nat where
  "WD_SERVER_DIRTY_REGION_HEAP_INITIAL_CAPACITY = 16"
definition WD_SERVER_DIRTY_REGION_HEAP_GROWTH_MULTIPLIER :: nat where
  "WD_SERVER_DIRTY_REGION_HEAP_GROWTH_MULTIPLIER = 2"

definition heap_reserve ::
    "bool \<Rightarrow> wd_dirty_region_heap_entry \<Rightarrow> wd_dirty_region_scheduler \<Rightarrow> nat \<Rightarrow>
     bool \<times> wd_dirty_region_scheduler" where
  "heap_reserve mem_ok junk s cap =
     (if heap_capacity s \<ge> cap then (True, s)
      else
        let grown = (if heap_capacity s \<noteq> 0
                     then heap_capacity s * WD_SERVER_DIRTY_REGION_HEAP_GROWTH_MULTIPLIER
                     else WD_SERVER_DIRTY_REGION_HEAP_INITIAL_CAPACITY);
            next_capacity = (if grown < cap then cap else grown)
        in if \<not> mem_ok then (False, s)
           else (True, s\<lparr>heap := heap s @ replicate (next_capacity - length (heap s)) junk,
                         heap_capacity := next_capacity\<rparr>))"

definition heap_push ::
    "bool \<Rightarrow> wd_dirty_region_heap_entry \<Rightarrow> wd_dirty_region_scheduler \<Rightarrow> u16 \<Rightarrow>
     (bool \<times> wd_dirty_region_scheduler) option" where
  "heap_push mem_ok junk s region_id =
     (case heap_reserve mem_ok junk s (heap_count s + 1) of
        (False, s) \<Rightarrow> Some (False, s)
      | (True, s) \<Rightarrow>
          do { ns \<leftarrow> rd (enqueued_ns s) (unat region_id);
               ser \<leftarrow> rd (serial s) (unat region_id);
               h \<leftarrow> wr_elem (heap s) (heap_count s)
                     \<lparr>he_enqueued_ns = ns, he_serial = ser, he_region_id = region_id\<rparr>;
               h' \<leftarrow> heap_sift_up h (heap_count s);
               Some (True, s\<lparr>heap := h', heap_count := heap_count s + 1\<rparr>) })"

definition heap_pop :: "wd_dirty_region_scheduler \<Rightarrow> wd_dirty_region_scheduler option" where
  "heap_pop s =
     (if heap_count s = 0 then Some s
      else
        let n = heap_count s - 1 in
        if n \<noteq> 0 then
          do { last_entry \<leftarrow> rd (heap s) n;
               h \<leftarrow> wr_elem (heap s) 0 last_entry;
               h' \<leftarrow> heap_sift_down h n 0;
               Some (s\<lparr>heap := h', heap_count := n\<rparr>) }
        else Some (s\<lparr>heap_count := n\<rparr>))"

definition heap_entry_current ::
    "wd_dirty_region_scheduler \<Rightarrow> wd_dirty_region_heap_entry \<Rightarrow> bool option" where
  "heap_entry_current s e =
     (if \<not> he_region_id e < ds_capacity s then Some False
      else
        do { q \<leftarrow> rd (queued s) (unat (he_region_id e));
             if \<not> q then Some False
             else do { ser \<leftarrow> rd (serial s) (unat (he_region_id e));
                       ns \<leftarrow> rd (enqueued_ns s) (unat (he_region_id e));
                       Some (ser = he_serial e \<and> ns = he_enqueued_ns e) } })"

lemma heap_pop_count: "heap_pop s = Some s' \<Longrightarrow> heap_count s \<noteq> 0 \<Longrightarrow> heap_count s' < heap_count s"
  by (auto simp: heap_pop_def Let_def Option.bind_eq_Some_conv split: if_splits)

function heap_prune :: "wd_dirty_region_scheduler \<Rightarrow> wd_dirty_region_scheduler option" where
  "heap_prune s =
     (if heap_count s = 0 then Some s
      else
        case rd (heap s) 0 of None \<Rightarrow> None
        | Some root \<Rightarrow>
            (case heap_entry_current s root of None \<Rightarrow> None
             | Some True \<Rightarrow> Some s
             | Some False \<Rightarrow> (case heap_pop s of None \<Rightarrow> None | Some s' \<Rightarrow> heap_prune s')))"
  by pat_completeness auto
termination
  by (relation "measure heap_count") (auto dest: heap_pop_count)

declare heap_prune.simps [simp del]

section \<open>The bit set\<close>

definition bit_set :: "u64 list \<Rightarrow> u16 \<Rightarrow> u64 list option" where
  "bit_set bits region_id =
     do { w \<leftarrow> rd bits (unat (region_id div 64));
          wr_elem bits (unat (region_id div 64)) (w OR push_bit (unat (region_id mod 64)) 1) }"

definition bit_clear :: "u64 list \<Rightarrow> u16 \<Rightarrow> u64 list option" where
  "bit_clear bits region_id =
     do { w \<leftarrow> rd bits (unat (region_id div 64));
          wr_elem bits (unat (region_id div 64)) (w AND NOT (push_bit (unat (region_id mod 64)) 1)) }"

text \<open>\<open>__builtin_ctzll\<close>: the number of trailing zero bits of a nonzero word.\<close>

definition ctzll :: "u64 \<Rightarrow> nat" where
  "ctzll w = length (takeWhile (\<lambda>i. \<not> bit w i) [0..<64])"

text \<open>
  The loop over the words of one pass: \<open>word\<close> is the word index, \<open>bits\<close> the bits of that
  word still to look at. The result is the region found, or \<open>None\<close> when the pass ends.
\<close>

function scan_words ::
    "wd_dirty_region_scheduler \<Rightarrow> nat \<Rightarrow> nat \<Rightarrow> nat \<Rightarrow> u64 \<Rightarrow> nat option option" where
  "scan_words s fin last_word word bits =
     (if \<not> word \<le> last_word then Some None
      else
        let bits = (if word = last_word \<and> fin mod 64 \<noteq> 0
                    then bits AND (push_bit (fin mod 64) 1 - 1) else bits);
            ident = word * 64 + ctzll bits
        in if bits \<noteq> 0 \<and> ident < unat (ds_capacity s) then Some (Some ident)
           else if word + 1 > last_word then Some None
           else (case rd (queued_bits s) (word + 1) of None \<Rightarrow> None
                 | Some w \<Rightarrow> scan_words s fin last_word (word + 1) w))"
  by pat_completeness auto
termination
  by (relation "measure (\<lambda>(s, fin, last_word, word, bits). last_word + 1 - word)") auto

declare scan_words.simps [simp del]

definition scan_pass :: "wd_dirty_region_scheduler \<Rightarrow> nat \<Rightarrow> nat \<Rightarrow> nat option option" where
  "scan_pass s start fin =
     (if start \<ge> fin then Some None
      else
        do { w \<leftarrow> rd (queued_bits s) (start div 64);
             scan_words s fin ((fin - 1) div 64) (start div 64)
               (w AND push_bit (start mod 64) (NOT 0)) })"

definition find_next_queued :: "wd_dirty_region_scheduler \<Rightarrow> u16 \<Rightarrow> u16 option" where
  "find_next_queued s cursor_region_id =
     (if ds_count s = 0 then Some UINT16_MAX
      else
        let cap = unat (ds_capacity s); start = (unat cursor_region_id + 1) mod cap in
        do { found \<leftarrow> scan_pass s start cap;
             (case found of Some ident \<Rightarrow> Some (word_of_nat ident)
              | None \<Rightarrow>
                  do { found \<leftarrow> scan_pass s 0 start;
                       (case found of Some ident \<Rightarrow> Some (word_of_nat ident)
                        | None \<Rightarrow> Some UINT16_MAX) }) })"

section \<open>Operations\<close>

text \<open>\<open>mem_ok\<close>: every allocation succeeds; otherwise what was allocated is freed again.\<close>

definition wd_dirty_region_scheduler_create ::
    "bool \<Rightarrow> u16 \<Rightarrow> u16 \<Rightarrow> u64 \<Rightarrow> wd_dirty_region_scheduler option" where
  "wd_dirty_region_scheduler_create mem_ok cap rx starve =
     (if cap = 0 \<or> rx = 0 then None
      else if \<not> mem_ok then None
      else
        let words = (unat cap + 63) div 64 in
        Some \<lparr>ds_capacity = cap, ds_regions_x = rx, ds_count = 0, starvation_ns = starve,
              queued = replicate (unat cap) False, enqueued_ns = replicate (unat cap) 0,
              serial = replicate (unat cap) 0, queued_bits = replicate words 0,
              bit_word_count = words, heap = [], heap_count = 0, heap_capacity = 0\<rparr>)"

definition wd_dirty_region_scheduler_reset ::
    "wd_dirty_region_scheduler option \<Rightarrow> wd_dirty_region_scheduler option option" where
  "wd_dirty_region_scheduler_reset sched =
     (case sched of None \<Rightarrow> Some None
      | Some s \<Rightarrow>
          do { q \<leftarrow> wr_range (queued s) 0 (replicate (unat (ds_capacity s)) False);
               e \<leftarrow> wr_range (enqueued_ns s) 0 (replicate (unat (ds_capacity s)) 0);
               b \<leftarrow> wr_range (queued_bits s) 0 (replicate (bit_word_count s) 0);
               Some (Some (s\<lparr>queued := q, enqueued_ns := e, queued_bits := b,
                             ds_count := 0, heap_count := 0\<rparr>)) })"

definition wd_dirty_region_scheduler_enqueue ::
    "bool \<Rightarrow> wd_dirty_region_heap_entry \<Rightarrow> wd_dirty_region_scheduler option \<Rightarrow> u16 \<Rightarrow> u64 \<Rightarrow>
     (bool \<times> wd_dirty_region_scheduler option) option" where
  "wd_dirty_region_scheduler_enqueue mem_ok junk sched region_id now_ns =
     (case sched of None \<Rightarrow> Some (False, None)
      | Some s \<Rightarrow>
        if region_id \<ge> ds_capacity s then Some (False, sched)
        else
          let r = unat region_id in
          do { is_queued \<leftarrow> rd (queued s) r;
               if is_queued then Some (True, sched)
               else
                 do { age \<leftarrow> rd (enqueued_ns s) r;
                      e \<leftarrow> (if age = 0 then wr_elem (enqueued_ns s) r (if now_ns \<noteq> 0 then now_ns else 1)
                            else Some (enqueued_ns s));
                      ser \<leftarrow> rd (serial s) r;
                      sers \<leftarrow> wr_elem (serial s) r (if ser + 1 = 0 then 1 else ser + 1);
                      q \<leftarrow> wr_elem (queued s) r True;
                      b \<leftarrow> bit_set (queued_bits s) region_id;
                      (pushed, s') \<leftarrow> heap_push mem_ok junk
                        (s\<lparr>enqueued_ns := e, serial := sers, queued := q, queued_bits := b,
                           ds_count := ds_count s + 1\<rparr>) region_id;
                      if \<not> pushed then
                        do { q \<leftarrow> wr_elem (queued s') r False;
                             b \<leftarrow> bit_clear (queued_bits s') region_id;
                             e \<leftarrow> (if age = 0 then wr_elem (enqueued_ns s') r 0 else Some (enqueued_ns s'));
                             Some (False, Some (s'\<lparr>ds_count := ds_count s' - 1, queued := q,
                                                   queued_bits := b, enqueued_ns := e\<rparr>)) }
                      else Some (True, Some s') } })"

text \<open>The result is the region taken, or \<open>None\<close> for \<open>false\<close>.\<close>

definition wd_dirty_region_scheduler_take ::
    "wd_dirty_region_scheduler option \<Rightarrow> u16 \<Rightarrow> u64 \<Rightarrow>
     (u16 option \<times> wd_dirty_region_scheduler option) option" where
  "wd_dirty_region_scheduler_take sched cursor_region_id now_ns =
     (case sched of None \<Rightarrow> Some (None, None)
      | Some s \<Rightarrow>
        if ds_count s = 0 then Some (None, sched)
        else
          do { s \<leftarrow> heap_prune s;
               starved \<leftarrow>
                 (if heap_count s \<noteq> 0 \<and> starvation_ns s \<noteq> 0 then
                    do { oldest \<leftarrow> rd (heap s) 0;
                         Some (if now_ns \<ge> he_enqueued_ns oldest
                                  \<and> now_ns - he_enqueued_ns oldest \<ge> starvation_ns s
                               then he_region_id oldest else UINT16_MAX) }
                  else Some UINT16_MAX);
               selected \<leftarrow> (if starved = UINT16_MAX then find_next_queued s cursor_region_id
                            else Some starved);
               if selected = UINT16_MAX then Some (None, Some s)
               else
                 do { is_queued \<leftarrow> rd (queued s) (unat selected);
                      if \<not> is_queued then Some (None, Some s)
                      else
                        do { q \<leftarrow> wr_elem (queued s) (unat selected) False;
                             b \<leftarrow> bit_clear (queued_bits s) selected;
                             Some (Some selected,
                                   Some (s\<lparr>queued := q, queued_bits := b, ds_count := ds_count s - 1\<rparr>)) } } })"

definition wd_dirty_region_scheduler_forget ::
    "wd_dirty_region_scheduler option \<Rightarrow> u16 \<Rightarrow> wd_dirty_region_scheduler option option" where
  "wd_dirty_region_scheduler_forget sched region_id =
     (case sched of None \<Rightarrow> Some None
      | Some s \<Rightarrow>
        if region_id \<ge> ds_capacity s then Some sched
        else
          let r = unat region_id in
          do { is_queued \<leftarrow> rd (queued s) r;
               s \<leftarrow> (if is_queued then
                       do { q \<leftarrow> wr_elem (queued s) r False;
                            b \<leftarrow> bit_clear (queued_bits s) region_id;
                            Some (s\<lparr>queued := q, queued_bits := b,
                                    ds_count := (if ds_count s \<noteq> 0 then ds_count s - 1 else ds_count s)\<rparr>) }
                     else Some s);
               e \<leftarrow> wr_elem (enqueued_ns s) r 0;
               ser \<leftarrow> rd (serial s) r;
               sers \<leftarrow> wr_elem (serial s) r (ser + 1);
               Some (Some (s\<lparr>enqueued_ns := e, serial := sers\<rparr>)) })"

definition wd_dirty_region_scheduler_contains ::
    "wd_dirty_region_scheduler option \<Rightarrow> u16 \<Rightarrow> bool option" where
  "wd_dirty_region_scheduler_contains sched region_id =
     (case sched of None \<Rightarrow> Some False
      | Some s \<Rightarrow> if region_id < ds_capacity s then rd (queued s) (unat region_id) else Some False)"

definition wd_dirty_region_scheduler_count :: "wd_dirty_region_scheduler option \<Rightarrow> u16" where
  "wd_dirty_region_scheduler_count sched = (case sched of None \<Rightarrow> 0 | Some s \<Rightarrow> ds_count s)"

definition wd_dirty_region_scheduler_enqueued_ns ::
    "wd_dirty_region_scheduler option \<Rightarrow> u16 \<Rightarrow> u64 option" where
  "wd_dirty_region_scheduler_enqueued_ns sched region_id =
     (case sched of None \<Rightarrow> Some 0
      | Some s \<Rightarrow> if region_id < ds_capacity s then rd (enqueued_ns s) (unat region_id) else Some 0)"

section \<open>The bit set and its cyclic scan\<close>

definition bits_repr :: "u64 list \<Rightarrow> bool list \<Rightarrow> bool" where
  "bits_repr bits q \<longleftrightarrow>
     length bits = (length q + 63) div 64 \<and>
     (\<forall>i < length q. bit (bits ! (i div 64)) (i mod 64) = q ! i)"

lemma word_index: "i < n \<Longrightarrow> i div 64 < (n + 63) div 64" for i n :: nat
  by linarith

lemma div_mod_64_neq: "i \<noteq> j \<Longrightarrow> i div 64 = j div 64 \<Longrightarrow> i mod 64 \<noteq> j mod 64" for i j :: nat
  by (metis div_mult_mod_eq)

lemma bits_repr_update:
  assumes "bits_repr bits q" "r < length q"
    and w: "\<And>j. j < 64 \<Longrightarrow> bit w j \<longleftrightarrow> (if j = r mod 64 then v else bit (bits ! (r div 64)) j)"
  shows "bits_repr (bits[r div 64 := w]) (q[r := v])"
proof -
  have len: "r div 64 < length bits"
    using assms(1,2) word_index [of r "length q"] by (simp add: bits_repr_def)
  have "bit (bits[r div 64 := w] ! (i div 64)) (i mod 64) = q[r := v] ! i" if i: "i < length q" for i
  proof (cases "i div 64 = r div 64")
    case True
    then show ?thesis
      using assms(1,2) i len w [of "i mod 64"] div_mod_64_neq [of i r]
      by (cases "i = r") (auto simp: bits_repr_def)
  next
    case False
    then have "i \<noteq> r" by auto
    with False show ?thesis using assms(1) i by (simp add: bits_repr_def)
  qed
  then show ?thesis using assms(1) by (simp add: bits_repr_def)
qed

lemma bit_set_ok:
  assumes "bits_repr bits q" "unat r < length q"
  shows "\<exists>bits'. bit_set bits r = Some bits' \<and> bits_repr bits' (q[unat r := True])"
proof -
  have len: "unat r div 64 < length bits"
    using assms word_index [of "unat r" "length q"] by (simp add: bits_repr_def)
  have "bits_repr (bits[unat r div 64 := bits ! (unat r div 64) OR push_bit (unat r mod 64) 1]) (q[unat r := True])"
    by (rule bits_repr_update [OF assms]) (auto simp: bit_or_iff bit_exp_iff)
  with len show ?thesis by (simp add: bit_set_def unat_div unat_mod)
qed

lemma bit_clear_ok:
  assumes "bits_repr bits q" "unat r < length q"
  shows "\<exists>bits'. bit_clear bits r = Some bits' \<and> bits_repr bits' (q[unat r := False])"
proof -
  have len: "unat r div 64 < length bits"
    using assms word_index [of "unat r" "length q"] by (simp add: bits_repr_def)
  have "bits_repr (bits[unat r div 64 := bits ! (unat r div 64) AND NOT (push_bit (unat r mod 64) 1)])
          (q[unat r := False])"
    by (rule bits_repr_update [OF assms]) (auto simp: bit_and_iff bit_not_iff bit_exp_iff)
  with len show ?thesis by (simp add: bit_clear_def unat_div unat_mod)
qed

lemma ctzll_ok:
  assumes "w \<noteq> 0"
  shows "ctzll w < 64" "bit w (ctzll w)" "j < ctzll w \<Longrightarrow> \<not> bit w j"
proof -
  let ?xs = "takeWhile (\<lambda>i. \<not> bit w i) [0..<64]"
  obtain i where i: "bit w i" using assms by (auto simp: bit_eq_iff)
  then have i64: "i < 64" using bit_imp_le_length [of w i] by simp
  have "length ?xs \<noteq> length [0..<64]"
  proof
    assume "length ?xs = length [0..<64]"
    then have "?xs = [0..<64]" by (metis takeWhile_eq_take take_all order_refl)
    then have "\<forall>i \<in> set [0..<64]. \<not> bit w i" by (simp only: takeWhile_eq_all_conv)
    with i i64 show False by auto
  qed
  moreover have "length ?xs \<le> length [0..<64]" by (rule length_takeWhile_le)
  ultimately have lt: "length ?xs < length [0..<64]" by linarith
  then show "ctzll w < 64" by (simp add: ctzll_def)
  with nth_length_takeWhile [OF lt] show "bit w (ctzll w)" by (simp add: ctzll_def)
  show "\<not> bit w j" if j: "j < ctzll w"
  proof -
    have "?xs ! j = j" using j lt by (simp add: takeWhile_nth ctzll_def)
    moreover have "?xs ! j \<in> set ?xs" using j by (simp add: ctzll_def)
    ultimately show ?thesis by (metis set_takeWhileD)
  qed
qed

lemma find_append: "find P (xs @ ys) = (case find P xs of None \<Rightarrow> find P ys | Some x \<Rightarrow> Some x)"
  by (induction xs) auto

lemma find_upt_skip:
  fixes lo m fin :: nat
  assumes "lo \<le> m" "m \<le> fin" "\<And>j. lo \<le> j \<Longrightarrow> j < m \<Longrightarrow> \<not> P j"
  shows "find P [lo..<fin] = find P [m..<fin]"
proof -
  have "[lo..<fin] = [lo..<m] @ [m..<fin]" using assms(1,2) by (metis le_add_diff_inverse upt_add_eq_append)
  moreover have "find P [lo..<m] = None" using assms(3) by (auto simp: find_None_iff)
  ultimately show ?thesis by (simp add: find_append)
qed

lemma find_upt_Some:
  fixes lo i fin :: nat
  assumes "lo \<le> i" "i < fin" "P i" "\<And>j. lo \<le> j \<Longrightarrow> j < i \<Longrightarrow> \<not> P j"
  shows "find P [lo..<fin] = Some i"
  using find_upt_skip [of lo i fin P] assms by (simp add: upt_conv_Cons)

lemma bit_low_mask: "bit (2 ^ k - 1 :: u64) j \<longleftrightarrow> j < k \<and> j < 64"
  using bit_mask_iff [where 'a = u64, of k j] by (auto simp: mask_eq_exp_minus_1)

lemma last_word_partial: "0 < fin \<Longrightarrow> fin mod 64 \<noteq> 0 \<Longrightarrow> fin = (fin - 1) div 64 * 64 + fin mod 64" for fin :: nat
  by (cases fin) (simp_all add: mod_Suc, presburger)

lemma last_word_full: "0 < fin \<Longrightarrow> fin mod 64 = 0 \<Longrightarrow> fin = (fin - 1) div 64 * 64 + 64" for fin :: nat
  by (cases fin) (simp_all add: mod_Suc split: if_splits, presburger)

lemma before_last_word: "w < (fin - 1) div 64 \<Longrightarrow> w * 64 + 64 < fin" for fin w :: nat
  by linarith

lemma scan_words_ok:
  assumes repr: "bits_repr (queued_bits s) (queued s)" and len: "length (queued s) = unat (ds_capacity s)"
    and fin: "fin \<le> length (queued s)"
  shows "\<lbrakk>lo < fin; word = lo div 64;
          \<And>j. j < 64 \<Longrightarrow> bit bits j \<longleftrightarrow> bit (queued_bits s ! word) j \<and> lo \<le> word * 64 + j\<rbrakk> \<Longrightarrow>
     scan_words s fin ((fin - 1) div 64) word bits = Some (find (\<lambda>i. queued s ! i) [lo..<fin])"
proof (induction "fin - lo" arbitrary: lo word bits rule: less_induct)
  case less
  let ?B = "queued_bits s" and ?q = "queued s" and ?last = "(fin - 1) div 64"
  have word: "word \<le> ?last" "word * 64 \<le> lo" "lo < word * 64 + 64" using less.prems(1,2) by linarith+
  define mb where "mb = (if word = ?last \<and> fin mod 64 \<noteq> 0
                         then bits AND (push_bit (fin mod 64) 1 - 1) else bits)"
  have at: "bit (?B ! word) j = ?q ! (word * 64 + j)" if "j < 64" "word * 64 + j < fin" for j
    using repr that fin by (auto simp: bits_repr_def dest: spec [of _ "word * 64 + j"])
  have mb: "bit mb j \<longleftrightarrow> lo \<le> word * 64 + j \<and> word * 64 + j < fin \<and> ?q ! (word * 64 + j)"
    if j: "j < 64" for j
  proof (cases "word = ?last \<and> fin mod 64 \<noteq> 0")
    case True
    then have f: "fin = word * 64 + fin mod 64" using last_word_partial [of fin] less.prems(1) by simp
    have "j < fin mod 64 \<longleftrightarrow> word * 64 + j < fin" by (subst (2) f) simp
    then show ?thesis using True less.prems(3) [OF j] at [OF j] j
      by (auto simp: mb_def bit_and_iff bit_low_mask)
  next
    case False
    then have "word < ?last \<or> word = ?last \<and> fin mod 64 = 0" using word(1) by linarith
    then have f: "word * 64 + j < fin"
      using j less.prems(1) last_word_full [of fin] before_last_word [of word fin] by auto
    have "mb = bits" using False by (auto simp: mb_def)
    with f show ?thesis using less.prems(3) [OF j] at [OF j f] by blast
  qed
  have unf: "scan_words s fin ?last word bits =
      (if mb \<noteq> 0 \<and> word * 64 + ctzll mb < unat (ds_capacity s) then Some (Some (word * 64 + ctzll mb))
       else if word + 1 > ?last then Some None
       else (case rd ?B (word + 1) of None \<Rightarrow> None | Some w \<Rightarrow> scan_words s fin ?last (word + 1) w))"
    by (subst scan_words.simps) (simp only: Let_def mb_def [symmetric] word(1) not_True_eq_False if_False)
  show ?case
  proof (cases "mb = 0")
    case False
    let ?j = "ctzll mb"
    note c = ctzll_ok [OF False]
    from mb [OF c(1)] c(2) have i: "lo \<le> word * 64 + ?j" "word * 64 + ?j < fin" "?q ! (word * 64 + ?j)"
      by blast+
    have "\<not> ?q ! k" if k: "lo \<le> k" "k < word * 64 + ?j" for k
    proof -
      obtain j where "k = word * 64 + j" using word(2) k(1) by (metis le_trans le_iff_add)
      then show ?thesis using c(1) c(3) [of j] mb [of j] k i by auto
    qed
    then have "find (\<lambda>i. ?q ! i) [lo..<fin] = Some (word * 64 + ?j)" using i by (intro find_upt_Some)
    with False i(2) fin len show ?thesis unfolding unf by simp
  next
    case True
    have none: "\<not> ?q ! k" if k: "lo \<le> k" "k < fin" "k < word * 64 + 64" for k
    proof -
      obtain j where "k = word * 64 + j" using word(2) k(1) by (metis le_trans le_iff_add)
      then show ?thesis using True mb [of j] k by auto
    qed
    show ?thesis
    proof (cases "word + 1 > ?last")
      case last: True
      then have "fin \<le> word * 64 + 64" by linarith
      then have "find (\<lambda>i. ?q ! i) [lo..<fin] = None" using none by (auto simp: find_None_iff)
      with True last show ?thesis unfolding unf by simp
    next
      case more: False
      let ?lo = "(word + 1) * 64"
      have lo': "?lo < fin" using more before_last_word [of word fin] by simp
      have inb: "word + 1 < length ?B" using lo' fin repr by (simp add: bits_repr_def)
      have "scan_words s fin ?last (word + 1) (?B ! (word + 1)) = Some (find (\<lambda>i. ?q ! i) [?lo..<fin])"
        using less.hyps [of ?lo "word + 1" "?B ! (word + 1)"] lo' word(3) by simp
      moreover have "find (\<lambda>i. ?q ! i) [lo..<fin] = find (\<lambda>i. ?q ! i) [?lo..<fin]"
        using none lo' word(3) by (intro find_upt_skip) auto
      ultimately show ?thesis using True more inb unfolding unf by simp
    qed
  qed
qed

lemma scan_pass_ok:
  assumes repr: "bits_repr (queued_bits s) (queued s)" and len: "length (queued s) = unat (ds_capacity s)"
    and fin: "fin \<le> length (queued s)"
  shows "scan_pass s start fin = Some (find (\<lambda>i. queued s ! i) [start..<fin])"
proof (cases "start < fin")
  case False
  then show ?thesis by (simp add: scan_pass_def)
next
  case True
  let ?w = "queued_bits s ! (start div 64)"
  have "start div 64 < length (queued_bits s)"
    using True fin repr word_index [of start "length (queued s)"] by (simp add: bits_repr_def)
  moreover have "scan_words s fin ((fin - 1) div 64) (start div 64) (?w AND push_bit (start mod 64) (NOT 0))
        = Some (find (\<lambda>i. queued s ! i) [start..<fin])"
  proof (rule scan_words_ok [OF repr len fin True refl])
    fix j :: nat assume j: "j < 64"
    have "start mod 64 \<le> j \<longleftrightarrow> start \<le> start div 64 * 64 + j"
      using div_mult_mod_eq [of start 64] by (intro iffI; linarith)
    then show "bit (?w AND push_bit (start mod 64) (NOT 0)) j \<longleftrightarrow> bit ?w j \<and> start \<le> start div 64 * 64 + j"
      using j by (auto simp: bit_and_iff bit_push_bit_iff bit_not_iff bit_mask_iff)
  qed
  ultimately show ?thesis using True by (simp add: scan_pass_def)
qed

section \<open>Invariant\<close>

definition queued_ids :: "bool list \<Rightarrow> nat list" where
  "queued_ids q = filter (\<lambda>i. q ! i) [0..<length q]"

definition region_entry :: "wd_dirty_region_scheduler \<Rightarrow> nat \<Rightarrow> wd_dirty_region_heap_entry" where
  "region_entry s r =
     \<lparr>he_enqueued_ns = enqueued_ns s ! r, he_serial = serial s ! r, he_region_id = word_of_nat r\<rparr>"

text \<open>
  The arrays have the length of the grid, the bits and the count describe \<open>queued\<close>; the heap
  is ordered, lies in its block and has an up-to-date entry for every queued region.
\<close>

definition arrays_inv :: "wd_dirty_region_scheduler \<Rightarrow> bool" where
  "arrays_inv s \<longleftrightarrow>
     ds_capacity s \<noteq> 0 \<and> length (queued s) = unat (ds_capacity s) \<and>
     length (enqueued_ns s) = unat (ds_capacity s) \<and> length (serial s) = unat (ds_capacity s) \<and>
     bits_repr (queued_bits s) (queued s) \<and> bit_word_count s = length (queued_bits s) \<and>
     unat (ds_count s) = length (queued_ids (queued s))"

definition heap_inv :: "wd_dirty_region_scheduler \<Rightarrow> bool" where
  "heap_inv s \<longleftrightarrow>
     length (heap s) = heap_capacity s \<and> heap_count s \<le> heap_capacity s \<and>
     heap_ordered (heap s) (heap_count s)"

definition heap_covers :: "wd_dirty_region_scheduler \<Rightarrow> bool" where
  "heap_covers s \<longleftrightarrow>
     (\<forall>r < length (queued s). queued s ! r \<longrightarrow> region_entry s r \<in> set (take (heap_count s) (heap s)))"

definition sched_inv :: "wd_dirty_region_scheduler \<Rightarrow> bool" where
  "sched_inv s \<longleftrightarrow> arrays_inv s \<and> heap_inv s \<and> heap_covers s"

lemma length_queued_ids_update:
  assumes "r < length q"
  shows "length (queued_ids (q[r := v])) + (if q ! r then 1 else 0) =
         length (queued_ids q) + (if v then 1 else 0)"
proof -
  let ?l = "filter (\<lambda>i. q ! i) [0..<r]" and ?u = "filter (\<lambda>i. q ! i) [Suc r..<length q]"
  have split: "[0..<length q] = [0..<r] @ [r] @ [Suc r..<length q]"
    using assms upt_add_eq_append [of 0 r "length q - r"] by (simp add: upt_conv_Cons)
  have "queued_ids q = ?l @ (if q ! r then [r] else []) @ ?u"
    by (simp add: queued_ids_def split)
  moreover have "queued_ids (q[r := v]) = ?l @ (if v then [r] else []) @ ?u"
  proof -
    have "filter (\<lambda>i. q[r := v] ! i) [0..<r] = ?l" by (rule filter_cong) auto
    moreover have "filter (\<lambda>i. q[r := v] ! i) [Suc r..<length q] = ?u" by (rule filter_cong) auto
    ultimately show ?thesis using assms by (cases v) (simp_all add: queued_ids_def split)
  qed
  ultimately show ?thesis by simp
qed

lemma length_queued_ids_le: "length (queued_ids q) \<le> length q"
  by (metis queued_ids_def length_filter_le length_upt minus_nat.diff_0)

lemma in_queued_ids: "r \<in> set (queued_ids q) \<longleftrightarrow> r < length q \<and> q ! r"
  by (auto simp: queued_ids_def)

section \<open>Heap operations keep the invariant\<close>

lemma set_take_Suc: "n < length xs \<Longrightarrow> set (take (Suc n) xs) = insert (xs ! n) (set (take n xs))"
  by (simp add: take_Suc_conv_app_nth)

lemma heap_push_ok:
  assumes inv: "heap_inv s" and r: "unat r < length (enqueued_ns s)" "unat r < length (serial s)"
  shows "heap_push ok junk s r = Some (False, s) \<and> \<not> ok \<or>
         (\<exists>h c. heap_push ok junk s r = Some (True, s\<lparr>heap := h, heap_capacity := c, heap_count := heap_count s + 1\<rparr>)
             \<and> heap_inv (s\<lparr>heap := h, heap_capacity := c, heap_count := heap_count s + 1\<rparr>)
             \<and> set (take (heap_count s + 1) h) = insert (region_entry s (unat r)) (set (take (heap_count s) (heap s))))"
proof (cases "fst (heap_reserve ok junk s (heap_count s + 1))")
  case False
  then show ?thesis by (auto simp: heap_push_def heap_reserve_def Let_def split: if_splits)
next
  case True
  let ?n = "heap_count s" and ?e = "region_entry s (unat r)"
  obtain ext c where res: "heap_reserve ok junk s (?n + 1) = (True, s\<lparr>heap := heap s @ ext, heap_capacity := c\<rparr>)"
    and c: "length (heap s @ ext) = c" "?n < c"
  proof (cases "heap_capacity s \<ge> ?n + 1")
    case True
    then show ?thesis using that [where ext = "[]" and c = "heap_capacity s"] inv by (simp add: heap_reserve_def heap_inv_def)
  next
    case False
    let ?g = "(if heap_capacity s \<noteq> 0 then heap_capacity s * WD_SERVER_DIRTY_REGION_HEAP_GROWTH_MULTIPLIER
               else WD_SERVER_DIRTY_REGION_HEAP_INITIAL_CAPACITY)"
    let ?c = "if ?g < ?n + 1 then ?n + 1 else ?g"
    have "heap_reserve ok junk s (?n + 1) =
            (True, s\<lparr>heap := heap s @ replicate (?c - length (heap s)) junk, heap_capacity := ?c\<rparr>)"
      using False True unfolding heap_reserve_def Let_def by (simp split: if_splits)
    moreover have "heap_capacity s \<le> ?c" using False inv by (auto simp: heap_inv_def)
    ultimately show ?thesis using that [where ext = "replicate (?c - length (heap s)) junk" and c = ?c] inv
      by (simp add: heap_inv_def)
  qed
  let ?h = "(heap s @ ext)[?n := ?e]"
  have nth: "?h ! i = heap s ! i" if "i < ?n" for i
    using that inv by (simp add: heap_inv_def nth_append)
  have "ordered_but_up ?h (?n + 1) ?n"
    using inv nth by (auto simp: ordered_but_up_def heap_inv_def heap_ordered_def)
  from heap_sift_up_ok [OF this] c obtain h where
    h: "heap_sift_up ?h ?n = Some h" "length h = c" "heap_ordered h (?n + 1)"
       "set (take (?n + 1) h) = set (take (?n + 1) ?h)" by auto
  have "set (take (?n + 1) ?h) = insert ?e (set (take ?n (heap s)))"
    using c inv by (simp add: set_take_Suc heap_inv_def)
  moreover have "heap_push ok junk s r = Some (True, s\<lparr>heap := h, heap_capacity := c, heap_count := ?n + 1\<rparr>)"
    using c r h(1) unfolding heap_push_def res by (simp add: region_entry_def)
  ultimately show ?thesis using h c by (auto simp: heap_inv_def)
qed

lemma heap_pop_ok:
  assumes inv: "heap_inv s" and n: "heap_count s \<noteq> 0"
  shows "\<exists>h. heap_pop s = Some (s\<lparr>heap := h, heap_count := heap_count s - 1\<rparr>)
             \<and> heap_inv (s\<lparr>heap := h, heap_count := heap_count s - 1\<rparr>)
             \<and> set (take (heap_count s) (heap s)) = insert (heap s ! 0) (set (take (heap_count s - 1) h))"
proof -
  obtain m where m: "heap_count s = Suc m" using n by (cases "heap_count s") auto
  have len: "Suc m \<le> length (heap s)" using inv m by (simp add: heap_inv_def)
  show ?thesis
  proof (cases "m = 0")
    case True
    with m len have "take (heap_count s) (heap s) = [heap s ! 0]" by (cases "heap s") auto
    moreover have "heap_pop s = Some (s\<lparr>heap := heap s, heap_count := 0\<rparr>)" using True m by (simp add: heap_pop_def)
    ultimately show ?thesis using True m inv by (auto simp: heap_inv_def heap_ordered_def intro!: exI [of _ "heap s"])
  next
    case False
    let ?h = "(heap s)[0 := heap s ! m]"
    have "ordered_but_down ?h m 0"
      using inv m len by (auto simp: ordered_but_down_def heap_inv_def heap_ordered_def nth_list_update)
    from heap_sift_down_ok [OF this] False len obtain h where
      h: "heap_sift_down ?h m 0 = Some h" "length h = length (heap s)" "heap_ordered h m"
         "set (take m h) = set (take m ?h)" by auto
    obtain x xs where xs: "heap s = x # xs" using len by (cases "heap s") auto
    obtain k where k: "m = Suc k" using False by (cases m) auto
    have "insert x (set (take m ?h)) = set (take (Suc m) (heap s))"
      using len by (auto simp: xs k set_take_Suc)
    moreover have "heap_pop s = Some (s\<lparr>heap := h, heap_count := m\<rparr>)"
      using False m len h(1) xs by (simp add: heap_pop_def Let_def)
    ultimately show ?thesis using h m len inv xs by (auto simp: heap_inv_def intro!: exI [of _ h])
  qed
qed

end
