(* ===== verification/WD_Scheduler_Refine.thy ===== *)
theory WD_Scheduler_Refine
  imports WD_Scheduler
begin

text \<open>
  What the dirty-region scheduler promises. The abstract scheduler is the set of queued
  regions with the time each became dirty; \<open>take\<close> returns the oldest one if it has waited
  for the starvation time, and otherwise the first queued one after the cursor, in cyclic
  order. The operations of \<open>WD_Scheduler\<close>, with their heap, serials and bit set, implement
  it without invalid accesses.
\<close>

section \<open>The abstract scheduler\<close>

record age_queue =
  aq_starvation :: u64
  aq_queued :: "bool list"
  aq_age :: "u64 list"

definition oldest_region :: "age_queue \<Rightarrow> nat" where
  "oldest_region a = snd (Min (set (map (\<lambda>r. (aq_age a ! r, r)) (queued_ids (aq_queued a)))))"

definition cyclic_from :: "nat \<Rightarrow> nat \<Rightarrow> nat list" where
  "cyclic_from start n = [start..<n] @ [0..<start]"

definition next_region :: "age_queue \<Rightarrow> u16 \<Rightarrow> nat" where
  "next_region a cursor =
     (let n = length (aq_queued a) in
      the (find (\<lambda>r. aq_queued a ! r) (cyclic_from ((unat cursor + 1) mod n) n)))"

definition is_starved :: "age_queue \<Rightarrow> u64 \<Rightarrow> nat \<Rightarrow> bool" where
  "is_starved a now r \<longleftrightarrow>
     aq_starvation a \<noteq> 0 \<and> aq_age a ! r \<le> now \<and> aq_starvation a \<le> now - aq_age a ! r"

definition chosen_region :: "age_queue \<Rightarrow> u16 \<Rightarrow> u64 \<Rightarrow> nat" where
  "chosen_region a cursor now =
     (if is_starved a now (oldest_region a) then oldest_region a else next_region a cursor)"

datatype ds_op =
    Enqueue bool wd_dirty_region_heap_entry u16 u64
  | Take u16 u64
  | Forget u16
  | Reset
  | Contains u16
  | Count
  | Enqueued_ns u16

datatype ds_res = Done | Flag bool | Region "u16 option" | Number u16 | Time u64

fun ds_step :: "ds_op \<Rightarrow> wd_dirty_region_scheduler option \<Rightarrow>
                  (ds_res \<times> wd_dirty_region_scheduler option) option" where
  "ds_step (Enqueue ok junk r now) s =
     map_option (\<lambda>(b, s'). (Flag b, s')) (wd_dirty_region_scheduler_enqueue ok junk s r now)"
| "ds_step (Take cursor now) s =
     map_option (\<lambda>(r, s'). (Region r, s')) (wd_dirty_region_scheduler_take s cursor now)"
| "ds_step (Forget r) s = map_option (\<lambda>s'. (Done, s')) (wd_dirty_region_scheduler_forget s r)"
| "ds_step Reset s = map_option (\<lambda>s'. (Done, s')) (wd_dirty_region_scheduler_reset s)"
| "ds_step (Contains r) s = map_option (\<lambda>b. (Flag b, s)) (wd_dirty_region_scheduler_contains s r)"
| "ds_step Count s = Some (Number (wd_dirty_region_scheduler_count s), s)"
| "ds_step (Enqueued_ns r) s =
     map_option (\<lambda>t. (Time t, s)) (wd_dirty_region_scheduler_enqueued_ns s r)"

fun ds_spec :: "ds_op \<Rightarrow> age_queue \<Rightarrow> ds_res \<times> age_queue" where
  "ds_spec (Enqueue ok junk r now) a =
     (if length (aq_queued a) \<le> unat r then (Flag False, a)
      else if aq_queued a ! unat r then (Flag True, a)
      else (Flag True,
            a\<lparr>aq_queued := (aq_queued a)[unat r := True],
              aq_age := (aq_age a)[unat r := if aq_age a ! unat r \<noteq> 0 then aq_age a ! unat r
                                             else if now \<noteq> 0 then now else 1]\<rparr>))"
| "ds_spec (Take cursor now) a =
     (if queued_ids (aq_queued a) = [] then (Region None, a)
      else let r = chosen_region a cursor now
           in (Region (Some (word_of_nat r)), a\<lparr>aq_queued := (aq_queued a)[r := False]\<rparr>))"
| "ds_spec (Forget r) a =
     (Done, a\<lparr>aq_queued := (aq_queued a)[unat r := False], aq_age := (aq_age a)[unat r := 0]\<rparr>)"
| "ds_spec Reset a =
     (Done, a\<lparr>aq_queued := replicate (length (aq_queued a)) False,
              aq_age := replicate (length (aq_age a)) 0\<rparr>)"
| "ds_spec (Contains r) a = (Flag (unat r < length (aq_queued a) \<and> aq_queued a ! unat r), a)"
| "ds_spec Count a = (Number (word_of_nat (length (queued_ids (aq_queued a)))), a)"
| "ds_spec (Enqueued_ns r) a =
     (Time (if unat r < length (aq_age a) then aq_age a ! unat r else 0), a)"

definition sched_abs :: "wd_dirty_region_scheduler \<Rightarrow> age_queue" where
  "sched_abs s = \<lparr>aq_starvation = starvation_ns s, aq_queued = queued s, aq_age = enqueued_ns s\<rparr>"

section \<open>Taking a region\<close>

lemma heap_entry_current_ok:
  assumes "arrays_inv s"
  shows "heap_entry_current s e = Some (he_region_id e < ds_capacity s \<and> queued s ! unat (he_region_id e)
           \<and> region_entry s (unat (he_region_id e)) = e)"
  using assms by (cases e) (auto simp: heap_entry_current_def arrays_inv_def region_entry_def word_less_nat_alt)

lemma heap_entry_current_heap:
  "heap_entry_current (s\<lparr>heap := h, heap_count := n\<rparr>) e = heap_entry_current s e"
  by (simp add: heap_entry_current_def cong: if_cong)

lemma heap_prune_ok:
  "sched_inv s \<Longrightarrow>
     \<exists>h n. heap_prune s = Some (s\<lparr>heap := h, heap_count := n\<rparr>) \<and> sched_inv (s\<lparr>heap := h, heap_count := n\<rparr>)
           \<and> (n \<noteq> 0 \<longrightarrow> heap_entry_current s (h ! 0) = Some True)"
proof (induction "heap_count s" arbitrary: s rule: less_induct)
  case less
  from less.prems have inv: "arrays_inv s" "heap_inv s" "heap_covers s" by (simp_all add: sched_inv_def)
  show ?case
  proof (cases "heap_count s = 0")
    case True
    then have "heap_prune s = Some s" by (simp add: heap_prune.simps)
    moreover have "s\<lparr>heap := heap s, heap_count := heap_count s\<rparr> = s" by simp
    ultimately show ?thesis using less.prems True by metis
  next
    case False
    let ?e = "heap s ! 0"
    have n: "0 < length (heap s)" using False inv(2) by (auto simp: heap_inv_def)
    show ?thesis
    proof (cases "heap_entry_current s ?e = Some True")
      case True
      then show ?thesis using False less.prems n
        by (auto simp: heap_prune.simps [of s] intro!: exI [of _ "heap s"] exI [of _ "heap_count s"])
    next
      case stale: False
      then have cur: "heap_entry_current s ?e = Some False" using heap_entry_current_ok [OF inv(1)] by auto
      from heap_pop_ok [OF inv(2) False] obtain h where
        h: "heap_pop s = Some (s\<lparr>heap := h, heap_count := heap_count s - 1\<rparr>)"
           "heap_inv (s\<lparr>heap := h, heap_count := heap_count s - 1\<rparr>)"
           "set (take (heap_count s) (heap s)) = insert ?e (set (take (heap_count s - 1) h))" by blast
      let ?s = "s\<lparr>heap := h, heap_count := heap_count s - 1\<rparr>"
      have "region_entry s r \<noteq> ?e" if r: "r < length (queued s)" "queued s ! r" for r
      proof
        assume e: "region_entry s r = ?e"
        have "unat (word_of_nat r :: u16) = r"
          using r(1) inv(1) unat_u16_lt [of "ds_capacity s"] by (simp add: arrays_inv_def)
        with e [symmetric] r cur heap_entry_current_ok [OF inv(1), of ?e] inv(1) show False
          by (simp add: region_entry_def arrays_inv_def word_less_nat_alt)
      qed
      then have cov: "heap_covers ?s" using inv(3) h(3) by (fastforce simp: heap_covers_def region_entry_def)
      have "sched_inv ?s" using inv(1) h(2) cov by (simp add: sched_inv_def arrays_inv_def)
      from less.hyps [OF _ this] False obtain h' n where
        "heap_prune ?s = Some (?s\<lparr>heap := h', heap_count := n\<rparr>)" "sched_inv (?s\<lparr>heap := h', heap_count := n\<rparr>)"
        "n \<noteq> 0 \<longrightarrow> heap_entry_current ?s (h' ! 0) = Some True" by auto
      moreover have "heap_prune s = heap_prune ?s" using False n cur h(1) by (simp add: heap_prune.simps [of s])
      moreover have "heap_entry_current ?s e = heap_entry_current s e" for e
        by (rule heap_entry_current_heap)
      ultimately show ?thesis by auto
    qed
  qed
qed

lemma arrays_inv_small:
  assumes "arrays_inv s" "r < length (queued s)"
  shows "unat (word_of_nat r :: u16) = r" "r < 65535"
  using assms unat_u16_lt [of "ds_capacity s"] by (simp_all add: arrays_inv_def)

lemma sched_count_zero: "arrays_inv s \<Longrightarrow> ds_count s = 0 \<longleftrightarrow> queued_ids (queued s) = []"
  by (simp add: arrays_inv_def unat_eq_zero [symmetric])

lemma region_entry_key: "entry_key (region_entry s r) = (enqueued_ns s ! r, word_of_nat r)"
  by (simp add: entry_key_def region_entry_def)

lemma root_is_oldest:
  assumes inv: "sched_inv s" and n: "heap_count s \<noteq> 0" and cur: "heap_entry_current s (heap s ! 0) = Some True"
  shows "oldest_region (sched_abs s) = unat (he_region_id (heap s ! 0))"
    and "unat (he_region_id (heap s ! 0)) < length (queued s)"
    and "queued s ! unat (he_region_id (heap s ! 0))"
    and "he_enqueued_ns (heap s ! 0) = enqueued_ns s ! unat (he_region_id (heap s ! 0))"
proof -
  let ?e = "heap s ! 0" and ?r = "unat (he_region_id (heap s ! 0))"
  let ?A = "set (map (\<lambda>r. (enqueued_ns s ! r, r)) (queued_ids (queued s)))"
  from inv have inv': "arrays_inv s" "heap_inv s" "heap_covers s" by (simp_all add: sched_inv_def)
  from cur heap_entry_current_ok [OF inv'(1), of ?e]
  have r: "?r < length (queued s)" "queued s ! ?r" and e: "region_entry s ?r = ?e"
    using inv'(1) by (simp_all add: arrays_inv_def word_less_nat_alt)
  have "(enqueued_ns s ! ?r, ?r) \<le> (enqueued_ns s ! i, i)" if i: "i < length (queued s)" "queued s ! i" for i
  proof -
    have "region_entry s i \<in> set (take (heap_count s) (heap s))" using inv'(3) i by (simp add: heap_covers_def)
    then obtain k where k: "k < heap_count s" "heap s ! k = region_entry s i"
      by (auto simp: in_set_conv_nth)
    then have "entry_key ?e \<le> entry_key (region_entry s i)"
      using heap_root_least [of "heap s" "heap_count s" k] inv'(2) by (simp add: heap_inv_def)
    then have "(enqueued_ns s ! ?r, he_region_id ?e) \<le> (enqueued_ns s ! i, word_of_nat i)"
      using e region_entry_key [of s i] region_entry_key [of s ?r] by simp
    then show ?thesis using arrays_inv_small(1) [OF inv'(1) i(1)]
      by (auto simp: less_eq_prod_def word_le_nat_alt)
  qed
  then have "Min ?A = (enqueued_ns s ! ?r, ?r)"
    using r by (intro Min_eqI) (auto simp: in_queued_ids)
  then show "oldest_region (sched_abs s) = ?r" by (simp add: oldest_region_def sched_abs_def)
  show "?r < length (queued s)" "queued s ! ?r" by (fact r)+
  show "he_enqueued_ns ?e = enqueued_ns s ! ?r" using e by (metis region_entry_def wd_dirty_region_heap_entry.select_convs(1))
qed

lemma set_cyclic_from: "start \<le> n \<Longrightarrow> set (cyclic_from start n) = {0..<n}"
  by (auto simp: cyclic_from_def)

lemma next_region_ok:
  assumes q: "queued_ids (aq_queued a) \<noteq> []"
  shows "next_region a cursor < length (aq_queued a)" "aq_queued a ! next_region a cursor"
proof -
  let ?n = "length (aq_queued a)" and ?P = "\<lambda>r. aq_queued a ! r"
  let ?xs = "cyclic_from ((unat cursor + 1) mod ?n) ?n"
  obtain i where i: "i < ?n" "?P i"
    using q by (metis in_queued_ids list.set_intros(1) neq_Nil_conv)
  have "(unat cursor + 1) mod ?n \<le> ?n"
    using le_less_trans [OF le0 i(1)] by (intro less_imp_le mod_less_divisor)
  then have set: "set ?xs = {0..<?n}" by (rule set_cyclic_from)
  then have "find ?P ?xs \<noteq> None" using i by (auto simp: find_None_iff)
  then obtain r where r: "find ?P ?xs = Some r" by blast
  then have "r \<in> set ?xs" "?P r" by (auto simp: find_Some_iff in_set_conv_nth)
  with r set show "next_region a cursor < ?n" "?P (next_region a cursor)"
    by (simp_all add: next_region_def Let_def)
qed

lemma find_next_queued_ok:
  assumes inv: "arrays_inv s" and q: "queued_ids (queued s) \<noteq> []"
  shows "find_next_queued s cursor = Some (word_of_nat (next_region (sched_abs s) cursor))"
proof -
  let ?n = "length (queued s)" and ?P = "\<lambda>r. queued s ! r"
  let ?st = "(unat cursor + 1) mod ?n"
  have n: "?n = unat (ds_capacity s)" "0 < ?n" and bits: "bits_repr (queued_bits s) (queued s)"
    using inv by (auto simp: arrays_inv_def unat_gt_0)
  have st: "?st \<le> ?n" using n by (intro less_imp_le mod_less_divisor)
  have nz: "ds_count s \<noteq> 0" using q sched_count_zero [OF inv] by simp
  have passes: "scan_pass s ?st ?n = Some (find ?P [?st..<?n])" "scan_pass s 0 ?st = Some (find ?P [0..<?st])"
    using scan_pass_ok [OF bits n(1)] st by simp_all
  have "find ?P (cyclic_from ?st ?n) \<noteq> None"
    using next_region_ok [of "sched_abs s" cursor] q set_cyclic_from [OF st]
    by (auto simp: find_None_iff sched_abs_def)
  then obtain r where r: "find ?P (cyclic_from ?st ?n) = Some r" by blast
  have "find_next_queued s cursor = Some (word_of_nat r)"
    using r nz passes unfolding find_next_queued_def n(1) [symmetric]
    by (auto simp: Let_def cyclic_from_def find_append split: option.splits)
  then show ?thesis using r by (simp add: next_region_def sched_abs_def Let_def)
qed

lemma dequeue_inv:
  assumes inv: "sched_inv s" and r: "unat r < length (queued s)" "queued s ! unat r"
  shows "\<exists>b. bit_clear (queued_bits s) r = Some b \<and>
             sched_inv (s\<lparr>queued := (queued s)[unat r := False], queued_bits := b, ds_count := ds_count s - 1\<rparr>)"
proof -
  from inv have inv': "arrays_inv s" "heap_inv s" "heap_covers s" by (simp_all add: sched_inv_def)
  then obtain b where b: "bit_clear (queued_bits s) r = Some b" "bits_repr b ((queued s)[unat r := False])"
    using bit_clear_ok r(1) by (metis arrays_inv_def)
  have "length b = length (queued_bits s)"
    using b(2) inv'(1) by (simp add: bits_repr_def arrays_inv_def)
  moreover have "unat (ds_count s - 1) = length (queued_ids ((queued s)[unat r := False]))"
  proof -
    have "length (queued_ids ((queued s)[unat r := False])) + 1 = unat (ds_count s)"
      using length_queued_ids_update [OF r(1), of False] r(2) inv'(1) by (simp add: arrays_inv_def)
    then show ?thesis by (subst unat_sub_exact) simp_all
  qed
  ultimately have "arrays_inv (s\<lparr>queued := (queued s)[unat r := False], queued_bits := b, ds_count := ds_count s - 1\<rparr>)"
    using inv'(1) b(2) by (simp add: arrays_inv_def)
  moreover have "heap_covers (s\<lparr>queued := (queued s)[unat r := False], queued_bits := b, ds_count := ds_count s - 1\<rparr>)"
    using inv'(3) r(1) by (auto simp: heap_covers_def region_entry_def nth_list_update split: if_splits)
  ultimately show ?thesis using b(1) inv'(2) by (simp add: sched_inv_def heap_inv_def)
qed

lemma take_refines:
  assumes inv: "sched_inv s"
  shows "\<exists>r s'. ds_step (Take cursor now) (Some s) = Some (r, Some s') \<and> sched_inv s'
                \<and> ds_spec (Take cursor now) (sched_abs s) = (r, sched_abs s')"
proof (cases "queued_ids (queued s) = []")
  case True
  then show ?thesis using inv sched_count_zero [of s]
    by (simp add: wd_dirty_region_scheduler_take_def sched_abs_def sched_inv_def)
next
  case False
  let ?a = "sched_abs s"
  from heap_prune_ok [OF inv] obtain h n where
    pr: "heap_prune s = Some (s\<lparr>heap := h, heap_count := n\<rparr>)" and inv1: "sched_inv (s\<lparr>heap := h, heap_count := n\<rparr>)"
    and cur: "n \<noteq> 0 \<longrightarrow> heap_entry_current s (h ! 0) = Some True" by blast
  define t where "t = s\<lparr>heap := h, heap_count := n\<rparr>"
  have t: "queued t = queued s" "enqueued_ns t = enqueued_ns s" "sched_abs t = ?a" "heap t = h" "heap_count t = n"
    "starvation_ns t = starvation_ns s" by (simp_all add: t_def sched_abs_def)
  have inv2: "sched_inv t" "arrays_inv t" using inv1 by (simp_all add: t_def sched_inv_def)
  have n: "n \<noteq> 0"
  proof
    assume "n = 0"
    with inv1 have "\<not> queued s ! r" if "r < length (queued s)" for r
      using that by (auto simp: sched_inv_def heap_covers_def)
    with False show False by (auto simp: queued_ids_def filter_empty_conv)
  qed
  then have "heap_entry_current t (heap t ! 0) = Some True"
    using cur by (simp add: t_def heap_entry_current_heap)
  note root = root_is_oldest [OF inv2(1) _ this, unfolded t, OF n]
  have h0: "rd h 0 = Some (h ! 0)"
    using inv1 n by (auto simp: sched_inv_def heap_inv_def rd_def)
  define sel :: u16 where "sel = word_of_nat (chosen_region ?a cursor now)"
  have nxt: "find_next_queued t cursor = Some (word_of_nat (next_region ?a cursor))"
    using find_next_queued_ok [OF inv2(2)] False by (simp add: t)
  have sel: "unat sel = chosen_region ?a cursor now" "unat sel < length (queued s)" "queued s ! unat sel"
  proof -
    have c: "chosen_region ?a cursor now < length (queued s) \<and> queued s ! chosen_region ?a cursor now"
      using root next_region_ok [of ?a cursor] False by (simp add: chosen_region_def sched_abs_def)
    then show "unat sel = chosen_region ?a cursor now"
      using arrays_inv_small(1) [OF inv2(2)] by (simp add: sel_def t)
    with c show "unat sel < length (queued s)" "queued s ! unat sel" by simp_all
  qed
  have max: "sel \<noteq> UINT16_MAX" "he_region_id (h ! 0) \<noteq> UINT16_MAX"
    using arrays_inv_small(2) [OF inv2(2), unfolded t, OF sel(2)]
      arrays_inv_small(2) [OF inv2(2), unfolded t, OF root(2)] by auto
  from dequeue_inv [OF inv2(1), of sel] sel obtain b where
    deq: "bit_clear (queued_bits t) sel = Some b"
      "sched_inv (t\<lparr>queued := (queued t)[unat sel := False], queued_bits := b, ds_count := ds_count t - 1\<rparr>)"
    by (auto simp: t)
  let ?u = "t\<lparr>queued := (queued t)[unat sel := False], queued_bits := b, ds_count := ds_count t - 1\<rparr>"
  have cnt: "ds_count s \<noteq> 0" using sched_count_zero [of s] inv False by (simp add: sched_inv_def)
  define starved where "starved = (if is_starved ?a now (oldest_region ?a) then he_region_id (h ! 0) else UINT16_MAX)"
  have st: "(if heap_count t \<noteq> 0 \<and> starvation_ns t \<noteq> 0
             then rd (heap t) 0 \<bind> (\<lambda>oldest. Some (if now \<ge> he_enqueued_ns oldest
                       \<and> now - he_enqueued_ns oldest \<ge> starvation_ns t then he_region_id oldest else UINT16_MAX))
             else Some UINT16_MAX) = Some starved"
    using root n by (auto simp: t h0 is_starved_def starved_def sched_abs_def)
  have ch: "(if starved = UINT16_MAX then find_next_queued t cursor else Some starved) = Some sel"
    using max root nxt by (auto simp: starved_def sel_def chosen_region_def)
  have "wd_dirty_region_scheduler_take (Some s) cursor now = Some (Some sel, Some ?u)"
    using sel deq(1) t(1)
    by (simp only: wd_dirty_region_scheduler_take_def option.case cnt max if_False pr t_def [symmetric]
        Option.bind.bind_lunit st ch) simp
  moreover have "sched_abs ?u = ?a\<lparr>aq_queued := (queued s)[unat sel := False]\<rparr>"
    by (simp add: sched_abs_def t)
  ultimately show ?thesis using deq(2) False sel
    by (auto simp: sched_abs_def sel_def Let_def)
qed

section \<open>Queueing a region\<close>

lemma mark_arrays_inv:
  assumes inv: "arrays_inv s" and r: "unat r < length (queued s)" "\<not> queued s ! unat r"
    and e: "length e = length (queued s)" "length ser = length (queued s)"
  shows "\<exists>b. bit_set (queued_bits s) r = Some b \<and>
             arrays_inv (s\<lparr>enqueued_ns := e, serial := ser, queued := (queued s)[unat r := True],
                           queued_bits := b, ds_count := ds_count s + 1\<rparr>)"
proof -
  from inv obtain b where b: "bit_set (queued_bits s) r = Some b" "bits_repr b ((queued s)[unat r := True])"
    using bit_set_ok r(1) by (metis arrays_inv_def)
  have "length b = length (queued_bits s)"
    using b(2) inv by (simp add: bits_repr_def arrays_inv_def)
  moreover have "unat (ds_count s + 1) = length (queued_ids ((queued s)[unat r := True]))"
  proof -
    have c: "length (queued_ids ((queued s)[unat r := True])) = unat (ds_count s) + 1"
      using length_queued_ids_update [OF r(1), of True] r(2) inv by (simp add: arrays_inv_def)
    moreover have "length (queued_ids ((queued s)[unat r := True])) \<le> unat (ds_capacity s)"
      using length_queued_ids_le [of "(queued s)[unat r := True]"] inv by (simp add: arrays_inv_def)
    ultimately show ?thesis using unat_u16_lt [of "ds_capacity s"] by (subst unat_add_exact) simp_all
  qed
  ultimately show ?thesis using inv b e by (auto simp: arrays_inv_def)
qed

lemma heap_covers_insert:
  assumes "heap_covers s" and r: "r < length (queued s)" "length (enqueued_ns s) = length (queued s)"
      "length (serial s) = length (queued s)"
    and "queued t = (queued s)[r := True]" "enqueued_ns t = (enqueued_ns s)[r := x]" "serial t = (serial s)[r := y]"
    and "set (take (heap_count t) (heap t)) = insert (region_entry t r) (set (take (heap_count s) (heap s)))"
  shows "heap_covers t"
  using assms by (auto simp: heap_covers_def region_entry_def nth_list_update split: if_splits)

lemma heap_covers_serial:
  assumes "heap_covers s" and "\<not> queued s ! r"
    and "queued t = queued s" "enqueued_ns t = (enqueued_ns s)[r := x]" "serial t = (serial s)[r := y]"
    and "heap_count t = heap_count s" "heap t = heap s"
  shows "heap_covers t"
  unfolding heap_covers_def
proof (intro allI impI)
  fix i assume i: "i < length (queued t)" "queued t ! i"
  with assms have "i \<noteq> r" by auto
  with assms i show "region_entry t i \<in> set (take (heap_count t) (heap t))"
    by (auto simp: heap_covers_def region_entry_def)
qed

lemma enqueue_refines:
  assumes inv: "sched_inv s"
  shows "\<exists>b s'. wd_dirty_region_scheduler_enqueue ok junk (Some s) r now = Some (b, Some s') \<and> sched_inv s'
           \<and> (ds_spec (Enqueue ok junk r now) (sched_abs s) = (Flag b, sched_abs s')
              \<or> \<not> ok \<and> \<not> b \<and> sched_abs s' = sched_abs s)"
proof (cases "unat r < length (queued s) \<and> \<not> queued s ! unat r")
  case False
  then show ?thesis using inv
    by (auto simp: wd_dirty_region_scheduler_enqueue_def sched_inv_def arrays_inv_def sched_abs_def
        word_le_nat_alt Let_def)
next
  case True
  then have r: "unat r < length (queued s)" "\<not> queued s ! unat r" by simp_all
  from inv have inv': "arrays_inv s" "heap_inv s" "heap_covers s" by (simp_all add: sched_inv_def)
  have lens: "length (enqueued_ns s) = length (queued s)" "length (serial s) = length (queued s)"
    "\<not> ds_capacity s \<le> r" using inv'(1) r(1) by (auto simp: arrays_inv_def word_le_nat_alt)
  let ?age = "enqueued_ns s ! unat r" and ?ser = "serial s ! unat r"
  define e where "e = (enqueued_ns s)[unat r := if ?age = 0 then (if now \<noteq> 0 then now else 1) else ?age]"
  define sr where "sr = (serial s)[unat r := if ?ser + 1 = 0 then 1 else ?ser + 1]"
  have len1: "length e = length (queued s)" "length sr = length (queued s)" using lens by (simp_all add: e_def sr_def)
  have ewr: "(if ?age = 0 then wr_elem (enqueued_ns s) (unat r) (if now \<noteq> 0 then now else 1) else Some (enqueued_ns s)) = Some e"
    using r lens by (simp add: e_def)
  from mark_arrays_inv [OF inv'(1) r len1] obtain b where
    b: "bit_set (queued_bits s) r = Some b"
    and inv1: "arrays_inv (s\<lparr>enqueued_ns := e, serial := sr, queued := (queued s)[unat r := True],
                           queued_bits := b, ds_count := ds_count s + 1\<rparr>)" by blast
  define t where "t = s\<lparr>enqueued_ns := e, serial := sr, queued := (queued s)[unat r := True],
                           queued_bits := b, ds_count := ds_count s + 1\<rparr>"
  have t: "arrays_inv t" "heap_inv t" "queued t = (queued s)[unat r := True]" "enqueued_ns t = e" "serial t = sr"
      "heap t = heap s" "heap_count t = heap_count s" "starvation_ns t = starvation_ns s"
    using inv1 inv'(2) by (simp_all add: t_def heap_inv_def)
  have spec: "ds_spec (Enqueue ok junk r now) (sched_abs s) = (Flag True, sched_abs t)"
    using r by (simp add: sched_abs_def t e_def)
  have unf: "wd_dirty_region_scheduler_enqueue ok junk (Some s) r now =
      (case heap_push ok junk t r of None \<Rightarrow> None
       | Some (pushed, s') \<Rightarrow>
           if \<not> pushed then
             do { q \<leftarrow> wr_elem (queued s') (unat r) False;
                  b \<leftarrow> bit_clear (queued_bits s') r;
                  e \<leftarrow> (if ?age = 0 then wr_elem (enqueued_ns s') (unat r) 0 else Some (enqueued_ns s'));
                  Some (False, Some (s'\<lparr>ds_count := ds_count s' - 1, queued := q,
                                        queued_bits := b, enqueued_ns := e\<rparr>)) }
           else Some (True, Some s'))"
    using r lens b unfolding wd_dirty_region_scheduler_enqueue_def Let_def
    by (simp add: ewr sr_def [symmetric] t_def [symmetric] split: option.splits)
  have rt: "unat r < length (enqueued_ns t)" "unat r < length (serial t)" using r len1 by (simp_all add: t)
  from heap_push_ok [OF t(2) rt, of ok junk] show ?thesis
  proof (elim disjE exE conjE)
    fix h c
    let ?u = "t\<lparr>heap := h, heap_capacity := c, heap_count := heap_count t + 1\<rparr>"
    assume push: "heap_push ok junk t r = Some (True, ?u)" "heap_inv ?u"
      "set (take (heap_count t + 1) h) = insert (region_entry t (unat r)) (set (take (heap_count t) (heap t)))"
    have "heap_covers ?u"
      by (rule heap_covers_insert [OF inv'(3) r(1) lens(1,2)])
         (use push(3) t in \<open>simp_all add: e_def sr_def region_entry_def\<close>)
    then have "sched_inv ?u" using push(2) t(1) by (simp add: sched_inv_def arrays_inv_def)
    moreover have "sched_abs ?u = sched_abs t" by (simp add: sched_abs_def)
    moreover have "wd_dirty_region_scheduler_enqueue ok junk (Some s) r now = Some (True, Some ?u)"
      by (simp add: unf push(1))
    ultimately show ?thesis using spec by metis
  next
    assume fail: "heap_push ok junk t r = Some (False, t)" "\<not> ok"
    have rq: "unat r < length (queued t)" using r by (simp add: t)
    then obtain c where cl: "bit_clear (queued_bits t) r = Some c" "bits_repr c ((queued t)[unat r := False])"
      using bit_clear_ok [of "queued_bits t" "queued t" r] t(1) by (auto simp: arrays_inv_def)
    have q: "(queued t)[unat r := False] = queued s"
      using r by (metis t(3) list_update_id list_update_overwrite)
    have e0: "(if ?age = 0 then wr_elem (enqueued_ns t) (unat r) 0 else Some (enqueued_ns t)) = Some (enqueued_ns s)"
      using r lens list_update_id [of "enqueued_ns s" "unat r"] by (cases "?age = 0") (simp_all add: t e_def)
    let ?u = "t\<lparr>ds_count := ds_count s, queued := queued s, queued_bits := c, enqueued_ns := enqueued_ns s\<rparr>"
    have "length c = length (queued_bits s)"
      using cl(2) inv'(1) unfolding q by (simp add: bits_repr_def arrays_inv_def)
    then have "arrays_inv ?u" using inv'(1) cl(2) len1 q by (simp add: arrays_inv_def t_def)
    moreover have "heap_covers ?u"
      by (rule heap_covers_serial [OF inv'(3) r(2), where x = ?age]) (simp_all add: t_def sr_def)
    moreover have "heap_inv ?u" using t(2) by (simp add: heap_inv_def)
    ultimately have "sched_inv ?u" by (simp add: sched_inv_def)
    moreover have "wd_dirty_region_scheduler_enqueue ok junk (Some s) r now = Some (False, Some ?u)"
      using cl(1) rq unfolding unf fail(1) by (simp add: e0 q) (simp add: t_def)
    moreover have "sched_abs ?u = sched_abs s" by (simp add: sched_abs_def t_def)
    ultimately show ?thesis using fail(2) by blast
  qed
qed

section \<open>The other operations\<close>

lemma forget_refines:
  assumes inv: "sched_inv s"
  shows "\<exists>res s'. ds_step (Forget r) (Some s) = Some (res, Some s') \<and> sched_inv s'
                \<and> ds_spec (Forget r) (sched_abs s) = (res, sched_abs s')"
proof (cases "unat r < length (queued s)")
  case False
  then have "ds_capacity s \<le> r" using inv by (auto simp: sched_inv_def arrays_inv_def word_le_nat_alt)
  then show ?thesis using inv False
    by (auto simp: wd_dirty_region_scheduler_forget_def sched_abs_def sched_inv_def arrays_inv_def
        list_update_beyond not_less)
next
  case r: True
  let ?u = "unat r"
  have lens: "length (enqueued_ns s) = length (queued s)" "length (serial s) = length (queued s)"
    "\<not> ds_capacity s \<le> r" using inv r by (auto simp: sched_inv_def arrays_inv_def word_le_nat_alt)
  obtain t where t: "sched_inv t" "queued t = (queued s)[?u := False]" "enqueued_ns t = enqueued_ns s"
      "serial t = serial s" "starvation_ns t = starvation_ns s"
    and step: "wd_dirty_region_scheduler_forget (Some s) r =
      Some (Some (t\<lparr>enqueued_ns := (enqueued_ns s)[?u := 0], serial := (serial s)[?u := serial s ! ?u + 1]\<rparr>))"
  proof (cases "queued s ! ?u")
    case False
    then have "(queued s)[?u := False] = queued s" by (metis list_update_id)
    then show ?thesis using that [of s] False inv lens r
      by (simp add: wd_dirty_region_scheduler_forget_def Let_def)
  next
    case True
    then have "ds_count s \<noteq> 0"
      using sched_count_zero [of s] inv r in_queued_ids [of ?u "queued s"] by (auto simp: sched_inv_def)
    then show ?thesis using True dequeue_inv [OF inv r True] lens r that
      by (auto simp: wd_dirty_region_scheduler_forget_def Let_def)
  qed
  let ?v = "t\<lparr>enqueued_ns := (enqueued_ns s)[?u := 0], serial := (serial s)[?u := serial s ! ?u + 1]\<rparr>"
  have "heap_covers ?v"
    by (rule heap_covers_serial [of t ?u]) (use t r in \<open>simp_all add: sched_inv_def\<close>)
  then have "sched_inv ?v" using t lens by (auto simp: sched_inv_def arrays_inv_def heap_inv_def)
  moreover have "ds_spec (Forget r) (sched_abs s) = (Done, sched_abs ?v)"
    using t by (simp add: sched_abs_def)
  ultimately show ?thesis using step by simp
qed

lemma bits_repr_zero: "bits_repr (replicate ((n + 63) div 64) 0) (replicate n False)"
  by (auto simp: bits_repr_def word_index)

lemma queued_ids_replicate [simp]: "queued_ids (replicate n False) = []"
  by (auto simp: queued_ids_def filter_empty_conv)

lemma wr_range_all: "length m = n \<Longrightarrow> wr_range m 0 (replicate n v) = Some (replicate n v)"
  by (simp add: wr_range_def)

lemma reset_refines:
  assumes inv: "sched_inv s"
  shows "\<exists>res s'. ds_step Reset (Some s) = Some (res, Some s') \<and> sched_inv s'
                \<and> ds_spec Reset (sched_abs s) = (res, sched_abs s')"
proof -
  let ?n = "unat (ds_capacity s)"
  let ?t = "s\<lparr>queued := replicate ?n False, enqueued_ns := replicate ?n 0,
             queued_bits := replicate (bit_word_count s) 0, ds_count := 0, heap_count := 0\<rparr>"
  from inv have a: "arrays_inv s" "heap_inv s" by (simp_all add: sched_inv_def)
  then have w: "bit_word_count s = (?n + 63) div 64" by (simp add: arrays_inv_def bits_repr_def)
  have "wd_dirty_region_scheduler_reset (Some s) = Some (Some ?t)"
    using a(1) by (simp add: wd_dirty_region_scheduler_reset_def arrays_inv_def wr_range_all)
  moreover have "sched_inv ?t"
    using a bits_repr_zero [of ?n] w
    by (simp add: sched_inv_def arrays_inv_def heap_inv_def heap_covers_def heap_ordered_def)
  moreover have "ds_spec Reset (sched_abs s) = (Done, sched_abs ?t)"
    using a(1) by (simp add: sched_abs_def arrays_inv_def)
  ultimately show ?thesis by simp
qed

lemma query_refines:
  assumes inv: "sched_inv s" and "op \<in> {Contains r, Count, Enqueued_ns r}"
  shows "\<exists>res. ds_step op (Some s) = Some (res, Some s) \<and> ds_spec op (sched_abs s) = (res, sched_abs s)"
proof -
  from inv have "length (queued s) = unat (ds_capacity s)" "length (enqueued_ns s) = unat (ds_capacity s)"
    and c: "unat (ds_count s) = length (queued_ids (queued s))" by (simp_all add: sched_inv_def arrays_inv_def)
  moreover have "ds_count s = word_of_nat (length (queued_ids (queued s)))" by (simp add: c [symmetric])
  ultimately show ?thesis using assms(2)
    by (auto simp: wd_dirty_region_scheduler_contains_def wd_dirty_region_scheduler_count_def
        wd_dirty_region_scheduler_enqueued_ns_def sched_abs_def word_less_nat_alt)
qed

section \<open>The refinement\<close>

definition ds_inv :: "wd_dirty_region_scheduler option \<Rightarrow> bool" where
  "ds_inv sched = (case sched of None \<Rightarrow> False | Some s \<Rightarrow> sched_inv s)"

definition ds_abs :: "wd_dirty_region_scheduler option \<Rightarrow> age_queue" where
  "ds_abs sched = sched_abs (the sched)"

text \<open>The allocation of every enqueue succeeds.\<close>

fun ds_pre :: "ds_op \<Rightarrow> age_queue \<Rightarrow> bool" where
  "ds_pre (Enqueue ok junk r now) a = ok"
| "ds_pre _ a = True"

interpretation ds: data_refinement ds_step ds_spec ds_pre ds_inv ds_abs
proof unfold_locales
  fix c p assume inv: "ds_inv c" and pre: "ds_pre p (ds_abs c)"
  then obtain s where c: "c = Some s" and s: "sched_inv s" by (auto simp: ds_inv_def split: option.splits)
  have "\<exists>r s'. ds_step p (Some s) = Some (r, Some s') \<and> sched_inv s' \<and> ds_spec p (sched_abs s) = (r, sched_abs s')"
  proof (cases p)
    case (Enqueue ok junk r now)
    with pre enqueue_refines [OF s, of ok junk r now] show ?thesis
      by (auto simp del: ds_spec.simps)
  next
    case (Take cursor now) then show ?thesis using take_refines [OF s] by simp
  next
    case (Forget r) then show ?thesis using forget_refines [OF s] by simp
  next
    case Reset then show ?thesis using reset_refines [OF s] by simp
  next
    case (Contains r) with query_refines [OF s, of p r] s show ?thesis by blast
  next
    case Count with query_refines [OF s, of p 0] s show ?thesis by blast
  next
    case (Enqueued_ns r) with query_refines [OF s, of p r] s show ?thesis by blast
  qed
  then show "\<exists>r c'. ds_step p c = Some (r, c') \<and> ds_inv c' \<and> ds_spec p (ds_abs c) = (r, ds_abs c')"
    using c by (auto simp: ds_inv_def ds_abs_def)
qed

lemma create_inv:
  assumes "wd_dirty_region_scheduler_create ok cap rx st = Some s"
  shows "sched_inv s" "sched_abs s = \<lparr>aq_starvation = st, aq_queued = replicate (unat cap) False,
           aq_age = replicate (unat cap) 0\<rparr>"
  using assms bits_repr_zero [of "unat cap"]
  by (auto simp: wd_dirty_region_scheduler_create_def Let_def sched_inv_def arrays_inv_def heap_inv_def
      heap_covers_def heap_ordered_def sched_abs_def split: if_splits)

section \<open>Properties\<close>

lemma oldest_region_ok:
  assumes q: "queued_ids (aq_queued a) \<noteq> []"
  shows "oldest_region a < length (aq_queued a)" "aq_queued a ! oldest_region a"
    and "\<lbrakk>r < length (aq_queued a); aq_queued a ! r\<rbrakk> \<Longrightarrow>
           (aq_age a ! oldest_region a, oldest_region a) \<le> (aq_age a ! r, r)"
proof -
  let ?A = "set (map (\<lambda>r. (aq_age a ! r, r)) (queued_ids (aq_queued a)))"
  have A: "finite ?A" "?A \<noteq> {}" using q by auto
  from Min_in [OF A] obtain i where i: "i \<in> set (queued_ids (aq_queued a))" "Min ?A = (aq_age a ! i, i)" by auto
  then have o: "oldest_region a = i" by (simp add: oldest_region_def)
  with i show "oldest_region a < length (aq_queued a)" "aq_queued a ! oldest_region a"
    by (simp_all add: in_queued_ids)
  assume "r < length (aq_queued a)" "aq_queued a ! r"
  then have "(aq_age a ! r, r) \<in> ?A" by (auto simp: in_queued_ids)
  from Min_le [OF A(1) this] show "(aq_age a ! oldest_region a, oldest_region a) \<le> (aq_age a ! r, r)"
    by (simp only: i(2) o)
qed

lemma chosen_region_ok:
  assumes "queued_ids (aq_queued a) \<noteq> []"
  shows "chosen_region a cursor now < length (aq_queued a)" "aq_queued a ! chosen_region a cursor now"
  using oldest_region_ok(1,2) [OF assms] next_region_ok [OF assms] by (simp_all add: chosen_region_def)

text \<open>Taking as many regions as are queued gives each of them once.\<close>

lemma spec_drain:
  "\<lbrakk>length cs = length (queued_ids (aq_queued a)); length (aq_queued a) \<le> 65536\<rbrakk> \<Longrightarrow>
     \<exists>rs a'. run_spec ds_spec (map (\<lambda>(c, t). Take c t) cs) a = (map (\<lambda>r. Region (Some (word_of_nat r))) rs, a')
       \<and> distinct rs \<and> set rs = set (queued_ids (aq_queued a)) \<and> queued_ids (aq_queued a') = []"
proof (induction cs arbitrary: a)
  case Nil
  then show ?case by auto
next
  case (Cons c cs)
  obtain cu t where c: "c = (cu, t)" by force
  from Cons.prems have ne: "queued_ids (aq_queued a) \<noteq> []" by auto
  let ?r = "chosen_region a cu t"
  let ?a = "a\<lparr>aq_queued := (aq_queued a)[?r := False]\<rparr>"
  note r = chosen_region_ok [OF ne, of cu t]
  have "length cs = length (queued_ids (aq_queued ?a))"
    using length_queued_ids_update [OF r(1), of False] r(2) Cons.prems by simp
  from Cons.IH [OF this] Cons.prems(2) obtain rs a' where
    IH: "run_spec ds_spec (map (\<lambda>(c, t). Take c t) cs) ?a = (map (\<lambda>r. Region (Some (word_of_nat r))) rs, a')"
      "distinct rs" "set rs = set (queued_ids (aq_queued ?a))" "queued_ids (aq_queued a') = []" by auto
  have "set (queued_ids (aq_queued ?a)) = set (queued_ids (aq_queued a)) - {?r}"
    using r by (auto simp: in_queued_ids nth_list_update split: if_splits)
  with IH(3) have set: "set rs = set (queued_ids (aq_queued a)) - {?r}" by (rule trans)
  have "?r \<in> set (queued_ids (aq_queued a))" using r by (simp only: in_queued_ids)
  with set IH(2) have rs: "distinct (?r # rs)" "set (?r # rs) = set (queued_ids (aq_queued a))"
    unfolding distinct.simps list.set by blast+
  have "ds_spec (Take cu t) a = (Region (Some (word_of_nat ?r)), ?a)" using ne by (simp add: Let_def)
  then have "run_spec ds_spec (map (\<lambda>(c, t). Take c t) (c # cs)) a =
      (map (\<lambda>r. Region (Some (word_of_nat r))) (?r # rs), a')"
    using IH(1) by (simp add: c del: ds_spec.simps)
  with rs IH(4) show ?case by blast
qed

text \<open>
  C3: the dirty-region scheduler implements its abstract specification: from a freshly created
  scheduler, any sequence of enqueue, take, forget, reset and query operations whose
  allocations succeed runs without an access outside its arrays and returns exactly what the
  set of queued regions with their ages returns.
\<close>

theorem scheduler_refines_age_queue:
  assumes "wd_dirty_region_scheduler_create True cap rx starve = Some s"
    and "spec_ok ds_pre ds_spec ops
           \<lparr>aq_starvation = starve, aq_queued = replicate (unat cap) False, aq_age = replicate (unat cap) 0\<rparr>"
  shows "\<exists>rs s'. run_steps ds_step ops (Some s) = Some (rs, Some s') \<and> sched_inv s' \<and>
           run_spec ds_spec ops
             \<lparr>aq_starvation = starve, aq_queued = replicate (unat cap) False, aq_age = replicate (unat cap) 0\<rparr>
             = (rs, sched_abs s')"
proof -
  have "ds_inv (Some s)" "ds_abs (Some s) = \<lparr>aq_starvation = starve,
      aq_queued = replicate (unat cap) False, aq_age = replicate (unat cap) 0\<rparr>"
    using create_inv [OF assms(1)] by (simp_all add: ds_inv_def ds_abs_def)
  with ds.run_refines [of "Some s" ops] assms(2) show ?thesis
    by (auto simp: ds_inv_def ds_abs_def split: option.splits)
qed

abbreviation (input) some_entry :: wd_dirty_region_heap_entry where
  "some_entry \<equiv> \<lparr>he_enqueued_ns = 7, he_serial = 7, he_region_id = 7\<rparr>"

theorem scheduler_refines_age_queue_witness:
  "\<exists>s s'. wd_dirty_region_scheduler_create True 4 2 500 = Some s \<and> sched_inv s' \<and>
     run_steps ds_step [Enqueue True some_entry 3 100, Enqueue True some_entry 1 0, Take 1 200, Forget 3,
                        Enqueue True some_entry 0 300, Take 1 501, Count] (Some s)
       = Some ([Flag True, Flag True, Region (Some 3), Done, Flag True, Region (Some 1), Number 1], Some s')"
  (is "\<exists>s s'. _ \<and> _ \<and> run_steps _ ?ops _ = Some (?rs, _)")
proof -
  obtain s where s: "wd_dirty_region_scheduler_create True 4 2 500 = Some s"
    by (simp add: wd_dirty_region_scheduler_create_def Let_def)
  have "fst (run_spec ds_spec ?ops
      \<lparr>aq_starvation = 500, aq_queued = replicate (unat (4 :: u16)) False, aq_age = replicate (unat (4 :: u16)) 0\<rparr>) = ?rs"
    by code_simp
  with scheduler_refines_age_queue [OF s, of ?ops] s show ?thesis
    by (auto simp del: ds_spec.simps run_spec.simps run_steps.simps)
qed

text \<open>
  C30: when the heap cannot grow, an enqueue leaves the queue as it was: for every outcome of the
  allocation the call returns; a failed call leaves the queued regions, their ages and the count
  unchanged, and with memory available it fails only for a region outside the grid. A successful
  call queues the region and keeps the age of a region that already has one.
\<close>

theorem enqueue_rolls_back:
  assumes "sched_inv s"
  shows "\<exists>b s'. wd_dirty_region_scheduler_enqueue ok junk (Some s) r now = Some (b, Some s') \<and> sched_inv s'
       \<and> (\<not> b \<longrightarrow> queued s' = queued s \<and> enqueued_ns s' = enqueued_ns s \<and> ds_count s' = ds_count s
                  \<and> (ok \<longrightarrow> ds_capacity s \<le> r))
       \<and> (b \<longrightarrow> r < ds_capacity s \<and> queued s' = (queued s)[unat r := True]
               \<and> (enqueued_ns s ! unat r \<noteq> 0 \<longrightarrow> enqueued_ns s' = enqueued_ns s))"
proof -
  from enqueue_refines [OF assms, of ok junk r now] obtain b s' where
    e: "wd_dirty_region_scheduler_enqueue ok junk (Some s) r now = Some (b, Some s')" "sched_inv s'"
      "ds_spec (Enqueue ok junk r now) (sched_abs s) = (Flag b, sched_abs s') \<or> \<not> ok \<and> \<not> b \<and> sched_abs s' = sched_abs s"
    by blast
  have cap: "length (queued s) = unat (ds_capacity s)" using assms by (simp add: sched_inv_def arrays_inv_def)
  have cnt: "ds_count s' = ds_count s" if "queued s' = queued s"
    using that assms e(2) by (simp add: sched_inv_def arrays_inv_def unat_eq_iff)
  have id: "(queued s)[unat r := True] = queued s" if "queued s ! unat r"
    using that by (metis list_update_id)
  have "(\<not> b \<longrightarrow> queued s' = queued s \<and> enqueued_ns s' = enqueued_ns s \<and> (ok \<longrightarrow> ds_capacity s \<le> r))
       \<and> (b \<longrightarrow> r < ds_capacity s \<and> queued s' = (queued s)[unat r := True]
               \<and> (enqueued_ns s ! unat r \<noteq> 0 \<longrightarrow> enqueued_ns s' = enqueued_ns s))"
    using e(3) cap id
    by (cases b) (auto simp: sched_abs_def word_le_nat_alt word_less_nat_alt split: if_splits)
  with e(1,2) cnt show ?thesis by blast
qed

theorem enqueue_rolls_back_witness:
  "\<exists>s b s'. wd_dirty_region_scheduler_create True 4 2 500 = Some s \<and>
     wd_dirty_region_scheduler_enqueue False some_entry (Some s) 3 10 = Some (b, Some s') \<and>
     \<not> b \<and> queued s' = queued s \<and> ds_count s' = 0"
proof -
  obtain s where s: "wd_dirty_region_scheduler_create True 4 2 500 = Some s"
    by (simp add: wd_dirty_region_scheduler_create_def Let_def)
  have s': "ds_count s = 0"
    using s by (auto simp: wd_dirty_region_scheduler_create_def Let_def)
  from enqueue_rolls_back [OF create_inv(1) [OF s], of False some_entry 3 10] obtain b s1 where
    e: "wd_dirty_region_scheduler_enqueue False some_entry (Some s) 3 10 = Some (b, Some s1)"
      "\<not> b \<longrightarrow> queued s1 = queued s \<and> ds_count s1 = ds_count s" by blast
  have "map_option fst (wd_dirty_region_scheduler_enqueue False some_entry
          (wd_dirty_region_scheduler_create True 4 2 500) 3 10) = Some False" by code_simp
  then have "\<not> b" by (simp add: s e(1))
  with e s s' show ?thesis by auto
qed

text \<open>
  C28: no queued region is lost or sent twice: taking as many times as there are queued regions,
  with any cursors and times, returns every queued region exactly once and leaves the
  scheduler empty.
\<close>

theorem take_drains_each_region_once:
  assumes "sched_inv s" and "length cs = unat (ds_count s)"
  shows "\<exists>rs s'. run_steps ds_step (map (\<lambda>(cursor, now). Take cursor now) cs) (Some s) =
             Some (map (\<lambda>r. Region (Some (word_of_nat r))) rs, Some s')
         \<and> distinct rs \<and> set rs = {r. r < unat (ds_capacity s) \<and> queued s ! r} \<and> ds_count s' = 0"
proof -
  let ?ops = "map (\<lambda>(cursor, now). Take cursor now) cs"
  have inv: "arrays_inv s" using assms(1) by (simp add: sched_inv_def)
  then have "length cs = length (queued_ids (aq_queued (sched_abs s)))" "length (aq_queued (sched_abs s)) \<le> 65536"
    using assms(2) unat_u16_lt [of "ds_capacity s"] by (simp_all add: sched_abs_def arrays_inv_def)
  from spec_drain [OF this] obtain rs a where
    rs: "run_spec ds_spec ?ops (sched_abs s) = (map (\<lambda>r. Region (Some (word_of_nat r))) rs, a)" "distinct rs"
      "set rs = set (queued_ids (queued s))" "queued_ids (aq_queued a) = []"
    by (auto simp: sched_abs_def)
  have "spec_ok ds_pre ds_spec ?ops b" for b by (induction cs arbitrary: b) auto
  with ds.run_refines [of "Some s" ?ops] assms(1) rs(1) obtain s' where
    s': "run_steps ds_step ?ops (Some s) = Some (map (\<lambda>r. Region (Some (word_of_nat r))) rs, Some s')"
      "sched_inv s'" "sched_abs s' = a"
    by (auto simp: ds_inv_def ds_abs_def simp del: map_map split: option.splits)
  have "ds_count s' = 0" using s'(2,3) rs(4) sched_count_zero [of s'] by (auto simp: sched_inv_def sched_abs_def)
  moreover have "set rs = {r. r < unat (ds_capacity s) \<and> queued s ! r}"
    using inv by (simp add: rs(3) set_eq_iff in_queued_ids arrays_inv_def)
  ultimately show ?thesis using s'(1) rs(2) by blast
qed

definition example_scheduler :: wd_dirty_region_scheduler where
  "example_scheduler = \<lparr>ds_capacity = 2, ds_regions_x = 2, ds_count = 1, starvation_ns = 500,
     queued = [False, True], enqueued_ns = [0, 9], serial = [0, 1], queued_bits = [2], bit_word_count = 1,
     heap = [\<lparr>he_enqueued_ns = 9, he_serial = 1, he_region_id = 1\<rparr>], heap_count = 1, heap_capacity = 1\<rparr>"

lemma example_scheduler_inv: "sched_inv example_scheduler"
proof -
  have "arrays_inv example_scheduler"
    by code_simp
  moreover have "heap_inv example_scheduler" "heap_covers example_scheduler"
    by (simp_all add: example_scheduler_def heap_inv_def heap_ordered_def heap_covers_def region_entry_def
        numeral_2_eq_2 less_Suc_eq all_conj_distrib nth_Cons')
  ultimately show ?thesis by (simp add: sched_inv_def)
qed

theorem take_drains_each_region_once_witness:
  "\<exists>rs s'. run_steps ds_step [Take 0 100] (Some example_scheduler) =
             Some (map (\<lambda>r. Region (Some (word_of_nat r))) rs, Some s')
         \<and> distinct rs \<and> set rs = {r. r < 2 \<and> [False, True] ! r}"
  using take_drains_each_region_once [OF example_scheduler_inv, of "[(0, 100)]"]
  by (auto simp: example_scheduler_def simp del: ds_step.simps run_steps.simps)

text \<open>
  C29: regions that have waited for the starvation time are served oldest first: when a queued
  region has waited that long, \<open>take\<close> returns the queued region with the earliest time, the
  lowest number among equals, whatever the cursor.
\<close>

theorem take_serves_starved_oldest_first:
  assumes inv: "sched_inv s" and r: "r < unat (ds_capacity s)" "queued s ! r"
    and "starvation_ns s \<noteq> 0" "enqueued_ns s ! r \<le> now" "starvation_ns s \<le> now - enqueued_ns s ! r"
  shows "\<exists>r0 s'. wd_dirty_region_scheduler_take (Some s) cursor now = Some (Some r0, Some s')
           \<and> r0 < ds_capacity s \<and> queued s ! unat r0
           \<and> (\<forall>i < unat (ds_capacity s). queued s ! i \<longrightarrow>
                (enqueued_ns s ! unat r0, unat r0) \<le> (enqueued_ns s ! i, i))"
proof -
  let ?a = "sched_abs s" and ?o = "oldest_region (sched_abs s)"
  have cap: "length (queued s) = unat (ds_capacity s)" using inv by (simp add: sched_inv_def arrays_inv_def)
  then have ne: "queued_ids (aq_queued ?a) \<noteq> []"
    using r by (metis in_queued_ids length_pos_if_in_set list.size(3) less_irrefl sched_abs_def age_queue.select_convs(2))
  note o = oldest_region_ok [OF ne, unfolded sched_abs_def, simplified, folded sched_abs_def]
  have le: "enqueued_ns s ! ?o \<le> enqueued_ns s ! r" using o(3) [of r] r cap by (auto simp: less_eq_prod_def)
  then have "now - enqueued_ns s ! r \<le> now - enqueued_ns s ! ?o"
    using assms(5) by (auto simp: word_le_nat_alt unat_sub)
  then have "is_starved ?a now ?o"
    using le assms(4-6) by (auto simp: is_starved_def sched_abs_def)
  then have ch: "chosen_region ?a cursor now = ?o" by (simp add: chosen_region_def)
  from take_refines [OF inv, of cursor now] ne ch obtain s' where
    "wd_dirty_region_scheduler_take (Some s) cursor now = Some (Some (word_of_nat ?o), Some s')"
    by (auto simp: Let_def)
  moreover have "unat (word_of_nat ?o :: u16) = ?o"
    using arrays_inv_small(1) [of s ?o] inv o(1) by (simp add: sched_inv_def)
  ultimately show ?thesis using o cap by (auto simp: word_less_nat_alt)
qed

theorem take_serves_starved_oldest_first_witness:
  "\<exists>r0 s'. wd_dirty_region_scheduler_take (Some example_scheduler) 1 600 = Some (Some r0, Some s') \<and> r0 < 2"
  using take_serves_starved_oldest_first [OF example_scheduler_inv, of 1 600 1]
  by (auto simp: example_scheduler_def word_le_nat_alt)

end
