(* ===== verification/WD_Selection.thy ===== *)
theory WD_Selection
  imports WD_Validate WD_Refine "HOL-Library.Monad_Syntax"
begin

text \<open>
  Clipboard text (\<open>src/src/common/wd_selection.c\<close>, \<open>src/src/server/wd_selection_capture.c\<close>,
  \<open>src/src/server/wd_selection_delivery.c\<close>): the UTF-8 validator, the selection payload, the
  buffer that collects what a Wayland source writes, and the slot that holds the text for
  the client. A null data pointer is \<open>None\<close> (the objects
  themselves are not null); a \<open>None\<close> result of an operation is a read or write
  outside a block. The \<open>uint32_t\<close> index of the validator never passes \<open>size\<close> and is a
  natural number.
\<close>

section \<open>UTF-8 text\<close>

definition wd_selection_mime_is_valid :: "u16 \<Rightarrow> bool" where
  "wd_selection_mime_is_valid mime_type \<longleftrightarrow> mime_type = 1 \<or> mime_type = 2"

definition wd_utf8_continuation :: "u8 \<Rightarrow> bool" where
  "wd_utf8_continuation byte \<longleftrightarrow> byte AND 0xc0 = 0x80"

text \<open>The loop of the validator.\<close>

function utf8_scan :: "bytes \<Rightarrow> nat \<Rightarrow> nat \<Rightarrow> bool option" where
  "utf8_scan data sz i =
     (if \<not> i < sz then Some True
      else
        case rd data i of None \<Rightarrow> None
        | Some first \<Rightarrow>
            let i = i + 1 in
            if first = 0 then Some False
            else if first \<le> 0x7f then utf8_scan data sz i
            else if first \<ge> 0xc2 \<and> first \<le> 0xdf then
              (if i \<ge> sz then Some False
               else case rd data i of None \<Rightarrow> None
                    | Some b1 \<Rightarrow>
                        if \<not> wd_utf8_continuation b1 then Some False else utf8_scan data sz (i + 1))
            else if first \<ge> 0xe0 \<and> first \<le> 0xef then
              (if sz - i < 2 then Some False
               else case (rd data i, rd data (i + 1)) of
                      (Some b1, Some b2) \<Rightarrow>
                        if \<not> wd_utf8_continuation b1 \<or> \<not> wd_utf8_continuation b2 then Some False
                        else if first = 0xe0 \<and> b1 < 0xa0 \<or> first = 0xed \<and> b1 \<ge> 0xa0 then Some False
                        else utf8_scan data sz (i + 2)
                    | _ \<Rightarrow> None)
            else if first \<ge> 0xf0 \<and> first \<le> 0xf4 then
              (if sz - i < 3 then Some False
               else case (rd data i, rd data (i + 1), rd data (i + 2)) of
                      (Some b1, Some b2, Some b3) \<Rightarrow>
                        if \<not> wd_utf8_continuation b1 \<or> \<not> wd_utf8_continuation b2 \<or> \<not> wd_utf8_continuation b3
                        then Some False
                        else if first = 0xf0 \<and> b1 < 0x90 \<or> first = 0xf4 \<and> b1 > 0x8f then Some False
                        else utf8_scan data sz (i + 3)
                    | _ \<Rightarrow> None)
            else Some False)"
  by pat_completeness auto
termination
  by (relation "measure (\<lambda>(data, sz, i). sz - i)") auto

declare utf8_scan.simps [simp del]

definition wd_selection_text_is_valid :: "bytes option \<Rightarrow> u32 \<Rightarrow> bool option" where
  "wd_selection_text_is_valid data sz =
     (case data of
        None \<Rightarrow> if sz \<noteq> 0 then Some False else Some True
      | Some bs \<Rightarrow> utf8_scan bs (unat sz) 0)"

text \<open>The loop that drops trailing NUL bytes.\<close>

fun trim_nul :: "bytes \<Rightarrow> nat \<Rightarrow> nat option" where
  "trim_nul data 0 = Some 0"
| "trim_nul data (Suc n) =
     (case rd data n of None \<Rightarrow> None
      | Some b \<Rightarrow> if b = 0 then trim_nul data n else Some (Suc n))"

text \<open>\<open>Some None\<close> is the result \<open>false\<close>.\<close>

definition wd_selection_text_normalize_size :: "bytes option \<Rightarrow> u32 \<Rightarrow> u32 option option" where
  "wd_selection_text_normalize_size data sz =
     (if data = None \<and> sz \<noteq> 0 then Some None
      else
        do { n \<leftarrow> (case data of None \<Rightarrow> Some 0 | Some bs \<Rightarrow> trim_nul bs (unat sz));
             if n > WD_SELECTION_MAX_TEXT_BYTES then Some None
             else
               do { ok \<leftarrow> wd_selection_text_is_valid data (word_of_nat n);
                    Some (if \<not> ok then None else Some (word_of_nat n)) } })"

section \<open>Selection payloads\<close>

definition selection_header_decode :: "bytes \<Rightarrow> wd_selection_payload_header" where
  "selection_header_decode bs =
     \<lparr>sel_session_id = field 0 1 bs, sel_connection_token = field 1 8 bs, sel_mime_type = field 9 2 bs,
      sel_data_size = field 11 4 bs\<rparr>"

definition selection_header_encode :: "wd_selection_payload_header \<Rightarrow> bytes" where
  "selection_header_encode h =
     le 1 (sel_session_id h) @ le 8 (sel_connection_token h) @ le 2 (sel_mime_type h) @ le 4 (sel_data_size h)"

interpretation selection_header: wire_codec 15 selection_header_encode selection_header_decode
proof unfold_locales
  fix h rest bs
  show "length (selection_header_encode h) = 15" by (simp add: selection_header_encode_def)
  show "selection_header_decode (selection_header_encode h @ rest) = h"
    by (simp add: selection_header_encode_def selection_header_decode_def)
  assume "15 \<le> length (bs :: bytes)"
  then show "selection_header_encode (selection_header_decode bs) = take 15 bs"
    using take_drop_join [of 1 0 bs 8] take_drop_join [of 9 0 bs 2] take_drop_join [of 11 0 bs 4]
    by (simp add: selection_header_encode_def selection_header_decode_def flip: append_assoc)
qed

text \<open>The view into the payload is the bytes it points to.\<close>

record wd_selection_text_view =
  tv_mime_type :: u16
  tv_data :: bytes
  tv_size :: u32

definition wd_selection_payload_decode ::
    "bytes option \<Rightarrow> u32 \<Rightarrow> u8 \<Rightarrow> u64 \<Rightarrow> wd_selection_text_view option option" where
  "wd_selection_payload_decode payload payload_size expected_session_id expected_connection_token =
     (case payload of None \<Rightarrow> Some None
      | Some bs \<Rightarrow>
        if expected_session_id = 0 \<or> expected_connection_token = 0 \<or> unat payload_size < 15 then Some None
        else
          do { hb \<leftarrow> rd_range bs 0 15;
               let h = selection_header_decode hb in
               if sel_session_id h \<noteq> expected_session_id \<or> sel_connection_token h \<noteq> expected_connection_token
                  \<or> \<not> wd_selection_mime_is_valid (sel_mime_type h)
                  \<or> \<not> wd_selection_payload_size_is_valid (Some h) payload_size then Some None
               else
                 do { ok \<leftarrow> wd_selection_text_is_valid (Some (drop 15 bs)) (sel_data_size h);
                      if \<not> ok then Some None
                      else Some (Some \<lparr>tv_mime_type = sel_mime_type h, tv_data = drop 15 bs,
                                       tv_size = sel_data_size h\<rparr>) } })"

text \<open>\<open>payload\<close> is the caller's block; its size is the \<open>payload_capacity\<close> argument.\<close>

definition wd_selection_payload_encode ::
    "u8 \<Rightarrow> u64 \<Rightarrow> u16 \<Rightarrow> bytes option \<Rightarrow> u32 \<Rightarrow> bytes option \<Rightarrow> nat \<Rightarrow> (u32 \<times> bytes) option option" where
  "wd_selection_payload_encode session_id connection_token mime_type txt text_size payload payload_capacity =
     (if session_id = 0 \<or> connection_token = 0 \<or> \<not> wd_selection_mime_is_valid mime_type
         \<or> unat text_size > WD_SELECTION_MAX_TEXT_BYTES then Some None
      else
        do { ok \<leftarrow> wd_selection_text_is_valid txt text_size;
             if \<not> ok then Some None
             else (case payload of None \<Rightarrow> Some None
               | Some out \<Rightarrow>
                   let needed = 15 + unat text_size in
                   if needed > payload_capacity \<or> needed > 4294967295 then Some None
                   else
                     do { out \<leftarrow> wr_range out 0 (selection_header_encode
                              \<lparr>sel_session_id = session_id, sel_connection_token = connection_token,
                               sel_mime_type = mime_type, sel_data_size = text_size\<rparr>);
                          out \<leftarrow> (if text_size \<noteq> 0 then
                                    do { bs \<leftarrow> txt; src \<leftarrow> rd_range bs 0 (unat text_size);
                                         wr_range out 15 src }
                                  else Some out);
                          Some (Some (word_of_nat needed, out)) }) })"

section \<open>The capture buffer\<close>

abbreviation (input) WD_SELECTION_CAPTURE_RAW_MAX_BYTES :: nat where "WD_SELECTION_CAPTURE_RAW_MAX_BYTES \<equiv> 1048577"
abbreviation (input) WD_SELECTION_CAPTURE_INITIAL_BYTES :: nat where "WD_SELECTION_CAPTURE_INITIAL_BYTES \<equiv> 65536"
abbreviation (input) WD_SELECTION_CAPTURE_GROWTH_MULTIPLIER :: nat where "WD_SELECTION_CAPTURE_GROWTH_MULTIPLIER \<equiv> 2"

text \<open>\<open>scb_data\<close> is the allocated block, one byte larger than \<open>scb_capacity\<close>.\<close>

record wd_selection_capture_buffer =
  scb_data :: "bytes option"
  scb_size :: nat
  scb_capacity :: nat
  scb_failed :: bool

definition wd_selection_capture_buffer_init :: wd_selection_capture_buffer where
  "wd_selection_capture_buffer_init = \<lparr>scb_data = None, scb_size = 0, scb_capacity = 0, scb_failed = False\<rparr>"

text \<open>The growth loop; it would not end from capacity 0, which \<open>None\<close> stands for.\<close>

partial_function (option) grow_capture :: "nat \<Rightarrow> nat \<Rightarrow> nat option" where
  "grow_capture cap required =
     (if cap < required then
        (if cap > WD_SELECTION_CAPTURE_RAW_MAX_BYTES div WD_SELECTION_CAPTURE_GROWTH_MULTIPLIER
         then Some WD_SELECTION_CAPTURE_RAW_MAX_BYTES
         else grow_capture (cap * WD_SELECTION_CAPTURE_GROWTH_MULTIPLIER) required)
      else Some cap)"

text \<open>\<open>mem_ok\<close> is the outcome of \<open>realloc\<close>, \<open>junk\<close> the contents of the bytes it adds.\<close>

definition reserve_capture_bytes ::
    "bool \<Rightarrow> u8 \<Rightarrow> wd_selection_capture_buffer \<Rightarrow> nat \<Rightarrow> (bool \<times> wd_selection_capture_buffer) option" where
  "reserve_capture_bytes mem_ok junk buffer required =
     (if required \<le> scb_capacity buffer then Some (True, buffer)
      else
        do { cap \<leftarrow> grow_capture (if scb_capacity buffer \<noteq> 0 then scb_capacity buffer
                                  else WD_SELECTION_CAPTURE_INITIAL_BYTES) required;
             if \<not> mem_ok then Some (False, buffer)
             else
               let old = (case scb_data buffer of None \<Rightarrow> [] | Some bs \<Rightarrow> bs) in
               Some (True, buffer\<lparr>scb_data := Some (old @ replicate (cap + 1 - length old) junk),
                                  scb_capacity := cap\<rparr>) })"

definition wd_selection_capture_buffer_append ::
    "bool \<Rightarrow> u8 \<Rightarrow> wd_selection_capture_buffer \<Rightarrow> bytes option \<Rightarrow> nat \<Rightarrow>
     (bool \<times> wd_selection_capture_buffer) option" where
  "wd_selection_capture_buffer_append mem_ok junk buffer data sz =
     (if data = None \<and> sz > 0 \<or> scb_failed buffer then Some (False, buffer)
      else if sz > 4294967295 \<or> sz > WD_SELECTION_CAPTURE_RAW_MAX_BYTES - scb_size buffer
      then Some (False, buffer\<lparr>scb_failed := True\<rparr>)
      else
        let required = scb_size buffer + sz in
        do { (reserved, buffer) \<leftarrow> reserve_capture_bytes mem_ok junk buffer required;
             if \<not> reserved then Some (False, buffer\<lparr>scb_failed := True\<rparr>)
             else
               do { buffer \<leftarrow> (if sz > 0 then
                       do { bs \<leftarrow> scb_data buffer;
                            src \<leftarrow> (case data of None \<Rightarrow> None | Some d \<Rightarrow> rd_range d 0 sz);
                            bs' \<leftarrow> wr_range bs (scb_size buffer) src;
                            Some (buffer\<lparr>scb_data := Some bs', scb_size := required\<rparr>) }
                     else Some buffer);
                    (case scb_data buffer of None \<Rightarrow> Some (True, buffer)
                     | Some bs \<Rightarrow>
                         do { bs' \<leftarrow> wr_elem bs (scb_size buffer) 0;
                              Some (True, buffer\<lparr>scb_data := Some bs'\<rparr>) }) } })"

text \<open>The new text block and its size, or \<open>None\<close> for \<open>false\<close>.\<close>

definition wd_selection_capture_buffer_finish ::
    "bool \<Rightarrow> wd_selection_capture_buffer \<Rightarrow> ((bytes \<times> u32) option \<times> wd_selection_capture_buffer) option" where
  "wd_selection_capture_buffer_finish mem_ok buffer =
     (if scb_failed buffer then Some (None, buffer)
      else
        do { normalized \<leftarrow> wd_selection_text_normalize_size (scb_data buffer) (word_of_nat (scb_size buffer));
             (case normalized of None \<Rightarrow> Some (None, buffer\<lparr>scb_failed := True\<rparr>)
              | Some n \<Rightarrow>
                  if \<not> mem_ok then Some (None, buffer\<lparr>scb_failed := True\<rparr>)
                  else
                    do { txt \<leftarrow>
                           (if n > 0 then
                              do { bs \<leftarrow> scb_data buffer; src \<leftarrow> rd_range bs 0 (unat n);
                                   wr_range (replicate (unat n + 1) 0) 0 src }
                            else Some (replicate (unat n + 1) 0));
                         Some (Some (txt, n), buffer) }) })"

section \<open>The delivery slot\<close>

record wd_selection_delivery =
  sd_text :: "bytes option"
  sd_size :: u32
  sd_known :: bool
  sd_pending :: bool

definition wd_selection_delivery_init :: wd_selection_delivery where
  "wd_selection_delivery_init = \<lparr>sd_text = None, sd_size = 0, sd_known = False, sd_pending = False\<rparr>"

definition wd_selection_delivery_mark_unknown :: "wd_selection_delivery \<Rightarrow> wd_selection_delivery" where
  "wd_selection_delivery_mark_unknown d = d\<lparr>sd_text := None, sd_size := 0, sd_known := False, sd_pending := False\<rparr>"

definition wd_selection_delivery_set_owned ::
    "wd_selection_delivery \<Rightarrow> bytes option \<Rightarrow> u32 \<Rightarrow> bool \<times> wd_selection_delivery" where
  "wd_selection_delivery_set_owned d txt sz =
     (if txt = None \<and> sz \<noteq> 0 then (False, d)
      else (True, d\<lparr>sd_text := txt, sd_size := sz, sd_known := True, sd_pending := True\<rparr>))"

definition wd_selection_delivery_request :: "wd_selection_delivery \<Rightarrow> wd_selection_delivery" where
  "wd_selection_delivery_request d = (if sd_known d then d\<lparr>sd_pending := True\<rparr> else d)"

definition wd_selection_delivery_pending :: "wd_selection_delivery \<Rightarrow> (bytes option \<times> u32) option" where
  "wd_selection_delivery_pending d =
     (if \<not> sd_known d \<or> \<not> sd_pending d then None else Some (sd_text d, sd_size d))"

definition wd_selection_delivery_mark_queued :: "wd_selection_delivery \<Rightarrow> wd_selection_delivery" where
  "wd_selection_delivery_mark_queued d = d\<lparr>sd_pending := False\<rparr>"

section \<open>UTF-8 as the encoding of code points\<close>

definition scalar_value :: "nat \<Rightarrow> bool" where
  "scalar_value cp \<longleftrightarrow> 0 < cp \<and> cp < 0x110000 \<and> \<not> (0xd800 \<le> cp \<and> cp < 0xe000)"

definition utf8_encode :: "nat \<Rightarrow> bytes" where
  "utf8_encode cp =
     map word_of_nat
      (if cp < 0x80 then [cp]
       else if cp < 0x800 then [0xc0 + cp div 64, 0x80 + cp mod 64]
       else if cp < 0x10000 then [0xe0 + cp div 4096, 0x80 + cp div 64 mod 64, 0x80 + cp mod 64]
       else [0xf0 + cp div 262144, 0x80 + cp div 4096 mod 64, 0x80 + cp div 64 mod 64, 0x80 + cp mod 64])"

text \<open>The length of the well-formed sequence at the head, if there is one.\<close>

fun utf8_len :: "bytes \<Rightarrow> nat option" where
  "utf8_len [] = None"
| "utf8_len (a # bs) =
     (if a = 0 then None
      else if a \<le> 0x7f then Some 1
      else if a \<ge> 0xc2 \<and> a \<le> 0xdf then
        (case bs of b # _ \<Rightarrow> if wd_utf8_continuation b then Some 2 else None | _ \<Rightarrow> None)
      else if a \<ge> 0xe0 \<and> a \<le> 0xef then
        (case bs of b # c # _ \<Rightarrow>
           if wd_utf8_continuation b \<and> wd_utf8_continuation c \<and> \<not> (a = 0xe0 \<and> b < 0xa0 \<or> a = 0xed \<and> b \<ge> 0xa0)
           then Some 3 else None | _ \<Rightarrow> None)
      else if a \<ge> 0xf0 \<and> a \<le> 0xf4 then
        (case bs of b # c # d # _ \<Rightarrow>
           if wd_utf8_continuation b \<and> wd_utf8_continuation c \<and> wd_utf8_continuation d
              \<and> \<not> (a = 0xf0 \<and> b < 0x90 \<or> a = 0xf4 \<and> b > 0x8f)
           then Some 4 else None | _ \<Rightarrow> None)
      else None)"

function utf8_ok :: "bytes \<Rightarrow> bool" where
  "utf8_ok bs = (if bs = [] then True else case utf8_len bs of None \<Rightarrow> False | Some k \<Rightarrow> utf8_ok (drop k bs))"
  by pat_completeness auto
termination
proof (relation "measure length")
  fix bs :: bytes and k assume "bs \<noteq> []" "utf8_len bs = Some k"
  then have "0 < k" by (cases bs) (auto split: if_splits list.splits)
  with \<open>bs \<noteq> []\<close> show "(drop k bs, bs) \<in> measure length" by simp
qed simp

declare utf8_ok.simps [simp del]

lemma continuation_iff: "wd_utf8_continuation b \<longleftrightarrow> 128 \<le> unat b \<and> unat b < 192"
proof -
  have "\<forall>n<256. wd_utf8_continuation (word_of_nat n) = (128 \<le> n \<and> n < 192)"
    by code_simp
  then show ?thesis using unat_u8_lt [of b] by (metis u8_word_of_unat)
qed

lemma utf8_len_2:
  "\<lbrakk>194 \<le> unat a; unat a \<le> 223; 128 \<le> unat b; unat b < 192\<rbrakk> \<Longrightarrow> utf8_len (a # b # r) = Some 2"
  by (simp add: wd_word continuation_iff)

lemma utf8_len_3:
  "\<lbrakk>224 \<le> unat a; unat a \<le> 239; 128 \<le> unat b; unat b < 192; 128 \<le> unat c; unat c < 192;
    \<not> (unat a = 224 \<and> unat b < 160); \<not> (unat a = 237 \<and> 160 \<le> unat b)\<rbrakk> \<Longrightarrow>
   utf8_len (a # b # c # r) = Some 3"
  by (simp add: wd_word continuation_iff)

lemma utf8_len_4:
  "\<lbrakk>240 \<le> unat a; unat a \<le> 244; 128 \<le> unat b; unat b < 192; 128 \<le> unat c; unat c < 192;
    128 \<le> unat d; unat d < 192; \<not> (unat a = 240 \<and> unat b < 144); \<not> (unat a = 244 \<and> 143 < unat b)\<rbrakk> \<Longrightarrow>
   utf8_len (a # b # c # d # r) = Some 4"
  by (simp add: wd_word continuation_iff)

lemma unat_byte: "n < 256 \<Longrightarrow> unat (word_of_nat n :: u8) = n"
  by (simp only: unat_word_of_nat) simp

lemma base64: "u < 64 \<Longrightarrow> (x * 64 + u) div 64 = x \<and> (x * 64 + u) mod 64 = u" for u x :: nat
  by simp

lemma digits64: "x div 64 div 64 * 4096 + x div 64 mod 64 * 64 \<le> x"
    "x < x div 64 div 64 * 4096 + x div 64 mod 64 * 64 + 64" for x :: nat
  using div_mult_mod_eq [of "x div 64" 64] div_mult_mod_eq [of x 64] mod_less_divisor [of 64 x] by linarith+

lemma utf8_len_encode:
  assumes "scalar_value cp"
  shows "utf8_len (utf8_encode cp @ rest) = Some (length (utf8_encode cp))"
proof -
  consider "cp < 0x80" | "0x80 \<le> cp" "cp < 0x800" | "0x800 \<le> cp" "cp < 0x10000" | "0x10000 \<le> cp" by linarith
  then show ?thesis
  proof cases
    case 1
    then show ?thesis using assms by (simp add: utf8_encode_def scalar_value_def wd_word)
  next
    case 2
    then have "cp div 64 < 32" "2 \<le> cp div 64" by linarith+
    then have "utf8_len (word_of_nat (0xc0 + cp div 64) # word_of_nat (0x80 + cp mod 64) # rest) = Some 2"
      by (intro utf8_len_2) (simp_all add: unat_byte del: of_nat_add)
    with 2 show ?thesis by (simp add: utf8_encode_def del: utf8_len.simps of_nat_add)
  next
    case 3
    let ?a = "cp div 4096" and ?b = "cp div 64 mod 64"
    have d: "?a * 4096 + ?b * 64 \<le> cp" "cp < ?a * 4096 + ?b * 64 + 64" "?b < 64"
      using digits64 [of cp] div_mult2_eq [of cp 64 64] by simp_all
    have a: "?a < 16" using 3 d by linarith
    have x: "\<not> (?a = 0 \<and> ?b < 32)" using 3 d by (intro notI) (elim conjE, linarith)
    have y: "\<not> (?a = 13 \<and> 32 \<le> ?b)"
    proof
      assume "?a = 13 \<and> 32 \<le> ?b"
      then have "55296 \<le> cp" "cp < 57344" using d by (elim conjE, linarith)+
      then show False using assms by (simp add: scalar_value_def)
    qed
    have "utf8_len (word_of_nat (0xe0 + ?a) # word_of_nat (0x80 + ?b) # word_of_nat (0x80 + cp mod 64) # rest) = Some 3"
      using a x y by (intro utf8_len_3) (simp_all add: unat_byte del: of_nat_add)
    with 3 show ?thesis by (simp add: utf8_encode_def del: utf8_len.simps of_nat_add)
  next
    case 4
    let ?a = "cp div 262144" and ?b = "cp div 4096 mod 64"
    have cp: "cp < 0x110000" using assms by (simp add: scalar_value_def)
    have d: "?a * 4096 + ?b * 64 \<le> cp div 64" "cp div 64 < ?a * 4096 + ?b * 64 + 64"
      using digits64 [of "cp div 64"] div_mult2_eq [of cp 64 64] div_mult2_eq [of cp 4096 64] by simp_all
    have e: "1024 \<le> cp div 64" "cp div 64 < 17408" using 4 cp by linarith+
    have a: "?a \<le> 4" using d e by linarith
    have x: "\<not> (?a = 0 \<and> ?b < 16)" using d e by (intro notI) (elim conjE, linarith)
    have y: "\<not> (?a = 4 \<and> 15 < ?b)" using d e by (intro notI) (elim conjE, linarith)
    have "utf8_len (word_of_nat (0xf0 + ?a) # word_of_nat (0x80 + ?b) # word_of_nat (0x80 + cp div 64 mod 64)
        # word_of_nat (0x80 + cp mod 64) # rest) = Some 4"
      using a x y by (intro utf8_len_4) (simp_all add: unat_byte del: of_nat_add)
    with 4 show ?thesis by (simp add: utf8_encode_def del: utf8_len.simps of_nat_add)
  qed
qed

lemma byte_split: "k \<le> unat (b :: u8) \<Longrightarrow> \<exists>n. b = word_of_nat (k + n) \<and> unat b = k + n"
  by (intro exI [of _ "unat b - k"]) simp

lemma utf8_len_decode:
  assumes "utf8_len bs = Some k"
  shows "\<exists>cp. scalar_value cp \<and> take k bs = utf8_encode cp"
proof -
  from assms obtain a as where bs: "bs = a # as" by (cases bs) auto
  let ?a = "unat a"
  have a0: "?a \<noteq> 0" using assms bs by (auto simp: unat_eq_zero)
  consider "?a \<le> 127" | "194 \<le> ?a" "?a \<le> 223" | "224 \<le> ?a" "?a \<le> 239" | "240 \<le> ?a" "?a \<le> 244"
    using assms bs by (auto simp: wd_word split: if_splits)
  then show ?thesis
  proof cases
    case 1
    then show ?thesis using assms bs a0
      by (intro exI [of _ ?a]) (auto simp: wd_word scalar_value_def utf8_encode_def)
  next
    case 2
    then obtain b r where as: "as = b # r" and k: "k = 2" and b: "128 \<le> unat b" "unat b < 192"
      using assms bs by (auto simp: wd_word continuation_iff split: list.splits if_splits)
    obtain p where p: "a = word_of_nat (192 + p)" "?a = 192 + p" using byte_split [of 192 a] 2 by auto
    obtain q where q: "b = word_of_nat (128 + q)" "unat b = 128 + q" using byte_split [of 128 b] b by auto
    have "q < 64" "2 \<le> p" "p < 32" using q b p 2 by linarith+
    then show ?thesis
      by (intro exI [of _ "p * 64 + q"])
        (simp add: bs as k scalar_value_def utf8_encode_def p(1) q(1) del: of_nat_add)
  next
    case 3
    then obtain b c r where as: "as = b # c # r" and k: "k = 3" and b: "128 \<le> unat b" "unat b < 192"
      and c: "128 \<le> unat c" "unat c < 192" and x: "?a = 224 \<longrightarrow> 160 \<le> unat b" "?a = 237 \<longrightarrow> unat b < 160"
      using assms bs by (auto simp: wd_word continuation_iff split: list.splits if_splits)
    obtain p where p: "a = word_of_nat (224 + p)" "?a = 224 + p" using byte_split [of 224 a] 3 by auto
    obtain q where q: "b = word_of_nat (128 + q)" "unat b = 128 + q" using byte_split [of 128 b] b by auto
    obtain u where u: "c = word_of_nat (128 + u)" "unat c = 128 + u" using byte_split [of 128 c] c by auto
    define cp where "cp = (p * 64 + q) * 64 + u"
    have s: "q < 64" "u < 64" "p < 16" using q b p u c 3 by linarith+
    then have d: "cp div 64 = p * 64 + q" "cp mod 64 = u" "cp div 64 mod 64 = q"
      using base64 [of u "p * 64 + q"] base64 [of q p] by (simp_all only: cp_def)
    have d': "cp div 4096 = p" using div_mult2_eq [of cp 64 64] d(1) s by simp
    have x': "p = 0 \<longrightarrow> 32 \<le> q" "p = 13 \<longrightarrow> q < 32" using x p(2) q(2) by auto
    have cp: "cp = 4096 * p + 64 * q + u" by (simp add: cp_def)
    have r: "2048 \<le> cp" using x'(1) cp by (cases "p = 0") auto
    have "cp < 65536" unfolding cp using s by linarith
    moreover have "\<not> (55296 \<le> cp \<and> cp < 57344)"
    proof
      assume r: "55296 \<le> cp \<and> cp < 57344"
      then have p13: "p = 13" using s unfolding cp by linarith
      then have "q < 32" using x'(2) by simp
      then show False using r s unfolding cp p13 by linarith
    qed
    ultimately show ?thesis using r
      by (intro exI [of _ cp]) (simp add: bs as k scalar_value_def utf8_encode_def p(1) q(1) u(1) d(2,3) d'
          del: of_nat_add)
  next
    case 4
    then obtain b c d r where as: "as = b # c # d # r" and k: "k = 4" and b: "128 \<le> unat b" "unat b < 192"
      and c: "128 \<le> unat c" "unat c < 192" and d: "128 \<le> unat d" "unat d < 192"
      and x: "?a = 240 \<longrightarrow> 144 \<le> unat b" "?a = 244 \<longrightarrow> unat b < 144"
      using assms bs by (auto simp: wd_word continuation_iff split: list.splits if_splits)
    obtain p where p: "a = word_of_nat (240 + p)" "?a = 240 + p" using byte_split [of 240 a] 4 by auto
    obtain q where q: "b = word_of_nat (128 + q)" "unat b = 128 + q" using byte_split [of 128 b] b by auto
    obtain u where u: "c = word_of_nat (128 + u)" "unat c = 128 + u" using byte_split [of 128 c] c by auto
    obtain v where v: "d = word_of_nat (128 + v)" "unat d = 128 + v" using byte_split [of 128 d] d by auto
    define cp where "cp = ((p * 64 + q) * 64 + u) * 64 + v"
    have s: "q < 64" "u < 64" "v < 64" "p \<le> 4" using q b p u c v d 4 by linarith+
    then have e: "cp div 64 = (p * 64 + q) * 64 + u" "cp mod 64 = v" "cp div 64 mod 64 = u"
      using base64 [of v "(p * 64 + q) * 64 + u"] base64 [of u "p * 64 + q"] by (simp_all only: cp_def)
    have e': "cp div 4096 = p * 64 + q" using div_mult2_eq [of cp 64 64] e(1) s by simp
    then have e'': "cp div 262144 = p" "cp div 4096 mod 64 = q" using div_mult2_eq [of cp 4096 64] s by simp_all
    have x': "p = 0 \<longrightarrow> 16 \<le> q" "p = 4 \<longrightarrow> q < 16" using x p(2) q(2) by auto
    have cp: "cp = 262144 * p + 4096 * q + 64 * u + v" by (simp add: cp_def)
    have "65536 \<le> cp" using x'(1) cp by (cases "p = 0") auto
    moreover have "cp < 1114112" using s x'(2) cp by (cases "p = 4") auto
    ultimately show ?thesis
      by (intro exI [of _ cp])
        (simp add: bs as k scalar_value_def utf8_encode_def p(1) q(1) u(1) v(1) e(2,3) e'' del: of_nat_add)
  qed
qed

lemma utf8_ok_iff: "utf8_ok bs \<longleftrightarrow> (\<exists>cps. list_all scalar_value cps \<and> bs = concat (map utf8_encode cps))"
proof (induction bs rule: utf8_ok.induct)
  case (1 bs)
  show ?case
  proof (cases "bs = []")
    case True
    then show ?thesis by (auto simp: utf8_ok.simps intro: exI [of _ "[]"])
  next
    case ne: False
    show ?thesis
    proof
      assume "utf8_ok bs"
      then obtain k where k: "utf8_len bs = Some k" "utf8_ok (drop k bs)"
        using ne by (auto simp: utf8_ok.simps [of bs] split: option.splits)
      from utf8_len_decode [OF k(1)] obtain cp where cp: "scalar_value cp" "take k bs = utf8_encode cp" by blast
      from 1 [OF ne k(1)] k(2) obtain cps where
        cps: "list_all scalar_value cps" "drop k bs = concat (map utf8_encode cps)" by blast
      have "bs = utf8_encode cp @ concat (map utf8_encode cps)" using cp(2) cps(2) by (metis append_take_drop_id)
      then show "\<exists>cps. list_all scalar_value cps \<and> bs = concat (map utf8_encode cps)"
        using cp(1) cps(1) by (intro exI [of _ "cp # cps"]) simp
    next
      assume "\<exists>cps. list_all scalar_value cps \<and> bs = concat (map utf8_encode cps)"
      then obtain cps where cps: "list_all scalar_value cps" "bs = concat (map utf8_encode cps)" by blast
      with ne obtain cp cps' where c: "cps = cp # cps'" by (cases cps) auto
      let ?k = "length (utf8_encode cp)"
      have k: "utf8_len bs = Some ?k" using utf8_len_encode [of cp] cps by (simp add: c)
      have "drop ?k bs = concat (map utf8_encode cps')" using cps by (simp add: c)
      with 1 [OF ne k] cps(1) have "utf8_ok (drop ?k bs)" by (auto simp: c)
      then show "utf8_ok bs" using ne k by (simp add: utf8_ok.simps [of bs])
    qed
  qed
qed

section \<open>The validator accepts exactly the encodings\<close>

text \<open>The class of a lead byte, so that the tests of both definitions are made once.\<close>

definition lead_len :: "u8 \<Rightarrow> nat" where
  "lead_len a =
     (if a = 0 then 0 else if a \<le> 0x7f then 1 else if a \<ge> 0xc2 \<and> a \<le> 0xdf then 2
      else if a \<ge> 0xe0 \<and> a \<le> 0xef then 3 else if a \<ge> 0xf0 \<and> a \<le> 0xf4 then 4 else 0)"

lemma if_chain_index:
  fixes n :: nat
  assumes "n = (if p then 0 else if q then 1 else if r then 2 else if s then 3 else if t then 4 else 0)"
  shows "(if p then x else if q then y1 else if r then y2 else if s then y3 else if t then y4 else x) =
   (if n = 1 then y1 else if n = 2 then y2 else if n = 3 then y3 else if n = 4 then y4 else x)"
  using assms by (cases p; cases q; cases r; cases s; cases t) simp_all

lemmas lead_chain = if_chain_index [OF lead_len_def]

lemma case_short_2: "length xs < 2 \<Longrightarrow> (case xs of b # c # r \<Rightarrow> f b c r | _ \<Rightarrow> z) = z"
  by (auto split: list.splits)

lemma case_short_3: "length xs < 3 \<Longrightarrow> (case xs of b # c # d # r \<Rightarrow> f b c d r | _ \<Rightarrow> z) = z"
  by (auto split: list.splits)

lemma utf8_scan_step:
  assumes sz: "sz \<le> length data" and i: "i < sz"
  shows "utf8_scan data sz i =
     (case utf8_len (drop i (take sz data)) of None \<Rightarrow> Some False | Some k \<Rightarrow> utf8_scan data sz (i + k))"
proof -
  let ?d = "\<lambda>j. drop j (take sz data)"
  let ?a = "data ! i" and ?b = "data ! (i + 1)" and ?c = "data ! (i + 1 + 1)" and ?e = "data ! (i + 1 + 2)"
  have nxt: "?d j = data ! j # ?d (Suc j)" if "j < sz" for j
    using that sz Cons_nth_drop_Suc [of j "take sz data"] by simp
  have rd: "rd data j = Some (data ! j)" if "j < sz" for j using that sz by simp
  have nil: "?d (i + 1 + k) = []" if "sz \<le> i + 1 + k" for k using that by simp
  have len: "utf8_len (?d i) = utf8_len (?a # ?d (i + 1))" using nxt [OF i] by simp
  have d1: "?d (i + 1) = ?b # ?d (i + 1 + 1)" if "i + 1 < sz" using nxt [OF that] by simp
  have d2: "?d (i + 1 + 1) = ?c # ?d (i + 1 + 2)" if "i + 1 + 1 < sz" using nxt [OF that] by simp
  have d3: "?d (i + 1 + 2) = ?e # ?d (i + 1 + 3)" if "i + 1 + 2 < sz" using nxt [OF that] by (simp add: eval_nat_numeral)
  note scan = utf8_scan.simps [of data sz i, unfolded rd [OF i] option.case Let_def lead_chain]
  consider "lead_len ?a = 1" | "lead_len ?a = 2" | "lead_len ?a = 3" | "lead_len ?a = 4" | "lead_len ?a \<notin> {1, 2, 3, 4}"
    by blast
  then show ?thesis
  proof cases
    case 1
    then show ?thesis using i unfolding len utf8_len.simps lead_chain by (simp add: scan)
  next
    case 2
    have l: "utf8_len (?d i) = (case ?d (i + 1) of b # _ \<Rightarrow> if wd_utf8_continuation b then Some 2 else None | _ \<Rightarrow> None)"
      unfolding len utf8_len.simps lead_chain using 2 by simp
    show ?thesis
    proof (cases "i + 1 < sz")
      case True
      show ?thesis using 2 i True rd [OF True] unfolding l d1 [OF True] by (simp add: scan)
    next
      case False
      then show ?thesis using 2 i nil [of 0] unfolding l by (simp add: scan)
    qed
  next
    case 3
    have l: "utf8_len (?d i) = (case ?d (i + 1) of b # c # _ \<Rightarrow>
           if wd_utf8_continuation b \<and> wd_utf8_continuation c \<and> \<not> (?a = 0xe0 \<and> b < 0xa0 \<or> ?a = 0xed \<and> b \<ge> 0xa0)
           then Some 3 else None | _ \<Rightarrow> None)"
      unfolding len utf8_len.simps lead_chain using 3 by simp
    show ?thesis
    proof (cases "i + 1 + 1 < sz")
      case True
      then have t: "i + 1 < sz" "\<not> sz - (i + 1) < 2" by linarith+
      have "utf8_scan data sz i =
          (if \<not> wd_utf8_continuation ?b \<or> \<not> wd_utf8_continuation ?c then Some False
           else if ?a = 0xe0 \<and> ?b < 0xa0 \<or> ?a = 0xed \<and> ?b \<ge> 0xa0 then Some False
           else utf8_scan data sz (i + 1 + 2))"
        using 3 i t rd [OF True] rd [OF t(1)] by (simp only: scan) simp
      then show ?thesis unfolding l d1 [OF t(1)] d2 [OF True] by (simp add: numeral_3_eq_3)
    next
      case False
      then have s: "utf8_scan data sz i = Some False" using 3 i by (simp only: scan) auto
      have "length (?d (i + 1)) < 2" using False by simp
      then have "utf8_len (?d i) = None" unfolding l by (rule case_short_2)
      with s show ?thesis by simp
    qed
  next
    case 4
    have l: "utf8_len (?d i) = (case ?d (i + 1) of b # c # e # _ \<Rightarrow>
           if wd_utf8_continuation b \<and> wd_utf8_continuation c \<and> wd_utf8_continuation e
              \<and> \<not> (?a = 0xf0 \<and> b < 0x90 \<or> ?a = 0xf4 \<and> b > 0x8f)
           then Some 4 else None | _ \<Rightarrow> None)"
      unfolding len utf8_len.simps lead_chain using 4 by simp
    show ?thesis
    proof (cases "i + 1 + 2 < sz")
      case True
      then have t: "i + 1 < sz" "i + 1 + 1 < sz" "\<not> sz - (i + 1) < 3" by linarith+
      have "utf8_scan data sz i =
          (if \<not> wd_utf8_continuation ?b \<or> \<not> wd_utf8_continuation ?c \<or> \<not> wd_utf8_continuation ?e then Some False
           else if ?a = 0xf0 \<and> ?b < 0x90 \<or> ?a = 0xf4 \<and> ?b > 0x8f then Some False
           else utf8_scan data sz (i + 1 + 3))"
        using 4 i t rd [OF True] rd [OF t(1)] rd [OF t(2)] by (simp only: scan) simp
      then show ?thesis unfolding l d1 [OF t(1)] d2 [OF t(2)] d3 [OF True] by (simp add: add.commute [of i])
    next
      case False
      then have s: "utf8_scan data sz i = Some False" using 4 i by (simp only: scan) auto
      have "length (?d (i + 1)) < 3" using False by simp
      then have "utf8_len (?d i) = None" unfolding l by (rule case_short_3)
      with s show ?thesis by simp
    qed
  next
    case 5
    then show ?thesis using i unfolding len utf8_len.simps lead_chain by (simp add: scan)
  qed
qed

lemma utf8_len_pos: "utf8_len bs = Some k \<Longrightarrow> 0 < k \<and> k \<le> length bs"
  by (cases bs) (auto split: if_splits list.splits)

lemma utf8_scan_ok:
  assumes "sz \<le> length data"
  shows "utf8_scan data sz i = Some (utf8_ok (drop i (take sz data)))"
proof (induction "sz - i" arbitrary: i rule: less_induct)
  case less
  show ?case
  proof (cases "i < sz")
    case False
    then show ?thesis by (simp add: utf8_scan.simps [of data sz i] utf8_ok.simps)
  next
    case True
    then have ne: "drop i (take sz data) \<noteq> []" using assms by simp
    show ?thesis
    proof (cases "utf8_len (drop i (take sz data))")
      case None
      then show ?thesis using ne utf8_scan_step [OF assms True] by (simp add: utf8_ok.simps)
    next
      case (Some k)
      then have "sz - (i + k) < sz - i" using utf8_len_pos [OF Some] True by linarith
      from less [OF this] show ?thesis
        using ne Some utf8_scan_step [OF assms True] by (simp add: utf8_ok.simps [of "drop i (take sz data)"] add.commute)
    qed
  qed
qed

text \<open>
  C31: the clipboard text validator accepts exactly the UTF-8 encodings of sequences of nonzero
  Unicode scalar values (no surrogates, no overlong forms, nothing above U+10FFFF), and it never
  reads past the given size.
\<close>

theorem selection_text_valid_iff_utf8:
  assumes "unat n \<le> length bs"
  shows "wd_selection_text_is_valid (Some bs) n =
     Some (\<exists>cps. list_all scalar_value cps \<and> take (unat n) bs = concat (map utf8_encode cps))"
  using utf8_scan_ok [OF assms, of 0] by (simp add: wd_selection_text_is_valid_def utf8_ok_iff)

theorem selection_text_valid_iff_utf8_witness:
  "wd_selection_text_is_valid (Some [0x41, 0xe2, 0x82, 0xac, 0]) 4 = Some True \<and>
   (\<exists>cps. list_all scalar_value cps \<and> [0x41, 0xe2, 0x82, 0xac] = concat (map utf8_encode cps))"
proof -
  have "wd_selection_text_is_valid (Some [0x41, 0xe2, 0x82, 0xac, 0]) 4 = Some True" by code_simp
  with selection_text_valid_iff_utf8 [of 4 "[0x41, 0xe2, 0x82, 0xac, 0]"] show ?thesis by simp
qed

section \<open>Payload round trip\<close>

lemma text_valid_utf8_ok:
  "unat n \<le> length bs \<Longrightarrow> wd_selection_text_is_valid (Some bs) n = Some (utf8_ok (take (unat n) bs))"
  using utf8_scan_ok [of "unat n" bs 0] by (simp add: wd_selection_text_is_valid_def)

lemma selection_size_valid:
  assumes "unat (sel_data_size h) \<le> WD_SELECTION_MAX_TEXT_BYTES"
  shows "wd_selection_payload_size_is_valid (Some h) (word_of_nat (15 + unat (sel_data_size h)))"
proof -
  let ?n = "sel_data_size h"
  have sz: "sizeof wd_selection_payload_header_layout = 15" by (simp add: wd_selection_payload_header_layout_def)
  have le: "?n \<le> word_of_nat WD_SELECTION_MAX_TEXT_BYTES" using assms by (simp add: word_le_nat_alt)
  have "unat (ucast (word_of_nat (15 + unat ?n) :: u32) :: u64) = 15 + unat ?n"
    using assms by (simp add: unat_word_of_nat del: of_nat_add)
  moreover have "unat (15 + ucast ?n :: u64) = 15 + unat ?n"
    using assms by (subst unat_add_exact) simp_all
  ultimately have "ucast (word_of_nat (15 + unat ?n) :: u32) = (15 + ucast ?n :: u64)"
    by (simp only: unat_eq_iff)
  moreover have "\<not> (ucast ?n :: u64) > (UINT64_MAX - 15) div 1"
    using assms by (simp add: word_less_nat_alt)
  ultimately show ?thesis using le
    by (simp add: wd_selection_payload_size_is_valid_def wd_counted_payload_size_is_valid_def sz)
qed

lemma selection_encode_ok:
  assumes ids: "sid \<noteq> 0" "tok \<noteq> 0" "wd_selection_mime_is_valid mime"
    and n: "unat n \<le> WD_SELECTION_MAX_TEXT_BYTES" "unat n \<le> length txt" "utf8_ok (take (unat n) txt)"
    and cap: "15 + unat n \<le> cap" "cap \<le> length out"
  shows "wd_selection_payload_encode sid tok mime (Some txt) n (Some out) cap =
     Some (Some (word_of_nat (15 + unat n),
       selection_header_encode \<lparr>sel_session_id = sid, sel_connection_token = tok, sel_mime_type = mime, sel_data_size = n\<rparr>
         @ take (unat n) txt @ drop (15 + unat n) out))"
proof -
  let ?h = "selection_header_encode \<lparr>sel_session_id = sid, sel_connection_token = tok, sel_mime_type = mime, sel_data_size = n\<rparr>"
  have h: "length ?h = 15" by (rule selection_header.length_enc)
  have w1: "wr_range out 0 ?h = Some (?h @ drop 15 out)" using h cap by (simp add: wr_range_def)
  have rd: "rd_range txt 0 (unat n) = Some (take (unat n) txt)" using n by (simp add: rd_range_def)
  have w2: "wr_range (?h @ drop 15 out) 15 (take (unat n) txt) = Some (?h @ take (unat n) txt @ drop (15 + unat n) out)"
    using h cap n by (auto simp: wr_range_def add.commute)
  have "\<not> 4294967295 < 15 + unat n" using n(1) by simp
  then show ?thesis using ids n cap w1 w2 rd text_valid_utf8_ok [OF n(2)]
    unfolding wd_selection_payload_encode_def Let_def by (cases "n = 0") simp_all
qed

lemma selection_decode_ok:
  assumes ids: "sid \<noteq> 0" "tok \<noteq> 0" "wd_selection_mime_is_valid mime"
    and n: "unat n \<le> WD_SELECTION_MAX_TEXT_BYTES" "length txt = unat n" "utf8_ok txt"
  shows "wd_selection_payload_decode (Some (selection_header_encode
      \<lparr>sel_session_id = sid, sel_connection_token = tok, sel_mime_type = mime, sel_data_size = n\<rparr> @ txt))
      (word_of_nat (15 + unat n)) sid tok =
     Some (Some \<lparr>tv_mime_type = mime, tv_data = txt, tv_size = n\<rparr>)"
proof -
  let ?r = "\<lparr>sel_session_id = sid, sel_connection_token = tok, sel_mime_type = mime, sel_data_size = n\<rparr>"
  let ?h = "selection_header_encode ?r"
  have h: "length ?h = 15" by (rule selection_header.length_enc)
  have rd: "rd_range (?h @ txt) 0 15 = Some ?h" using h by (simp add: rd_range_def)
  have dec: "selection_header_decode ?h = ?r" using selection_header.dec_enc [of ?r "[]"] by simp
  have sz: "unat (word_of_nat (15 + unat n) :: u32) = 15 + unat n" using n by (simp del: of_nat_add)
  have v: "wd_selection_payload_size_is_valid (Some ?r) (word_of_nat (15 + unat n))"
    using selection_size_valid [of ?r] n by simp
  have "\<not> 15 + unat n < 15" by simp
  then show ?thesis using ids n v h text_valid_utf8_ok [of n "txt"]
    unfolding wd_selection_payload_decode_def by (simp add: rd dec sz del: of_nat_add)
qed

text \<open>
  C32: a selection payload round trip: whatever \<open>wd_selection_payload_encode\<close> accepts is written as
  a payload that \<open>wd_selection_payload_decode\<close>, asked for the same session and connection, reads
  back as the same text and MIME type.
\<close>

theorem selection_payload_roundtrip:
  assumes "wd_selection_payload_encode sid tok mime (Some txt) n (Some out) cap = Some (Some (psize, out'))"
    and "unat n \<le> length txt" "cap \<le> length out"
  shows "unat psize = 15 + unat n \<and> 15 + unat n \<le> cap \<and> length out' = length out \<and>
     wd_selection_payload_decode (Some (take (unat psize) out')) psize sid tok =
       Some (Some \<lparr>tv_mime_type = mime, tv_data = take (unat n) txt, tv_size = n\<rparr>)"
proof -
  let ?r = "\<lparr>sel_session_id = sid, sel_connection_token = tok, sel_mime_type = mime, sel_data_size = n\<rparr>"
  from assms(1) have g: "sid \<noteq> 0" "tok \<noteq> 0" "wd_selection_mime_is_valid mime" "unat n \<le> WD_SELECTION_MAX_TEXT_BYTES"
      "utf8_ok (take (unat n) txt)" "15 + unat n \<le> cap"
    using text_valid_utf8_ok [OF assms(2)]
    by (auto simp: wd_selection_payload_encode_def Let_def not_less split: if_splits)
  from selection_encode_ok [OF g(1-4) assms(2) g(5,6) assms(3)] assms(1)
  have o: "psize = word_of_nat (15 + unat n)"
    "out' = selection_header_encode ?r @ take (unat n) txt @ drop (15 + unat n) out" by simp_all
  have ps: "unat psize = 15 + unat n" unfolding o using g(4) by (simp del: of_nat_add)
  have "take (unat psize) out' = selection_header_encode ?r @ take (unat n) txt"
    unfolding ps o(2) using assms(2) by (simp add: selection_header.length_enc)
  then show ?thesis
    using selection_decode_ok [OF g(1-4), of "take (unat n) txt"] g(5,6) ps assms(2,3) o
    by (simp add: selection_header.length_enc)
qed

theorem selection_payload_roundtrip_witness:
  "\<exists>out'. wd_selection_payload_encode 3 77 1 (Some [0xc3, 0xa9, 0x21]) 3 (Some (replicate 20 0)) 20 = Some (Some (18, out')) \<and>
     wd_selection_payload_decode (Some (take 18 out')) 18 3 77 =
       Some (Some \<lparr>tv_mime_type = 1, tv_data = [0xc3, 0xa9, 0x21], tv_size = 3\<rparr>)"
proof -
  have "utf8_ok [0xc3, 0xa9, 0x21]" by code_simp
  then have e: "wd_selection_payload_encode 3 77 1 (Some [0xc3, 0xa9, 0x21]) 3 (Some (replicate 20 0)) 20 =
      Some (Some (18, selection_header_encode \<lparr>sel_session_id = 3, sel_connection_token = 77, sel_mime_type = 1,
        sel_data_size = 3\<rparr> @ [0xc3, 0xa9, 0x21] @ replicate 2 0))"
    using selection_encode_ok [of 3 77 1 3 "[0xc3, 0xa9, 0x21]" 20 "replicate 20 0"]
    by (simp add: wd_selection_mime_is_valid_def)
  from selection_payload_roundtrip [OF e] e show ?thesis by auto
qed

section \<open>From the source to the client\<close>

lemma grow_capture_ok:
  "\<lbrakk>0 < c; c \<le> WD_SELECTION_CAPTURE_RAW_MAX_BYTES; req \<le> WD_SELECTION_CAPTURE_RAW_MAX_BYTES\<rbrakk> \<Longrightarrow>
     \<exists>c'. grow_capture c req = Some c' \<and> req \<le> c' \<and> c \<le> c' \<and> c' \<le> WD_SELECTION_CAPTURE_RAW_MAX_BYTES"
proof (induction "WD_SELECTION_CAPTURE_RAW_MAX_BYTES - c" arbitrary: c rule: less_induct)
  case less
  show ?case
  proof (cases "c < req \<and> \<not> c > 1048577 div 2")
    case True
    then have "grow_capture c req = grow_capture (c * 2) req" by (simp add: grow_capture.simps [of c])
    with less.hyps [of "c * 2"] less.prems True show ?thesis by force
  next
    case False
    then show ?thesis using less.prems by (auto simp: grow_capture.simps [of c])
  qed
qed

text \<open>The buffer holds the bytes written so far.\<close>

definition capture_holds :: "wd_selection_capture_buffer \<Rightarrow> bytes \<Rightarrow> bool" where
  "capture_holds b ws \<longleftrightarrow>
     \<not> scb_failed b \<and> scb_size b = length ws \<and> scb_size b \<le> scb_capacity b \<and>
     scb_capacity b \<le> WD_SELECTION_CAPTURE_RAW_MAX_BYTES \<and>
     (case scb_data b of None \<Rightarrow> scb_capacity b = 0
      | Some bs \<Rightarrow> scb_capacity b \<noteq> 0 \<and> length bs = scb_capacity b + 1 \<and> take (length ws) bs = ws)"

lemma reserve_ok:
  assumes inv: "capture_holds b ws" and req: "req \<le> WD_SELECTION_CAPTURE_RAW_MAX_BYTES"
  shows "\<exists>ok' b'. reserve_capture_bytes ok junk b req = Some (ok', b') \<and>
           (\<not> ok' \<longrightarrow> \<not> ok \<and> b' = b) \<and> (ok' \<longrightarrow> capture_holds b' ws \<and> req \<le> scb_capacity b')"
proof (cases "req \<le> scb_capacity b")
  case True
  then show ?thesis using inv by (auto simp: reserve_capture_bytes_def)
next
  case False
  let ?c = "if scb_capacity b \<noteq> 0 then scb_capacity b else WD_SELECTION_CAPTURE_INITIAL_BYTES"
  have "0 < ?c" "?c \<le> WD_SELECTION_CAPTURE_RAW_MAX_BYTES" using inv by (simp_all add: capture_holds_def)
  from grow_capture_ok [OF this req] obtain c where
    c: "grow_capture ?c req = Some c" "req \<le> c" "?c \<le> c" "c \<le> WD_SELECTION_CAPTURE_RAW_MAX_BYTES" by blast
  let ?old = "case scb_data b of None \<Rightarrow> [] | Some bs \<Rightarrow> bs"
  let ?b = "b\<lparr>scb_data := Some (?old @ replicate (c + 1 - length ?old) junk), scb_capacity := c\<rparr>"
  have old: "length ?old \<le> c + 1" "take (length ws) ?old = ws" "length ws \<le> c"
    using inv c by (auto simp: capture_holds_def split: option.splits if_splits)
  have "capture_holds ?b ws"
  proof -
    have "length ws \<le> length ?old" using arg_cong [OF old(2), of length] by simp
    then have "take (length ws) (?old @ replicate (c + 1 - length ?old) junk) = ws" using old(2) by simp
    then show ?thesis using inv old c False by (auto simp: capture_holds_def)
  qed
  moreover have "reserve_capture_bytes ok junk b req = Some (if ok then (True, ?b) else (False, b))"
    using False c(1) by (simp add: reserve_capture_bytes_def Let_def)
  ultimately show ?thesis using c(2) by (cases ok) auto
qed

lemma take_wr_range:
  assumes "wr_range m (length ws) d = Some m'" "take (length ws) m = ws"
  shows "take (length ws + length d) m' = ws @ d"
  using assms by (auto simp: wr_range_def split: if_splits)

lemma append_ok:
  assumes inv: "capture_holds b ws" and d: "n \<le> length d"
  shows "\<exists>r b'. wd_selection_capture_buffer_append ok junk b (Some d) n = Some (r, b') \<and>
           (r \<longrightarrow> capture_holds b' (ws @ take n d)) \<and> (\<not> r \<longrightarrow> scb_failed b') \<and>
           (ok \<longrightarrow> (r \<longleftrightarrow> length ws + n \<le> WD_SELECTION_CAPTURE_RAW_MAX_BYTES))"
proof (cases "length ws + n \<le> WD_SELECTION_CAPTURE_RAW_MAX_BYTES")
  case False
  moreover have "length ws \<le> WD_SELECTION_CAPTURE_RAW_MAX_BYTES" using inv by (simp add: capture_holds_def)
  ultimately show ?thesis using inv
    by (auto simp: wd_selection_capture_buffer_append_def capture_holds_def)
next
  case True
  have sz: "scb_size b = length ws" "\<not> scb_failed b" using inv by (simp_all add: capture_holds_def)
  from reserve_ok [OF inv True, of ok junk] obtain ok' b1 where
    r: "reserve_capture_bytes ok junk b (length ws + n) = Some (ok', b1)" "\<not> ok' \<longrightarrow> \<not> ok \<and> b1 = b"
      "ok' \<longrightarrow> capture_holds b1 ws \<and> length ws + n \<le> scb_capacity b1" by blast
  have guards: "\<not> (n > 4294967295 \<or> n > WD_SELECTION_CAPTURE_RAW_MAX_BYTES - scb_size b)" using True sz by simp
  show ?thesis
  proof (cases ok')
    case False
    then have "wd_selection_capture_buffer_append ok junk b (Some d) n = Some (False, b\<lparr>scb_failed := True\<rparr>)"
      using r sz guards by (simp add: wd_selection_capture_buffer_append_def)
    with False r show ?thesis by auto
  next
    case ok: True
    with r have h: "capture_holds b1 ws" "length ws + n \<le> scb_capacity b1" by simp_all
    show ?thesis
    proof (cases "scb_data b1")
      case None
      with h have "n = 0" "ws = []" by (auto simp: capture_holds_def)
      with None h ok r sz guards show ?thesis by (auto simp: wd_selection_capture_buffer_append_def)
    next
      case (Some bs)
      from h Some have bs: "length bs = scb_capacity b1 + 1" "take (length ws) bs = ws" "scb_size b1 = length ws"
        by (auto simp: capture_holds_def)
      let ?m = "take (length ws) bs @ take n d @ drop (length ws + n) bs"
      have w: "wr_range bs (length ws) (take n d) = Some ?m" using bs h d by (simp add: wr_range_def)
      have m: "length ?m = length bs" "take (length ws + n) ?m = ws @ take n d"
        using length_wr_range [OF w] take_wr_range [OF w bs(2)] d by simp_all
      have m0: "?m = bs" if "n = 0" using that by simp
      have ix: "length ws + n < length ?m" using m(1) bs(1) h(2) by simp
      let ?b = "b1\<lparr>scb_data := Some (?m[length ws + n := 0]), scb_size := length ws + n\<rparr>"
      have "wd_selection_capture_buffer_append ok junk b (Some d) n = Some (True, ?b)"
      proof (cases "n = 0")
        case True
        then show ?thesis using r ok sz guards Some bs ix m0
          by (simp add: wd_selection_capture_buffer_append_def)
      next
        case False
        have rd: "rd_range d 0 n = Some (take n d)" using d by (simp add: rd_range_def)
        show ?thesis using r ok sz guards Some bs(3) w rd False wr_in [OF ix]
          unfolding wd_selection_capture_buffer_append_def by (simp add: Let_def)
      qed
      moreover have "capture_holds ?b (ws @ take n d)"
        using h m bs d Some by (simp add: capture_holds_def min_absorb2)
      ultimately show ?thesis using True by auto
    qed
  qed
qed

definition capture_step ::
    "bool \<times> u8 \<times> bytes \<Rightarrow> wd_selection_capture_buffer \<Rightarrow> (bool \<times> wd_selection_capture_buffer) option" where
  "capture_step c b = (case c of (ok, junk, d) \<Rightarrow> wd_selection_capture_buffer_append ok junk b (Some d) (length d))"

lemma capture_run_ok:
  "\<lbrakk>capture_holds b ws; list_all fst cs; length (ws @ concat (map (snd \<circ> snd) cs)) \<le> WD_SELECTION_CAPTURE_RAW_MAX_BYTES\<rbrakk> \<Longrightarrow>
     \<exists>b'. run_steps capture_step cs b = Some (replicate (length cs) True, b') \<and>
          capture_holds b' (ws @ concat (map (snd \<circ> snd) cs))"
proof (induction cs arbitrary: b ws)
  case Nil
  then show ?case by simp
next
  case (Cons c cs)
  obtain ok junk d where c: "c = (ok, junk, d)" by (cases c)
  from append_ok [OF Cons.prems(1), of "length d" d ok junk] Cons.prems c obtain b1 where
    b1: "wd_selection_capture_buffer_append ok junk b (Some d) (length d) = Some (True, b1)"
      "capture_holds b1 (ws @ d)" by auto
  with Cons.IH [OF b1(2)] Cons.prems c show ?case by (auto simp: capture_step_def)
qed

lemma capture_init_holds: "capture_holds wd_selection_capture_buffer_init []"
  by (simp add: capture_holds_def wd_selection_capture_buffer_init_def)

lemma trim_nul_ok:
  "\<lbrakk>t = [] \<or> last t \<noteq> 0; take (length t + k) bs = t @ replicate k 0; length t + k \<le> length bs\<rbrakk> \<Longrightarrow>
     trim_nul bs (length t + k) = Some (length t)"
proof (induction k)
  case 0
  show ?case
  proof (cases t rule: rev_cases)
    case (snoc u a)
    then have "bs ! length u = a" using 0 by (metis add.right_neutral append_Nil2 le_eq_less_or_eq length_append_singleton
          less_add_one nth_append_length nth_take plus_1_eq_Suc replicate_0 Suc_eq_plus1)
    with 0 snoc show ?thesis by simp
  qed simp
next
  case (Suc k)
  have "take (length t + Suc k) bs ! (length t + k) = (t @ replicate (Suc k) 0) ! (length t + k)"
    using Suc.prems(2) by simp
  then have "bs ! (length t + k) = 0" by (simp add: nth_append del: replicate_Suc)
  moreover have "take (length t + k) bs = t @ replicate k 0"
    using arg_cong [OF Suc.prems(2), of "take (length t + k)"] by (simp add: min_def del: replicate_Suc)
  ultimately show ?case using Suc by simp
qed

lemma utf8_encode_no_nul: "scalar_value cp \<Longrightarrow> 0 \<notin> set (utf8_encode cp)"
proof -
  have w: "0 < n \<Longrightarrow> n < 256 \<Longrightarrow> (word_of_nat n :: u8) \<noteq> 0" for n
    by (metis unat_byte unat_0 less_irrefl)
  assume cp: "scalar_value cp"
  then have "0 < n \<and> n < 256" if "n \<in> set
      (if cp < 0x80 then [cp]
       else if cp < 0x800 then [0xc0 + cp div 64, 0x80 + cp mod 64]
       else if cp < 0x10000 then [0xe0 + cp div 4096, 0x80 + cp div 64 mod 64, 0x80 + cp mod 64]
       else [0xf0 + cp div 262144, 0x80 + cp div 4096 mod 64, 0x80 + cp div 64 mod 64, 0x80 + cp mod 64])" for n
    using that by (auto simp: scalar_value_def split: if_splits)
  with w show ?thesis unfolding utf8_encode_def by fastforce
qed

lemma utf8_no_nul: "list_all scalar_value cps \<Longrightarrow> 0 \<notin> set (concat (map utf8_encode cps))"
  by (induction cps) (auto simp: utf8_encode_no_nul)

lemma finish_ok:
  assumes b: "capture_holds b (t @ replicate k 0)"
    and t: "utf8_ok t" "0 \<notin> set t" "length t \<le> WD_SELECTION_MAX_TEXT_BYTES"
  shows "wd_selection_capture_buffer_finish True b = Some (Some (t @ [0], word_of_nat (length t)), b)"
proof -
  let ?m = "length t + k" and ?n = "length t"
  have sz: "scb_size b = ?m" "\<not> scb_failed b" "?m \<le> 1048577" using b by (auto simp: capture_holds_def)
  have un: "unat (word_of_nat ?m :: u32) = ?m" "unat (word_of_nat ?n :: u32) = ?n"
    using sz(3) t(3) by (simp_all del: of_nat_add)
  have md: "?m mod 4294967296 = ?m" "?n mod 4294967296 = ?n" using sz(3) by simp_all
  show ?thesis
  proof (cases "scb_data b")
    case None
    then have "?m = 0" using b by (auto simp: capture_holds_def)
    then show ?thesis using None sz
      by (simp add: wd_selection_capture_buffer_finish_def wd_selection_text_normalize_size_def
          wd_selection_text_is_valid_def)
  next
    case (Some bs)
    have bs: "take ?m bs = t @ replicate k 0" "?m \<le> length bs" using b Some by (auto simp: capture_holds_def)
    have tn: "take ?n bs = t" using arg_cong [OF bs(1), of "take ?n"] by (simp add: min_def)
    have "t = [] \<or> last t \<noteq> 0" using t(2) last_in_set [of t] by metis
    from trim_nul_ok [OF this bs] have tr: "trim_nul bs ?m = Some ?n" .
    have v: "wd_selection_text_is_valid (Some bs) (word_of_nat ?n) = Some True"
      using text_valid_utf8_ok [of "word_of_nat ?n" bs] un bs(2) tn t(1) by simp
    have norm: "wd_selection_text_normalize_size (scb_data b) (word_of_nat (scb_size b)) = Some (Some (word_of_nat ?n))"
      using t(3) by (simp add: wd_selection_text_normalize_size_def Some sz md tr v del: of_nat_add)
    have w: "wr_range (replicate (?n + 1) 0) 0 t = Some (t @ [0])" by (simp add: wr_range_def del: replicate_Suc) simp
    have rd: "rd_range bs 0 ?n = Some t" using bs(2) tn by (simp add: rd_range_def)
    have z: "(word_of_nat ?n :: u32) > 0 \<longleftrightarrow> t \<noteq> []"
      using un(2) by (metis length_greater_0_conv unat_gt_0 word_neq_0_conv)
    show ?thesis using sz(2) w rd Some z unfolding wd_selection_capture_buffer_finish_def norm
      by (cases "t = []") (simp_all add: md(2))
  qed
qed

text \<open>
  C11: clipboard text passes from the Wayland source to the client unchanged: when the chunks a source
  writes are, together, a UTF-8 text of at most one mebibyte followed by NUL terminators (and fit the
  capture limit), every append succeeds, the finished capture is that text, the delivery slot offers
  it, and the payload made of it decodes at the client to the same text.
\<close>

theorem captured_text_reaches_client:
  assumes chunks: "list_all fst cs" "concat (map (snd \<circ> snd) cs) = t @ replicate k 0"
      "length t + k \<le> WD_SELECTION_CAPTURE_RAW_MAX_BYTES" "length t \<le> WD_SELECTION_MAX_TEXT_BYTES"
    and cps: "list_all scalar_value cps" "t = concat (map utf8_encode cps)"
    and ids: "sid \<noteq> 0" "tok \<noteq> 0" "wd_selection_mime_is_valid mime" and room: "15 + length t \<le> length out"
  shows "\<exists>b blk n psize out'.
     run_steps capture_step cs wd_selection_capture_buffer_init = Some (replicate (length cs) True, b) \<and>
     wd_selection_capture_buffer_finish True b = Some (Some (blk, n), b) \<and>
     wd_selection_delivery_pending (snd (wd_selection_delivery_set_owned wd_selection_delivery_init (Some blk) n))
       = Some (Some blk, n) \<and>
     wd_selection_payload_encode sid tok mime (Some blk) n (Some out) (length out) = Some (Some (psize, out')) \<and>
     wd_selection_payload_decode (Some (take (unat psize) out')) psize sid tok =
       Some (Some \<lparr>tv_mime_type = mime, tv_data = t, tv_size = word_of_nat (length t)\<rparr>)"
proof -
  let ?n = "word_of_nat (length t) :: u32"
  have un: "unat ?n = length t" using chunks(4) by simp
  from capture_run_ok [OF capture_init_holds chunks(1)] chunks(2,3) obtain b where
    b: "run_steps capture_step cs wd_selection_capture_buffer_init = Some (replicate (length cs) True, b)"
      "capture_holds b (t @ replicate k 0)" by auto
  have ok: "utf8_ok t" using cps by (auto simp: utf8_ok_iff)
  have fin: "wd_selection_capture_buffer_finish True b = Some (Some (t @ [0], ?n), b)"
    using finish_ok [OF b(2) ok _ chunks(4)] utf8_no_nul [OF cps(1)] cps(2) by simp
  have n: "unat ?n \<le> length (t @ [0])" "unat ?n \<le> WD_SELECTION_MAX_TEXT_BYTES" "utf8_ok (take (unat ?n) (t @ [0]))"
    using un chunks(4) ok by simp_all
  have enc: "\<exists>psize out'. wd_selection_payload_encode sid tok mime (Some (t @ [0])) ?n (Some out) (length out)
      = Some (Some (psize, out'))"
    using selection_encode_ok [OF ids n(2,1,3) _ le_refl [of "length out"]] room un by auto
  then obtain psize out' where
    e: "wd_selection_payload_encode sid tok mime (Some (t @ [0])) ?n (Some out) (length out) = Some (Some (psize, out'))"
    by blast
  from e have g: "15 + unat ?n \<le> length out" using room un by simp
  have dec: "wd_selection_payload_decode (Some (take (unat psize) out')) psize sid tok =
      Some (Some \<lparr>tv_mime_type = mime, tv_data = t, tv_size = ?n\<rparr>)"
  proof -
    let ?r = "\<lparr>sel_session_id = sid, sel_connection_token = tok, sel_mime_type = mime, sel_data_size = ?n\<rparr>"
    from selection_encode_ok [OF ids n(2,1,3) g le_refl] e
    have o: "psize = word_of_nat (15 + unat ?n)" "out' = selection_header_encode ?r @ t @ drop (15 + unat ?n) out"
      using un by simp_all
    have "unat psize = 15 + length t" unfolding o un using chunks(4) by (simp del: of_nat_add)
    then have "take (unat psize) out' = selection_header_encode ?r @ t"
      unfolding o(2) by (simp add: selection_header.length_enc)
    then show ?thesis using selection_decode_ok [OF ids n(2), of t] un ok o(1) by simp
  qed
  show ?thesis using b(1) fin e dec
    by (auto simp: wd_selection_delivery_pending_def wd_selection_delivery_set_owned_def)
qed

theorem captured_text_reaches_client_witness:
  "\<exists>b blk n.
     run_steps capture_step [(True, 9, [0xe2, 0x82]), (True, 9, [0xac, 0])] wd_selection_capture_buffer_init
       = Some ([True, True], b) \<and>
     wd_selection_capture_buffer_finish True b = Some (Some (blk, n), b)"
  (is "\<exists>b blk n. run_steps _ ?cs _ = _ \<and> _")
proof -
  let ?t = "[0xe2, 0x82, 0xac] :: bytes"
  have c: "list_all fst ?cs" "concat (map (snd \<circ> snd) ?cs) = ?t @ replicate 1 0"
      "length ?t + 1 \<le> WD_SELECTION_CAPTURE_RAW_MAX_BYTES" "length ?t \<le> WD_SELECTION_MAX_TEXT_BYTES"
    and two: "replicate (length ?cs) True = [True, True]" by simp_all
  have t: "list_all scalar_value [0x20ac]" "?t = concat (map utf8_encode [0x20ac])"
    by (simp_all add: scalar_value_def utf8_encode_def)
  have i: "(1 :: u8) \<noteq> 0" "(1 :: u64) \<noteq> 0" "wd_selection_mime_is_valid 1" "15 + length ?t \<le> length (replicate 18 (0 :: u8))"
    by (simp_all add: wd_selection_mime_is_valid_def)
  from captured_text_reaches_client [OF c t i] show ?thesis unfolding two by blast
qed

end
