(* ===== verification/WD_Net.thy ===== *)
theory WD_Net
  imports WD_Dispatch "HOL-Library.Monad_Syntax"
begin

text \<open>
  Message framing on TCP (\<open>src/src/common/wd_net.c\<close>): the sender, which survives partial
  writes, and the reader, a state machine that is resumed when more bytes arrive.

  The kernel is a parameter: a receiving socket is the list of what successive \<open>recv\<close>
  calls meet (bytes, in whatever portions, an interruption, nothing yet, end of stream, an
  error), a sending socket the list of what successive \<open>send\<close> calls accept. A \<open>recv\<close> for
  \<open>n\<close> bytes returns between 1 and \<open>n\<close> of them, in order, as documented. A \<open>None\<close> result of
  an operation is an access outside a block. \<open>size_t\<close> is a natural number; the payload
  buffer of \<open>wd_buffer_alloc_padded\<close> is its block, padding included.
\<close>

section \<open>Sockets\<close>

datatype recv_event = Data bytes | Closed | Intr | Block | Fail

type_synonym socket = "recv_event list"

datatype recv_result = Got bytes | Eof | Eintr | Eagain | Eio

fun sys_recv :: "socket \<Rightarrow> nat \<Rightarrow> recv_result \<times> socket" where
  "sys_recv [] n = (Eagain, [])"
| "sys_recv (Data [] # s) n = sys_recv s n"
| "sys_recv (Data bs # s) n =
     (Got (take n bs), if n < length bs then Data (drop n bs) # s else s)"
| "sys_recv (Closed # s) n = (Eof, Closed # s)"
| "sys_recv (Intr # s) n = (Eintr, s)"
| "sys_recv (Block # s) n = (Eagain, s)"
| "sys_recv (Fail # s) n = (Eio, s)"

fun event_weight :: "recv_event \<Rightarrow> nat" where
  "event_weight (Data bs) = Suc (length bs)"
| "event_weight _ = 1"

abbreviation socket_weight :: "socket \<Rightarrow> nat" where
  "socket_weight s \<equiv> sum_list (map event_weight s)"

lemma sys_recv_weight_le: "sys_recv s n = (r, s') \<Longrightarrow> socket_weight s' \<le> socket_weight s"
  by (induction s n rule: sys_recv.induct) (auto split: if_splits)

lemma sys_recv_weight:
  "\<lbrakk>sys_recv s n = (r, s'); 0 < n; r = Eintr \<or> (\<exists>bs. r = Got bs)\<rbrakk> \<Longrightarrow> socket_weight s' < socket_weight s"
  by (induction s n rule: sys_recv.induct) (auto split: if_splits)

lemma sys_recv_got: "\<lbrakk>sys_recv s n = (Got bs, s'); 0 < n\<rbrakk> \<Longrightarrow> bs \<noteq> [] \<and> length bs \<le> n"
  by (induction s n rule: sys_recv.induct) (auto split: if_splits)

text \<open>What a \<open>send\<close> or \<open>sendmsg\<close> call accepts: a number of bytes, an interruption or an error.\<close>

datatype send_event = Accept nat | Sintr | Sfail

section \<open>Sending\<close>

text \<open>
  The result is the return value and the bytes written. An \<open>Accept k\<close> for a request of \<open>n\<close>
  bytes sends \<open>min k n\<close> of them; without further events the call does not return (\<open>None\<close>).
\<close>

fun wd_send_all :: "send_event list \<Rightarrow> bytes \<Rightarrow> (bool \<times> bytes) option" where
  "wd_send_all evs [] = Some (True, [])"
| "wd_send_all [] (b # bs) = None"
| "wd_send_all (Sintr # evs) (b # bs) = wd_send_all evs (b # bs)"
| "wd_send_all (Sfail # evs) (b # bs) = Some (False, [])"
| "wd_send_all (Accept k # evs) (b # bs) =
     (if k = 0 then Some (False, [])
      else map_option (\<lambda>(r, w). (r, take k (b # bs) @ w)) (wd_send_all evs (drop k (b # bs))))"

text \<open>The inner loop of \<open>wd_writev_all\<close> and the adjustment after it: drop \<open>n\<close> written bytes.\<close>

fun iov_advance :: "bytes list \<Rightarrow> nat \<Rightarrow> bytes list" where
  "iov_advance [] written = []"
| "iov_advance (v # iov) written =
     (if written \<ge> length v then iov_advance iov (written - length v)
      else if written > 0 then drop written v # iov else v # iov)"

fun wd_writev_all :: "send_event list \<Rightarrow> bytes list \<Rightarrow> (bool \<times> bytes) option" where
  "wd_writev_all evs [] = Some (True, [])"
| "wd_writev_all [] (v # iov) = None"
| "wd_writev_all (Sintr # evs) (v # iov) = wd_writev_all evs (v # iov)"
| "wd_writev_all (Sfail # evs) (v # iov) = Some (False, [])"
| "wd_writev_all (Accept k # evs) (v # iov) =
     (let n = min k (length (concat (v # iov))) in
      if n = 0 then Some (False, [])
      else map_option (\<lambda>(r, w). (r, take n (concat (v # iov)) @ w)) (wd_writev_all evs (iov_advance (v # iov) n)))"

definition tcp_frame_header :: "u16 \<Rightarrow> u32 \<Rightarrow> wd_tcp_header" where
  "tcp_frame_header message_type payload_size =
     \<lparr>tcp_magic = WD_TCP_MAGIC, tcp_protocol_version = WD_PROTOCOL_VERSION,
      tcp_message_type = message_type, tcp_payload_size = payload_size\<rparr>"

definition wd_send_tcp_message ::
    "send_event list \<Rightarrow> u16 \<Rightarrow> bytes option \<Rightarrow> u32 \<Rightarrow> (bool \<times> bytes) option" where
  "wd_send_tcp_message evs message_type payload payload_size =
     (case wd_protocol_payload_wire_size message_type payload payload_size of
        None \<Rightarrow> Some (False, [])
      | Some wire_payload_size \<Rightarrow>
          let wire_header = wd_tcp_header_encode (tcp_frame_header message_type wire_payload_size) in
          if wire_payload_size = 0 then wd_writev_all evs [wire_header]
          else do { p \<leftarrow> payload; v \<leftarrow> rd_range p 0 (unat wire_payload_size);
                    wd_writev_all evs [wire_header, v] })"

section \<open>The reader\<close>

datatype wd_tcp_reader_status =
    WD_TCP_READER_NEED_MORE
  | WD_TCP_READER_MESSAGE
  | WD_TCP_READER_PEER_CLOSED
  | WD_TCP_READER_INVALID_FRAME
  | WD_TCP_READER_IO_ERROR
  | WD_TCP_READER_TIMED_OUT
  | WD_TCP_READER_CANCELLED

record wd_tcp_message =
  tm_message_type :: u16
  tm_payload :: "bytes option"
  tm_payload_size :: u32

record wd_tcp_reader =
  tr_header_bytes :: bytes
  tr_header_size :: nat
  tr_payload :: "bytes option"
  tr_payload_size :: u32
  tr_payload_received :: u32
  tr_max_payload_size :: u32
  tr_message_type :: u16
  tr_idle_deadline_ns :: u64
  tr_frame_deadline_ns :: u64
  tr_header_decoded :: bool

definition wd_tcp_reader_init :: "u32 \<Rightarrow> wd_tcp_reader" where
  "wd_tcp_reader_init max_payload_size =
     \<lparr>tr_header_bytes = replicate WD_TCP_HEADER_WIRE_SIZE 0, tr_header_size = 0, tr_payload = None,
      tr_payload_size = 0, tr_payload_received = 0, tr_max_payload_size = max_payload_size,
      tr_message_type = 0, tr_idle_deadline_ns = 0, tr_frame_deadline_ns = 0, tr_header_decoded = False\<rparr>"

definition wd_tcp_reader_clear_frame :: "wd_tcp_reader \<Rightarrow> wd_tcp_reader" where
  "wd_tcp_reader_clear_frame r = wd_tcp_reader_init (tr_max_payload_size r)"

text \<open>\<open>reset\<close> releases the payload buffer first; the block is not kept.\<close>

definition wd_tcp_reader_reset :: "wd_tcp_reader \<Rightarrow> wd_tcp_reader" where
  "wd_tcp_reader_reset r = wd_tcp_reader_clear_frame (r\<lparr>tr_payload := None\<rparr>)"

definition wd_tcp_reader_has_partial_frame :: "wd_tcp_reader \<Rightarrow> bool" where
  "wd_tcp_reader_has_partial_frame r \<longleftrightarrow>
     tr_header_size r \<noteq> 0 \<or> tr_payload_received r \<noteq> 0 \<or> tr_payload_size r \<noteq> 0"

definition wd_tcp_reader_deadline_ns :: "wd_tcp_reader \<Rightarrow> u64" where
  "wd_tcp_reader_deadline_ns r =
     (if tr_idle_deadline_ns r = 0 then tr_frame_deadline_ns r
      else if tr_frame_deadline_ns r = 0 then tr_idle_deadline_ns r
      else if tr_idle_deadline_ns r < tr_frame_deadline_ns r then tr_idle_deadline_ns r
      else tr_frame_deadline_ns r)"

definition wd_tcp_message_release :: "wd_tcp_message \<Rightarrow> wd_tcp_message" where
  "wd_tcp_message_release msg = \<lparr>tm_message_type = 0, tm_payload = None, tm_payload_size = 0\<rparr>"

definition wd_tcp_message_take_buffer :: "wd_tcp_message \<Rightarrow> bytes option \<times> wd_tcp_message" where
  "wd_tcp_message_take_buffer msg =
     (case tm_payload msg of None \<Rightarrow> (None, msg)
      | Some b \<Rightarrow> (Some b, msg\<lparr>tm_payload := None, tm_payload_size := 0\<rparr>))"

definition wd_tcp_deadline_after :: "u64 \<Rightarrow> u64 \<Rightarrow> u64" where
  "wd_tcp_deadline_after now_ns timeout_ns =
     (if timeout_ns = 0 then 0
      else if UINT64_MAX - now_ns < timeout_ns then UINT64_MAX else now_ns + timeout_ns)"

definition wd_tcp_reader_timed_out :: "wd_tcp_reader \<Rightarrow> u64 \<Rightarrow> bool" where
  "wd_tcp_reader_timed_out r now_ns \<longleftrightarrow>
     (tr_idle_deadline_ns r \<noteq> 0 \<and> now_ns \<ge> tr_idle_deadline_ns r) \<or>
     (tr_frame_deadline_ns r \<noteq> 0 \<and> now_ns \<ge> tr_frame_deadline_ns r)"

definition wd_tcp_reader_note_progress :: "wd_tcp_reader \<Rightarrow> u64 \<Rightarrow> u64 \<Rightarrow> u64 \<Rightarrow> wd_tcp_reader" where
  "wd_tcp_reader_note_progress r now_ns idle_timeout_ns max_frame_lifetime_ns =
     (let r = (if tr_frame_deadline_ns r = 0
               then r\<lparr>tr_frame_deadline_ns := wd_tcp_deadline_after now_ns max_frame_lifetime_ns\<rparr> else r)
      in r\<lparr>tr_idle_deadline_ns := wd_tcp_deadline_after now_ns idle_timeout_ns\<rparr>)"

text \<open>
  The times of one call: the current time, the idle timeout and the frame lifetime. The
  loop works on a destination block and the number of bytes already in it.
\<close>

record read_times =
  rt_now :: u64
  rt_idle :: u64
  rt_life :: u64

function wd_tcp_reader_recv_bytes ::
    "read_times \<Rightarrow> wd_tcp_reader \<Rightarrow> socket \<Rightarrow> bytes \<Rightarrow> nat \<Rightarrow> nat \<Rightarrow>
     (wd_tcp_reader_status \<times> bytes \<times> nat \<times> wd_tcp_reader \<times> socket) option" where
  "wd_tcp_reader_recv_bytes t r s destination received expected =
     (if received < expected then
        (case sys_recv s (expected - received) of
           (Got bs, s') \<Rightarrow>
             (case wr_range destination received bs of None \<Rightarrow> None
              | Some destination' \<Rightarrow>
                  wd_tcp_reader_recv_bytes t (wd_tcp_reader_note_progress r (rt_now t) (rt_idle t) (rt_life t))
                    s' destination' (received + length bs) expected)
         | (Eof, s') \<Rightarrow> Some (WD_TCP_READER_PEER_CLOSED, destination, received, r, s')
         | (Eintr, s') \<Rightarrow> wd_tcp_reader_recv_bytes t r s' destination received expected
         | (Eagain, s') \<Rightarrow>
             Some (if wd_tcp_reader_timed_out r (rt_now t) then WD_TCP_READER_TIMED_OUT else WD_TCP_READER_NEED_MORE,
                   destination, received, r, s')
         | (Eio, s') \<Rightarrow> Some (WD_TCP_READER_IO_ERROR, destination, received, r, s'))
      else if received = expected then Some (WD_TCP_READER_MESSAGE, destination, received, r, s)
      else Some (if wd_tcp_reader_timed_out r (rt_now t) then WD_TCP_READER_TIMED_OUT else WD_TCP_READER_NEED_MORE,
                 destination, received, r, s))"
  by pat_completeness auto
termination
  by (relation "measure (\<lambda>(t, r, s, d, k, e). socket_weight s)") (auto dest!: sys_recv_weight [OF sym])

declare wd_tcp_reader_recv_bytes.simps [simp del]

abbreviation (input) WD_TCP_PAYLOAD_PADDING_BYTES :: nat where "WD_TCP_PAYLOAD_PADDING_BYTES \<equiv> 64"

text \<open>The part of \<open>receive\<close> that interprets a complete header; \<open>mem_ok\<close> is the outcome of the allocation.\<close>

definition reader_decode_header :: "bool \<Rightarrow> wd_tcp_reader \<Rightarrow> wd_tcp_reader_status \<times> wd_tcp_reader" where
  "reader_decode_header mem_ok r =
     (if tr_header_decoded r then (WD_TCP_READER_MESSAGE, r)
      else
        let header = wd_tcp_header_decode (tr_header_bytes r) in
        if tcp_magic header \<noteq> WD_TCP_MAGIC \<or> tcp_protocol_version header \<noteq> WD_PROTOCOL_VERSION
           \<or> tcp_payload_size header > tr_max_payload_size r
           \<or> \<not> wd_protocol_payload_size_is_valid (tcp_message_type header) (tcp_payload_size header)
        then (WD_TCP_READER_INVALID_FRAME, r)
        else
          let r = r\<lparr>tr_message_type := tcp_message_type header, tr_payload_size := tcp_payload_size header,
                    tr_header_decoded := True\<rparr>
          in if tr_payload_size r \<noteq> 0 then
               (if \<not> mem_ok then (WD_TCP_READER_IO_ERROR, r)
                else (WD_TCP_READER_MESSAGE, r\<lparr>tr_payload := Some (replicate (unat (tr_payload_size r) + WD_TCP_PAYLOAD_PADDING_BYTES) 0)\<rparr>))
             else (WD_TCP_READER_MESSAGE, r))"

text \<open>The part of \<open>receive\<close> after a decoded header: read the payload, validate, hand over.\<close>

definition reader_payload_part ::
    "read_times \<Rightarrow> wd_tcp_reader \<Rightarrow> socket \<Rightarrow>
     (wd_tcp_reader_status \<times> wd_tcp_message option \<times> wd_tcp_reader \<times> socket) option" where
  "reader_payload_part t r s =
     do { (status, r, s) \<leftarrow>
            (if tr_payload_size r \<noteq> 0 then
               do { block \<leftarrow> tr_payload r;
                    (status, block, got, r, s) \<leftarrow>
                      wd_tcp_reader_recv_bytes t r s block (unat (tr_payload_received r)) (unat (tr_payload_size r));
                    Some (status, r\<lparr>tr_payload := Some block, tr_payload_received := word_of_nat got\<rparr>, s) }
             else Some (WD_TCP_READER_MESSAGE, r, s));
          if status \<noteq> WD_TCP_READER_MESSAGE then Some (status, None, r, s)
          else if \<not> wd_protocol_payload_validate (tr_message_type r) (tr_payload r) (tr_payload_size r)
          then Some (WD_TCP_READER_INVALID_FRAME, None, r, s)
          else
            Some (WD_TCP_READER_MESSAGE,
                  Some \<lparr>tm_message_type = tr_message_type r, tm_payload = tr_payload r,
                        tm_payload_size = tr_payload_size r\<rparr>,
                  wd_tcp_reader_clear_frame (r\<lparr>tr_payload := None\<rparr>), s) }"

definition wd_tcp_reader_receive ::
    "bool \<Rightarrow> read_times \<Rightarrow> wd_tcp_reader \<Rightarrow> socket \<Rightarrow>
     (wd_tcp_reader_status \<times> wd_tcp_message option \<times> wd_tcp_reader \<times> socket) option" where
  "wd_tcp_reader_receive mem_ok t r s =
     (if tr_max_payload_size r = 0 then Some (WD_TCP_READER_IO_ERROR, None, r, s)
      else if wd_tcp_reader_has_partial_frame r \<and> wd_tcp_reader_timed_out r (rt_now t)
      then Some (WD_TCP_READER_TIMED_OUT, None, r, s)
      else
        do { (status, hb, hs, r, s) \<leftarrow>
               wd_tcp_reader_recv_bytes t r s (tr_header_bytes r) (tr_header_size r) WD_TCP_HEADER_WIRE_SIZE;
             let r = r\<lparr>tr_header_bytes := hb, tr_header_size := hs\<rparr> in
             if status \<noteq> WD_TCP_READER_MESSAGE then Some (status, None, r, s)
             else
               let (status, r) = reader_decode_header mem_ok r in
               if status \<noteq> WD_TCP_READER_MESSAGE then Some (status, None, r, s)
               else
                 reader_payload_part t r s })"

text \<open>
  Waiting for a message. One round of the loop meets an environment: whether the caller still
  wants to wait, the two clock readings, what arrives before the \<open>recv\<close> calls and how \<open>poll\<close>
  ends (its interruptions are retried at once). Without a further round the call has not
  returned (\<open>None\<close>).
\<close>

datatype poll_outcome = Poll_ready | Poll_timeout | Poll_error | Poll_invalid

record wait_round =
  wr_keep_waiting :: bool
  wr_now :: u64
  wr_now_after :: u64
  wr_arrived :: socket
  wr_poll :: poll_outcome

definition poll_timeout_ms :: "u32 \<Rightarrow> u64 \<Rightarrow> u64 \<Rightarrow> u64 \<Rightarrow> u32 option" where
  "poll_timeout_ms poll_slice_ms absolute_deadline_ns frame_deadline_ns now_ns =
     (let deadline_ns = (if frame_deadline_ns \<noteq> 0 \<and> (absolute_deadline_ns = 0 \<or> frame_deadline_ns < absolute_deadline_ns)
                         then frame_deadline_ns else absolute_deadline_ns)
      in if deadline_ns \<noteq> 0 then
           (if deadline_ns \<le> now_ns then None
            else
              let remaining_ns = deadline_ns - now_ns;
                  remaining_ms = (remaining_ns + 999999) div 1000000;
                  remaining_ms = (if remaining_ms = 0 then 1 else remaining_ms)
              in Some (if remaining_ms < ucast poll_slice_ms then ucast remaining_ms else poll_slice_ms))
         else Some poll_slice_ms)"

fun wait_rounds ::
    "bool \<Rightarrow> u64 \<Rightarrow> u64 \<Rightarrow> u64 \<Rightarrow> u32 \<Rightarrow> wait_round list \<Rightarrow> wd_tcp_reader \<Rightarrow> socket \<Rightarrow>
     (wd_tcp_reader_status \<times> wd_tcp_message option \<times> wd_tcp_reader \<times> socket) option" where
  "wait_rounds mem_ok idle life deadline poll_slice [] r s = None"
| "wait_rounds mem_ok idle life deadline poll_slice (e # es) r s =
     (if \<not> wr_keep_waiting e then Some (WD_TCP_READER_CANCELLED, None, r, s)
      else if deadline \<noteq> 0 \<and> wr_now e \<ge> deadline then Some (WD_TCP_READER_TIMED_OUT, None, r, s)
      else
        case wd_tcp_reader_receive mem_ok \<lparr>rt_now = wr_now e, rt_idle = idle, rt_life = life\<rparr> r (s @ wr_arrived e) of
          None \<Rightarrow> None
        | Some (status, msg, r, s) \<Rightarrow>
            if status \<noteq> WD_TCP_READER_NEED_MORE then Some (status, msg, r, s)
            else
              (case poll_timeout_ms poll_slice deadline (wd_tcp_reader_deadline_ns r) (wr_now_after e) of
                 None \<Rightarrow> wait_rounds mem_ok idle life deadline poll_slice es r s
               | Some timeout_ms \<Rightarrow>
                   if wr_poll e = Poll_error \<or> wr_poll e = Poll_invalid
                   then Some (WD_TCP_READER_IO_ERROR, None, r, s)
                   else wait_rounds mem_ok idle life deadline poll_slice es r s))"

definition wd_tcp_reader_wait_for_message ::
    "bool \<Rightarrow> u64 \<Rightarrow> u64 \<Rightarrow> u64 \<Rightarrow> u32 \<Rightarrow> wait_round list \<Rightarrow> wd_tcp_reader \<Rightarrow> socket \<Rightarrow>
     (wd_tcp_reader_status \<times> wd_tcp_message option \<times> wd_tcp_reader \<times> socket) option" where
  "wd_tcp_reader_wait_for_message mem_ok idle life deadline poll_slice es r s =
     (if poll_slice = 0 then Some (WD_TCP_READER_IO_ERROR, None, r, s)
      else wait_rounds mem_ok idle life deadline poll_slice es r s)"

section \<open>Blocking receive\<close>

text \<open>On a blocking socket every error but an interruption ends the call.\<close>

function wd_recv_all :: "socket \<Rightarrow> nat \<Rightarrow> (bool \<times> bytes \<times> socket)" where
  "wd_recv_all s n =
     (if n > 0 then
        (case sys_recv s n of
           (Got bs, s') \<Rightarrow>
             (case wd_recv_all s' (n - length bs) of (ok, rest, s'') \<Rightarrow> (ok, bs @ rest, s''))
         | (Eintr, s') \<Rightarrow> wd_recv_all s' n
         | (_, s') \<Rightarrow> (False, [], s'))
      else (True, [], s))"
  by pat_completeness auto
termination
  by (relation "measure (\<lambda>(s, n). socket_weight s)") (auto dest!: sys_recv_weight [OF sym])

declare wd_recv_all.simps [simp del]

definition wd_recv_tcp_message_limited ::
    "bool \<Rightarrow> socket \<Rightarrow> u32 \<Rightarrow> (u16 \<times> bytes option \<times> u32) option \<times> socket" where
  "wd_recv_tcp_message_limited mem_ok s max_payload_size =
     (if max_payload_size = 0 then (None, s)
      else
        case wd_recv_all s WD_TCP_HEADER_WIRE_SIZE of
          (False, _, s) \<Rightarrow> (None, s)
        | (True, wire_header, s) \<Rightarrow>
            let header = wd_tcp_header_decode wire_header in
            if tcp_magic header \<noteq> WD_TCP_MAGIC \<or> tcp_protocol_version header \<noteq> WD_PROTOCOL_VERSION
               \<or> tcp_payload_size header > max_payload_size
               \<or> \<not> wd_protocol_payload_size_is_valid (tcp_message_type header) (tcp_payload_size header)
            then (None, s)
            else if tcp_payload_size header \<noteq> 0 then
              (if \<not> mem_ok then (None, s)
               else case wd_recv_all s (unat (tcp_payload_size header)) of
                      (False, _, s) \<Rightarrow> (None, s)
                    | (True, wire_payload, s) \<Rightarrow>
                        if \<not> wd_protocol_payload_validate (tcp_message_type header) (Some wire_payload) (tcp_payload_size header)
                        then (None, s)
                        else (Some (tcp_message_type header, Some wire_payload, tcp_payload_size header), s))
            else if \<not> wd_protocol_payload_validate (tcp_message_type header) None (tcp_payload_size header) then (None, s)
            else (Some (tcp_message_type header, None, tcp_payload_size header), s))"

definition wd_recv_tcp_message :: "bool \<Rightarrow> socket \<Rightarrow> (u16 \<times> bytes option \<times> u32) option \<times> socket" where
  "wd_recv_tcp_message mem_ok s = wd_recv_tcp_message_limited mem_ok s 2097152"

end
