(* ===== verification/WD_Net_Frames.thy ===== *)
theory WD_Net_Frames
  imports WD_Net
begin

text \<open>
  The framing of \<open>WD_Net\<close> is correct: what the sender writes is the frames of the messages, and
  the reader cuts a byte stream into exactly those messages, whatever portions the two ends
  of the connection see.
\<close>

section \<open>Sending\<close>

lemma concat_iov_advance: "n \<le> length (concat iov) \<Longrightarrow> concat (iov_advance iov n) = drop n (concat iov)"
  by (induction iov n rule: iov_advance.induct) auto

lemma wd_writev_all_ok:
  "wd_writev_all evs iov = Some (ok, w) \<Longrightarrow> if ok then w = concat iov else \<exists>rest. concat iov = w @ rest"
proof (induction evs iov arbitrary: ok w rule: wd_writev_all.induct)
  case (5 k evs v iov)
  let ?all = "concat (v # iov)"
  let ?n = "min k (length ?all)"
  show ?case
  proof (cases "?n = 0")
    case True
    then show ?thesis using "5.prems" by (auto simp: Let_def)
  next
    case False
    then have "wd_writev_all (Accept k # evs) (v # iov) =
        map_option (\<lambda>(r, w). (r, take ?n ?all @ w)) (wd_writev_all evs (iov_advance (v # iov) ?n))"
      by (simp only: wd_writev_all.simps Let_def if_False)
    with "5.prems" have "map_option (\<lambda>(r, w). (r, take ?n ?all @ w)) (wd_writev_all evs (iov_advance (v # iov) ?n)) = Some (ok, w)"
      by (simp only:)
    then obtain w' where w': "wd_writev_all evs (iov_advance (v # iov) ?n) = Some (ok, w')" "w = take ?n ?all @ w'"
      unfolding map_option_eq_Some by fast
    have adv: "concat (iov_advance (v # iov) ?n) = drop ?n ?all" by (rule concat_iov_advance) simp
    from "5.IH" [OF refl False w'(1)] show ?thesis
      unfolding adv w'(2) by (metis append.assoc append_take_drop_id)
  qed
qed auto

definition tcp_frame :: "u16 \<Rightarrow> bytes \<Rightarrow> bytes" where
  "tcp_frame ty p = wd_tcp_header_encode (tcp_frame_header ty (word_of_nat (length p))) @ p"

text \<open>A message that the protocol allows and the reader's limit admits.\<close>

definition valid_message :: "u32 \<Rightarrow> u16 \<times> bytes \<Rightarrow> bool" where
  "valid_message limit m \<longleftrightarrow>
     length (snd m) \<le> unat limit \<and> wd_protocol_payload_size_is_valid (fst m) (word_of_nat (length (snd m)))"

lemma wd_send_tcp_message_frame:
  assumes "wd_send_tcp_message evs ty (Some p) (word_of_nat (length p)) = Some (True, w)" "length p < 2 ^ 32"
  shows "w = tcp_frame ty p" "wd_protocol_payload_size_is_valid ty (word_of_nat (length p))"
proof -
  have un: "unat (word_of_nat (length p) :: u32) = length p" using assms(2) by simp
  have z: "(word_of_nat (length p) :: u32) = 0 \<longleftrightarrow> p = []" using un by (metis length_0_conv unat_eq_zero)
  from assms(1) show v: "wd_protocol_payload_size_is_valid ty (word_of_nat (length p))"
    by (auto simp: wd_send_tcp_message_def wd_protocol_payload_wire_size_def wd_protocol_payload_validate_def
        split: if_splits)
  let ?h = "wd_tcp_header_encode (tcp_frame_header ty (word_of_nat (length p)))"
  have "wd_writev_all evs (if p = [] then [?h] else [?h, p]) = Some (True, w)"
    using assms(1) v un z
    by (auto simp: wd_send_tcp_message_def wd_protocol_payload_wire_size_def wd_protocol_payload_validate_def
        Let_def rd_range_def split: if_splits)
  from wd_writev_all_ok [OF this] show "w = tcp_frame ty p" by (auto simp: tcp_frame_def split: if_splits)
qed

section \<open>Receiving a block\<close>

fun bytes_of :: "socket \<Rightarrow> bytes" where
  "bytes_of [] = []"
| "bytes_of (Data bs # s) = bs @ bytes_of s"
| "bytes_of (_ # s) = bytes_of s"

fun is_transient :: "recv_event \<Rightarrow> bool" where
  "is_transient Closed = False"
| "is_transient Fail = False"
| "is_transient _ = True"

abbreviation transient :: "socket \<Rightarrow> bool" where "transient \<equiv> list_all is_transient"

lemma sys_recv_transient:
  assumes "transient s" "0 < n" "sys_recv s n = (res, s')"
  shows "transient s' \<and>
    (case res of Got bs \<Rightarrow> bs \<noteq> [] \<and> length bs \<le> n \<and> bytes_of s = bs @ bytes_of s'
     | Eintr \<Rightarrow> bytes_of s' = bytes_of s
     | Eagain \<Rightarrow> bytes_of s' = bytes_of s \<and> (s' = [] \<or> socket_weight s' < socket_weight s)
     | _ \<Rightarrow> False)"
  using assms
proof (induction s n rule: sys_recv.induct)
  case (3 b bs s n)
  then show ?case by (auto split: if_splits)
qed (auto split: recv_result.splits)

definition quiet :: "wd_tcp_reader \<Rightarrow> bool" where
  "quiet r \<longleftrightarrow> tr_idle_deadline_ns r = 0 \<and> tr_frame_deadline_ns r = 0"

definition no_timeouts :: "read_times \<Rightarrow> bool" where
  "no_timeouts t \<longleftrightarrow> rt_idle t = 0 \<and> rt_life t = 0"

lemma quiet_progress: "quiet r \<Longrightarrow> no_timeouts t \<Longrightarrow> wd_tcp_reader_note_progress r now (rt_idle t) (rt_life t) = r"
  by (simp add: quiet_def no_timeouts_def wd_tcp_reader_note_progress_def wd_tcp_deadline_after_def)

lemma quiet_not_timed_out: "quiet r \<Longrightarrow> \<not> wd_tcp_reader_timed_out r now"
  by (simp add: quiet_def wd_tcp_reader_timed_out_def)

lemma recv_bytes_ok:
  "\<lbrakk>transient s; k0 \<le> n; n \<le> length d; quiet r; no_timeouts t\<rbrakk> \<Longrightarrow>
   \<exists>d' k s'. wd_tcp_reader_recv_bytes t r s d k0 n =
       Some (if k0 + k = n then WD_TCP_READER_MESSAGE else WD_TCP_READER_NEED_MORE, d', k0 + k, r, s')
     \<and> k0 + k \<le> n \<and> length d' = length d \<and> k \<le> length (bytes_of s)
     \<and> take (k0 + k) d' = take k0 d @ take k (bytes_of s)
     \<and> bytes_of s' = drop k (bytes_of s) \<and> transient s' \<and> socket_weight s' \<le> socket_weight s
     \<and> (k0 + k = n \<or> s' = [] \<or> socket_weight s' < socket_weight s)"
proof (induction "socket_weight s" arbitrary: s k0 d rule: less_induct)
  case less
  show ?case
  proof (cases "k0 < n")
    case False
    with less.prems have "k0 = n" by simp
    then show ?thesis using less.prems
      by (intro exI [of _ d] exI [of _ 0] exI [of _ s]) (simp add: wd_tcp_reader_recv_bytes.simps)
  next
    case True
    obtain res s1 where rv: "sys_recv s (n - k0) = (res, s1)" by force
    note f = sys_recv_transient [OF less.prems(1) _ rv] and le = sys_recv_weight_le [OF rv]
    show ?thesis
    proof (cases res)
      case (Got bs)
      with f True have bs: "bs \<noteq> []" "length bs \<le> n - k0" "bytes_of s = bs @ bytes_of s1" "transient s1" by auto
      have w: "socket_weight s1 < socket_weight s" using sys_recv_weight [OF rv] True Got by simp
      let ?d = "take k0 d @ bs @ drop (k0 + length bs) d"
      have wr: "wr_range d k0 bs = Some ?d" using bs less.prems True by (simp add: wr_range_def)
      have len: "length ?d = length d" using length_wr_range [OF wr] .
      have tk: "take (k0 + length bs) ?d = take k0 d @ bs" using less.prems True by simp
      have "k0 + length bs \<le> n" using bs True by linarith
      from less.hyps [OF w bs(4) this, of ?d] less.prems len obtain d' k s' where IH:
        "wd_tcp_reader_recv_bytes t r s1 ?d (k0 + length bs) n =
           Some (if k0 + length bs + k = n then WD_TCP_READER_MESSAGE else WD_TCP_READER_NEED_MORE, d', k0 + length bs + k, r, s')"
        "k0 + length bs + k \<le> n" "length d' = length d" "k \<le> length (bytes_of s1)"
        "take (k0 + length bs + k) d' = take (k0 + length bs) ?d @ take k (bytes_of s1)"
        "bytes_of s' = drop k (bytes_of s1)" "transient s'" "socket_weight s' \<le> socket_weight s1"
        "k0 + length bs + k = n \<or> s' = [] \<or> socket_weight s' < socket_weight s1" by auto
      have "wd_tcp_reader_recv_bytes t r s d k0 n = wd_tcp_reader_recv_bytes t r s1 ?d (k0 + length bs) n"
        using True rv Got wr quiet_progress [OF less.prems(4,5)]
        by (simp add: wd_tcp_reader_recv_bytes.simps [of t r s d k0 n])
      with IH bs w tk show ?thesis
        by (intro exI [of _ d'] exI [of _ "length bs + k"] exI [of _ s']) (auto simp: add.assoc)
    next
      case Eintr
      with f True have s1: "bytes_of s1 = bytes_of s" "transient s1" by auto
      have w: "socket_weight s1 < socket_weight s" using sys_recv_weight [OF rv] True Eintr by simp
      have "wd_tcp_reader_recv_bytes t r s d k0 n = wd_tcp_reader_recv_bytes t r s1 d k0 n"
        using True rv Eintr by (simp add: wd_tcp_reader_recv_bytes.simps [of t r s d k0 n])
      with less.hyps [OF w s1(2) less.prems(2-5)] s1(1) w show ?thesis by force
    next
      case Eagain
      with f True have s1: "bytes_of s1 = bytes_of s" "transient s1" "s1 = [] \<or> socket_weight s1 < socket_weight s" by auto
      have "wd_tcp_reader_recv_bytes t r s d k0 n = Some (WD_TCP_READER_NEED_MORE, d, k0, r, s1)"
        using True rv Eagain quiet_not_timed_out [OF less.prems(4)]
        by (simp add: wd_tcp_reader_recv_bytes.simps [of t r s d k0 n])
      with s1 True le show ?thesis by (intro exI [of _ d] exI [of _ 0] exI [of _ s1]) auto
    qed (use f True in auto)
  qed
qed

section \<open>Receiving a frame\<close>

text \<open>The reader holds the first bytes of a frame.\<close>

definition reader_holds :: "wd_tcp_reader \<Rightarrow> bytes \<Rightarrow> bool" where
  "reader_holds r held \<longleftrightarrow>
     quiet r \<and> length (tr_header_bytes r) = 12 \<and> tr_max_payload_size r \<noteq> 0 \<and>
     (if \<not> tr_header_decoded r then
        length held < 12 \<and> tr_header_size r = length held \<and> take (length held) (tr_header_bytes r) = held \<and>
        tr_payload r = None \<and> tr_payload_size r = 0 \<and> tr_payload_received r = 0
      else
        tr_header_size r = 12 \<and> 12 \<le> length held \<and> length held < 12 + unat (tr_payload_size r) \<and>
        take 12 held = wd_tcp_header_encode (tcp_frame_header (tr_message_type r) (tr_payload_size r)) \<and>
        wd_protocol_payload_size_is_valid (tr_message_type r) (tr_payload_size r) \<and>
        unat (tr_payload_received r) = length held - 12 \<and>
        (\<exists>b. tr_payload r = Some b \<and> length b = unat (tr_payload_size r) + 64 \<and>
             take (length held - 12) b = drop 12 held))"

lemma init_holds: "limit \<noteq> 0 \<Longrightarrow> reader_holds (wd_tcp_reader_init limit) []"
  by (simp add: reader_holds_def wd_tcp_reader_init_def quiet_def)

lemma header_decode_frame:
  "wd_tcp_header_decode (take 12 (tcp_frame ty p)) = tcp_frame_header ty (word_of_nat (length p))"
  using tcp_header.dec_enc [of "tcp_frame_header ty (word_of_nat (length p))" "[]"]
  by (simp add: tcp_frame_def tcp_header.length_enc)

lemma length_tcp_frame [simp]: "length (tcp_frame ty p) = 12 + length p"
  by (simp add: tcp_frame_def tcp_header.length_enc)

lemma receive_split:
  assumes "tr_max_payload_size r \<noteq> 0" "quiet r"
  shows "wd_tcp_reader_receive ok t r s =
     do { (status, hb, hs, r, s) \<leftarrow>
            wd_tcp_reader_recv_bytes t r s (tr_header_bytes r) (tr_header_size r) WD_TCP_HEADER_WIRE_SIZE;
          let r = r\<lparr>tr_header_bytes := hb, tr_header_size := hs\<rparr> in
          if status \<noteq> WD_TCP_READER_MESSAGE then Some (status, None, r, s)
          else let (status, r) = reader_decode_header ok r in
            if status \<noteq> WD_TCP_READER_MESSAGE then Some (status, None, r, s)
            else reader_payload_part t r s }"
  using assms quiet_not_timed_out [OF assms(2)]
  by (simp add: wd_tcp_reader_receive_def)

text \<open>The message a reader delivers carries the payload at the start of its padded block.\<close>

definition delivers :: "wd_tcp_message \<Rightarrow> u16 \<times> bytes \<Rightarrow> bool" where
  "delivers msg m \<longleftrightarrow>
     tm_message_type msg = fst m \<and> unat (tm_payload_size msg) = length (snd m) \<and>
     (case tm_payload msg of None \<Rightarrow> snd m = []
      | Some b \<Rightarrow> take (length (snd m)) b = snd m \<and> length b = length (snd m) + 64)"

text \<open>The outcome of a call on a reader that holds \<open>held\<close>, with \<open>frame ty p @ rest\<close> to come.\<close>

definition good_outcome ::
    "u32 \<Rightarrow> u16 \<times> bytes \<Rightarrow> bytes \<Rightarrow> bytes \<Rightarrow> socket \<Rightarrow>
     (wd_tcp_reader_status \<times> wd_tcp_message option \<times> wd_tcp_reader \<times> socket) option \<Rightarrow> bool" where
  "good_outcome limit m rest held s out \<longleftrightarrow>
     (\<exists>msg s'. out = Some (WD_TCP_READER_MESSAGE, Some msg, wd_tcp_reader_init limit, s') \<and> delivers msg m
        \<and> bytes_of s' = rest \<and> transient s' \<and> socket_weight s' \<le> socket_weight s) \<or>
     (\<exists>r' c s'. out = Some (WD_TCP_READER_NEED_MORE, None, r', s') \<and> reader_holds r' (held @ c)
        \<and> tr_max_payload_size r' = limit \<and> bytes_of s = c @ bytes_of s' \<and> transient s'
        \<and> (s' = [] \<or> socket_weight s' < socket_weight s))"

lemma payload_part_ok:
  assumes dec: "tr_header_decoded r" "tr_header_size r = 12" "length (tr_header_bytes r) = 12" "quiet r"
      "tr_max_payload_size r = limit" "limit \<noteq> 0"
    and msg: "tr_message_type r = ty" "unat (tr_payload_size r) = length p"
      "wd_protocol_payload_size_is_valid ty (tr_payload_size r)"
    and got: "unat (tr_payload_received r) = length q" "length q < length p \<or> p = [] \<and> q = []"
    and blk: "if p = [] then tr_payload r = None
              else \<exists>b. tr_payload r = Some b \<and> length b = length p + 64 \<and> take (length q) b = q"
    and held: "held = wd_tcp_header_encode (tcp_frame_header ty (tr_payload_size r)) @ q"
    and stream: "q @ bytes_of s = p @ rest" and s: "transient s" and t: "no_timeouts t"
  shows "good_outcome limit (ty, p) rest held s (reader_payload_part t r s)"
proof (cases "p = []")
  case True
  then have z: "tr_payload_size r = 0" using msg(2) by (simp add: unat_eq_zero)
  have "reader_payload_part t r s =
      Some (WD_TCP_READER_MESSAGE, Some \<lparr>tm_message_type = ty, tm_payload = None, tm_payload_size = 0\<rparr>,
            wd_tcp_reader_init limit, s)"
    using True z blk msg dec by (simp add: reader_payload_part_def wd_protocol_payload_validate_def wd_tcp_reader_clear_frame_def)
  then show ?thesis using True got(2) stream s by (auto simp: good_outcome_def delivers_def)
next
  case ne: False
  let ?n = "length p" and ?k0 = "length q"
  have nz: "tr_payload_size r \<noteq> 0" using ne msg(2) by (metis length_0_conv unat_0)
  from blk ne obtain b where b: "tr_payload r = Some b" "length b = ?n + 64" "take ?k0 b = q" by auto
  have k0: "?k0 < ?n" using got(2) ne by auto
  from recv_bytes_ok [OF s, of ?k0 ?n b r t] k0 b(2) dec(4) t obtain d' k s' where
    rv: "wd_tcp_reader_recv_bytes t r s b ?k0 ?n =
       Some (if ?k0 + k = ?n then WD_TCP_READER_MESSAGE else WD_TCP_READER_NEED_MORE, d', ?k0 + k, r, s')"
    and k: "?k0 + k \<le> ?n" "length d' = length b" "k \<le> length (bytes_of s)"
      "take (?k0 + k) d' = q @ take k (bytes_of s)" "bytes_of s' = drop k (bytes_of s)" "transient s'"
      "socket_weight s' \<le> socket_weight s" "?k0 + k = ?n \<or> s' = [] \<or> socket_weight s' < socket_weight s"
    using b(3) by auto
  have small: "?k0 + k < 2 ^ 32" using k(1) msg(2) unat_u32_lt [of "tr_payload_size r"] by simp
  let ?r = "r\<lparr>tr_payload := Some d', tr_payload_received := word_of_nat (?k0 + k)\<rparr>"
  show ?thesis
  proof (cases "?k0 + k = ?n")
    case True
    have "q @ take k (bytes_of s) = take ?n (q @ bytes_of s)" using True by (simp flip: True)
    then have p: "q @ take k (bytes_of s) = p" using stream by simp
    have rest: "drop k (bytes_of s) = rest"
    proof -
      have "drop (?k0 + k) (q @ bytes_of s) = drop ?n (p @ rest)" using stream True by simp
      then show ?thesis by simp
    qed
    have "reader_payload_part t r s =
      Some (WD_TCP_READER_MESSAGE, Some \<lparr>tm_message_type = ty, tm_payload = Some d', tm_payload_size = tr_payload_size r\<rparr>,
            wd_tcp_reader_init limit, s')"
      using nz b(1) rv msg got(1) dec True
      by (simp add: reader_payload_part_def wd_protocol_payload_validate_def wd_tcp_reader_clear_frame_def)
    moreover have "delivers \<lparr>tm_message_type = ty, tm_payload = Some d', tm_payload_size = tr_payload_size r\<rparr> (ty, p)"
      using k(2,4) b(2) msg(2) p True by (simp add: delivers_def)
    ultimately show ?thesis using k rest by (auto simp: good_outcome_def)
  next
    case False
    have out: "reader_payload_part t r s = Some (WD_TCP_READER_NEED_MORE, None, ?r, s')"
      using nz b(1) rv msg got(1) False by (simp add: reader_payload_part_def)
    have "reader_holds ?r (held @ take k (bytes_of s))"
      using dec msg nz held k small False b(2)
      by (auto simp: reader_holds_def quiet_def tcp_header.length_enc min_absorb2 simp del: of_nat_add)
    then show ?thesis unfolding good_outcome_def out using k False dec(5)
      by (intro disjI2 exI [of _ ?r] exI [of _ "take k (bytes_of s)"] exI [of _ s']) auto
  qed
qed

lemma good_outcome_extend:
  assumes "good_outcome limit m rest (held @ c) s1 out" "bytes_of s = c @ bytes_of s1"
    "socket_weight s1 \<le> socket_weight s"
  shows "good_outcome limit m rest held s out"
proof -
  from assms(1) consider
    msg s' where "out = Some (WD_TCP_READER_MESSAGE, Some msg, wd_tcp_reader_init limit, s')" "delivers msg m"
      "bytes_of s' = rest" "transient s'" "socket_weight s' \<le> socket_weight s1"
  | r' d s' where "out = Some (WD_TCP_READER_NEED_MORE, None, r', s')" "reader_holds r' ((held @ c) @ d)"
      "tr_max_payload_size r' = limit" "bytes_of s1 = d @ bytes_of s'" "transient s'"
      "s' = [] \<or> socket_weight s' < socket_weight s1"
    unfolding good_outcome_def by blast
  then show ?thesis
  proof cases
    case 1
    then show ?thesis using assms(3) unfolding good_outcome_def
      by (intro disjI1 exI [of _ msg] exI [of _ s']) auto
  next
    case 2
    then show ?thesis using assms(2,3) unfolding good_outcome_def
      by (intro disjI2 exI [of _ r'] exI [of _ "c @ d"] exI [of _ s']) auto
  qed
qed

text \<open>The header part of a call: either it needs more, or the header bytes are complete.\<close>

lemma header_part:
  assumes hold: "reader_holds r held" "\<not> tr_header_decoded r" and s: "transient s" and t: "no_timeouts t"
  shows "\<exists>hb k s1. wd_tcp_reader_recv_bytes t r s (tr_header_bytes r) (tr_header_size r) 12 =
       Some (if length held + k = 12 then WD_TCP_READER_MESSAGE else WD_TCP_READER_NEED_MORE, hb, length held + k, r, s1)
     \<and> length held + k \<le> 12 \<and> length hb = 12 \<and> k \<le> length (bytes_of s)
     \<and> take (length held + k) hb = held @ take k (bytes_of s)
     \<and> bytes_of s1 = drop k (bytes_of s) \<and> transient s1 \<and> socket_weight s1 \<le> socket_weight s
     \<and> (length held + k = 12 \<or> s1 = [] \<or> socket_weight s1 < socket_weight s)"
  using recv_bytes_ok [OF s, of "length held" 12 "tr_header_bytes r" r t] hold t
  by (simp add: reader_holds_def)

lemma receive_need_header:
  assumes hold: "reader_holds r held" "\<not> tr_header_decoded r"
    and rv: "wd_tcp_reader_recv_bytes t r s (tr_header_bytes r) (tr_header_size r) 12 =
       Some (WD_TCP_READER_NEED_MORE, hb, length held + k, r, s1)"
    and k: "length held + k < 12" "length hb = 12" "k \<le> length (bytes_of s)"
      "take (length held + k) hb = held @ take k (bytes_of s)"
  shows "\<exists>r'. wd_tcp_reader_receive ok t r s = Some (WD_TCP_READER_NEED_MORE, None, r', s1)
           \<and> reader_holds r' (held @ take k (bytes_of s)) \<and> tr_max_payload_size r' = tr_max_payload_size r"
proof -
  let ?r = "r\<lparr>tr_header_bytes := hb, tr_header_size := length held + k\<rparr>"
  have q: "tr_max_payload_size r \<noteq> 0" "quiet r" using hold by (simp_all add: reader_holds_def)
  have "wd_tcp_reader_receive ok t r s = Some (WD_TCP_READER_NEED_MORE, None, ?r, s1)"
    using rv by (simp add: receive_split [OF q])
  moreover have "reader_holds ?r (held @ take k (bytes_of s))"
    using hold k by (auto simp: reader_holds_def quiet_def min_absorb2)
  ultimately show ?thesis by simp
qed

lemma receive_frame_ok:
  assumes hold: "reader_holds r held" "tr_max_payload_size r = limit" and s: "transient s" and t: "no_timeouts t"
    and stream: "held @ bytes_of s = tcp_frame ty p @ rest" and valid: "valid_message limit (ty, p)"
  shows "good_outcome limit (ty, p) rest held s (wd_tcp_reader_receive True t r s)"
proof -
  have q: "tr_max_payload_size r \<noteq> 0" "quiet r" and hb12: "length (tr_header_bytes r) = 12"
    using hold by (simp_all add: reader_holds_def)
  have lp: "unat (word_of_nat (length p) :: u32) = length p"
    using valid unat_u32_lt [of limit] by (simp add: valid_message_def)
  let ?h = "tcp_frame_header ty (word_of_nat (length p))"
  show ?thesis
  proof (cases "tr_header_decoded r")
    case False
    from header_part [OF hold(1) False s t] obtain hb k s1 where
      rv: "wd_tcp_reader_recv_bytes t r s (tr_header_bytes r) (tr_header_size r) 12 =
         Some (if length held + k = 12 then WD_TCP_READER_MESSAGE else WD_TCP_READER_NEED_MORE, hb, length held + k, r, s1)"
      and k: "length held + k \<le> 12" "length hb = 12" "k \<le> length (bytes_of s)"
        "take (length held + k) hb = held @ take k (bytes_of s)" "bytes_of s1 = drop k (bytes_of s)" "transient s1"
        "socket_weight s1 \<le> socket_weight s" "length held + k = 12 \<or> s1 = [] \<or> socket_weight s1 < socket_weight s"
      by blast
    have split: "bytes_of s = take k (bytes_of s) @ bytes_of s1" using k(5) by simp
    show ?thesis
    proof (cases "length held + k = 12")
      case more: False
      with receive_need_header [OF hold(1) False, of t s hb k s1 True] rv k obtain r' where
        "wd_tcp_reader_receive True t r s = Some (WD_TCP_READER_NEED_MORE, None, r', s1)"
        "reader_holds r' (held @ take k (bytes_of s))" "tr_max_payload_size r' = limit" using hold(2) by auto
      with k more split show ?thesis unfolding good_outcome_def by blast
    next
      case full: True
      have hbeq: "hb = held @ take k (bytes_of s)" using k(2,4) full by simp
      have "take 12 (held @ bytes_of s) = hb" unfolding hbeq using full by (simp add: take_append flip: full)
      then have hb: "hb = wd_tcp_header_encode ?h" unfolding stream
        by (simp add: tcp_frame_def tcp_header.length_enc)
      have dec: "wd_tcp_header_decode hb = ?h" using tcp_header.dec_enc [of ?h "[]"] by (simp add: hb)
      let ?r1 = "r\<lparr>tr_header_bytes := hb, tr_header_size := 12\<rparr>"
      let ?r2 = "?r1\<lparr>tr_message_type := ty, tr_payload_size := word_of_nat (length p), tr_header_decoded := True\<rparr>"
      let ?r3 = "if p = [] then ?r2 else ?r2\<lparr>tr_payload := Some (replicate (length p + 64) 0)\<rparr>"
      have z: "(word_of_nat (length p) :: u32) = 0 \<longleftrightarrow> p = []" using lp by (metis length_0_conv unat_eq_zero)
      have "word_of_nat (length p) \<le> limit" using valid lp by (simp add: valid_message_def word_le_nat_alt)
      then have dh: "reader_decode_header True ?r1 = (WD_TCP_READER_MESSAGE, ?r3)"
        using False valid hold(2) z lp
        by (simp add: reader_decode_header_def dec tcp_frame_header_def valid_message_def not_less Let_def)
      have pay: "tr_payload r = None" "tr_payload_received r = 0" using hold False by (simp_all add: reader_holds_def)
      have ps: "tr_payload_size ?r3 = word_of_nat (length p)" by (cases "p = []") simp_all
      have rest: "bytes_of s1 = p @ rest"
      proof -
        have "drop 12 (held @ bytes_of s) = bytes_of s1" using full k(5) by (simp flip: full)
        then show ?thesis unfolding stream by (simp add: tcp_frame_def tcp_header.length_enc)
      qed
      have "good_outcome limit (ty, p) rest (held @ take k (bytes_of s)) s1 (reader_payload_part t ?r3 s1)"
      proof (rule payload_part_ok [where q = "[]"])
        show "quiet ?r3" using q(2) by (simp add: quiet_def)
        show "wd_protocol_payload_size_is_valid ty (tr_payload_size ?r3)" using valid by (auto simp: valid_message_def)
        show "held @ take k (bytes_of s) = wd_tcp_header_encode (tcp_frame_header ty (tr_payload_size ?r3)) @ []"
          unfolding ps append_Nil2 using hbeq hb by (rule trans [OF sym])
      qed (use k hold q lp pay rest t in \<open>auto simp del: unat_word_of_nat\<close>)
      moreover have "wd_tcp_reader_receive True t r s = reader_payload_part t ?r3 s1"
        using rv full dh by (simp add: receive_split [OF q])
      ultimately show ?thesis using good_outcome_extend [OF _ split k(7)] by simp
    qed
  next
    case dec: True
    have h: "tr_header_size r = 12" "12 \<le> length held" "length held < 12 + unat (tr_payload_size r)"
        "take 12 held = wd_tcp_header_encode (tcp_frame_header (tr_message_type r) (tr_payload_size r))"
        "wd_protocol_payload_size_is_valid (tr_message_type r) (tr_payload_size r)"
        "unat (tr_payload_received r) = length held - 12"
      and b: "\<exists>b. tr_payload r = Some b \<and> length b = unat (tr_payload_size r) + 64 \<and> take (length held - 12) b = drop 12 held"
      using hold(1) dec by (simp_all add: reader_holds_def)
    have "take 12 (held @ bytes_of s) = take 12 held" using h(2) by simp
    then have "wd_tcp_header_encode (tcp_frame_header (tr_message_type r) (tr_payload_size r)) = wd_tcp_header_encode ?h"
      unfolding stream h(4) by (simp add: tcp_frame_def tcp_header.length_enc)
    then have same: "tr_message_type r = ty" "tr_payload_size r = word_of_nat (length p)"
      by (simp_all add: tcp_header.enc_inject tcp_frame_header_def)
    have "r\<lparr>tr_header_size := tr_header_size r\<rparr> = r" by simp
    note r1 = this [unfolded h(1)]
    have "wd_tcp_reader_receive True t r s = reader_payload_part t r s"
      using h(1) dec by (simp add: r1 receive_split [OF q] wd_tcp_reader_recv_bytes.simps reader_decode_header_def)
    moreover have "good_outcome limit (ty, p) rest held s (reader_payload_part t r s)"
    proof (rule payload_part_ok [where q = "drop 12 held"])
      show "held = wd_tcp_header_encode (tcp_frame_header ty (tr_payload_size r)) @ drop 12 held"
        using h(4) same(1) by (metis append_take_drop_id)
      have "drop 12 (held @ bytes_of s) = p @ rest" unfolding stream by (simp add: tcp_frame_def tcp_header.length_enc)
      then show "drop 12 held @ bytes_of s = p @ rest" using h(2) by simp
      show "if p = [] then tr_payload r = None
            else \<exists>b. tr_payload r = Some b \<and> length b = length p + 64 \<and> take (length (drop 12 held)) b = drop 12 held"
        using b h(2,3) same(2) lp by auto
    qed (use dec h hold q lp same hb12 s t in \<open>auto simp del: unat_word_of_nat\<close>)
    ultimately show ?thesis by simp
  qed
qed

section \<open>A stream of messages\<close>

text \<open>The loop of a channel: call \<open>receive\<close> until the socket is exhausted, and collect the messages.\<close>

fun receive_stream ::
    "nat \<Rightarrow> read_times \<Rightarrow> wd_tcp_reader \<Rightarrow> socket \<Rightarrow> (wd_tcp_message list \<times> wd_tcp_reader \<times> socket) option" where
  "receive_stream 0 t r s = (if s = [] then Some ([], r, s) else None)"
| "receive_stream (Suc n) t r s =
     (case wd_tcp_reader_receive True t r s of
        Some (WD_TCP_READER_MESSAGE, Some m, r', s') \<Rightarrow>
          map_option (\<lambda>(ms, r'', s''). (m # ms, r'', s'')) (receive_stream n t r' s')
      | Some (WD_TCP_READER_NEED_MORE, _, r', s') \<Rightarrow>
          (if s' = [] then Some ([], r', s') else receive_stream n t r' s')
      | _ \<Rightarrow> None)"

lemma receive_idle:
  assumes hold: "reader_holds r []" and s: "transient s" "bytes_of s = []" and t: "no_timeouts t"
  shows "\<exists>r' s'. wd_tcp_reader_receive True t r s = Some (WD_TCP_READER_NEED_MORE, None, r', s') \<and> reader_holds r' []
     \<and> tr_max_payload_size r' = tr_max_payload_size r \<and> transient s' \<and> bytes_of s' = []
     \<and> (s' = [] \<or> socket_weight s' < socket_weight s)"
proof -
  have nd: "\<not> tr_header_decoded r" using hold by (auto simp: reader_holds_def)
  from header_part [OF hold nd s(1) t] s(2) obtain hb s1 where
    rv: "wd_tcp_reader_recv_bytes t r s (tr_header_bytes r) (tr_header_size r) 12 =
       Some (WD_TCP_READER_NEED_MORE, hb, 0, r, s1)" "length hb = 12" "transient s1" "bytes_of s1 = []"
      "s1 = [] \<or> socket_weight s1 < socket_weight s" by auto
  with receive_need_header [OF hold nd, of t s hb 0 s1 True] show ?thesis by auto
qed

lemma holds_less_than_frame:
  assumes "reader_holds r (tcp_frame ty p @ rest)" "length p < 2 ^ 32"
  shows False
proof (cases "tr_header_decoded r")
  case True
  then have h: "take 12 (tcp_frame ty p @ rest) =
      wd_tcp_header_encode (tcp_frame_header (tr_message_type r) (tr_payload_size r))"
    "length (tcp_frame ty p @ rest) < 12 + unat (tr_payload_size r)" using assms(1) by (simp_all add: reader_holds_def)
  from h(1) have "tr_payload_size r = word_of_nat (length p)"
    by (simp add: tcp_frame_def tcp_header.length_enc tcp_header.enc_inject tcp_frame_header_def)
  with h(2) assms(2) show False by simp
qed (use assms in \<open>simp add: reader_holds_def\<close>)

lemma receive_stream_ok:
  "\<lbrakk>reader_holds r held; tr_max_payload_size r = limit; transient s; no_timeouts t; list_all (valid_message limit) ms;
    held @ bytes_of s = concat (map (case_prod tcp_frame) ms); socket_weight s + length ms \<le> n\<rbrakk> \<Longrightarrow>
   \<exists>out r'. receive_stream (Suc n) t r s = Some (out, r', []) \<and> list_all2 delivers out ms \<and> reader_holds r' []"
proof (induction "socket_weight s + length ms" arbitrary: r held s ms n rule: less_induct)
  case less
  show ?case
  proof (cases ms)
    case Nil
    then have e: "held = []" "bytes_of s = []" using less.prems(6) by auto
    from receive_idle [OF less.prems(1) [unfolded e] less.prems(3) e(2) less.prems(4)] obtain r' s' where
      rc: "wd_tcp_reader_receive True t r s = Some (WD_TCP_READER_NEED_MORE, None, r', s')" "reader_holds r' []"
        "tr_max_payload_size r' = limit" "transient s'" "bytes_of s' = []" "s' = [] \<or> socket_weight s' < socket_weight s"
      using less.prems(2) by auto
    show ?thesis
    proof (cases "s' = []")
      case True
      with rc Nil show ?thesis by simp
    next
      case False
      then obtain n' where n': "n = Suc n'" using rc(6) less.prems(7) by (cases n) auto
      have "\<exists>out r''. receive_stream (Suc n') t r' s' = Some (out, r'', []) \<and> list_all2 delivers out ms \<and> reader_holds r'' []"
        using less.hyps [of s' ms r' "[]" n'] rc False less.prems Nil n' by auto
      with rc(1) False n' show ?thesis by simp
    qed
  next
    case (Cons m ms')
    obtain ty p where m: "m = (ty, p)" by force
    let ?rest = "concat (map (case_prod tcp_frame) ms')"
    have v: "valid_message limit (ty, p)" "list_all (valid_message limit) ms'" using less.prems(5) Cons m by simp_all
    have stream: "held @ bytes_of s = tcp_frame ty p @ ?rest" using less.prems(6) Cons m by simp
    obtain n' where n': "n = Suc n'" using less.prems(7) Cons by (cases n) auto
    from receive_frame_ok [OF less.prems(1-4) stream v(1)] consider
      msg s' where "wd_tcp_reader_receive True t r s = Some (WD_TCP_READER_MESSAGE, Some msg, wd_tcp_reader_init limit, s')"
        "delivers msg (ty, p)" "bytes_of s' = ?rest" "transient s'" "socket_weight s' \<le> socket_weight s"
    | r' c s' where "wd_tcp_reader_receive True t r s = Some (WD_TCP_READER_NEED_MORE, None, r', s')"
        "reader_holds r' (held @ c)" "tr_max_payload_size r' = limit" "bytes_of s = c @ bytes_of s'" "transient s'"
        "s' = [] \<or> socket_weight s' < socket_weight s"
      unfolding good_outcome_def by blast
    then show ?thesis
    proof cases
      case 1
      have lim: "limit \<noteq> 0" using less.prems(1,2) by (auto simp: reader_holds_def)
      have mx: "tr_max_payload_size (wd_tcp_reader_init limit) = limit" by (simp add: wd_tcp_reader_init_def)
      have "\<exists>out r'. receive_stream (Suc n') t (wd_tcp_reader_init limit) s' = Some (out, r', [])
          \<and> list_all2 delivers out ms' \<and> reader_holds r' []"
        by (rule less.hyps [OF _ init_holds [OF lim] mx 1(4) less.prems(4) v(2)])
          (use 1(3,5) less.prems(7) Cons n' in simp_all)
      then show ?thesis using 1(1,2) Cons m n' by auto
    next
      case 2
      have ne: "s' \<noteq> []"
      proof
        assume "s' = []"
        then have "held @ c = tcp_frame ty p @ ?rest" using 2(4) stream by simp
        moreover have "length p < 2 ^ 32" using v(1) unat_u32_lt [of limit] by (simp add: valid_message_def)
        ultimately show False using holds_less_than_frame 2(2) by metis
      qed
      have "\<exists>out r''. receive_stream (Suc n') t r' s' = Some (out, r'', []) \<and> list_all2 delivers out ms \<and> reader_holds r'' []"
        by (rule less.hyps [OF _ 2(2,3,5) less.prems(4,5)]) (use 2(4,6) ne less.prems(6,7) n' in auto)
      then show ?thesis using 2(1) ne n' by auto
    qed
  qed
qed

declare receive_stream.simps [simp del]

section \<open>Any peer\<close>

text \<open>Whatever the socket delivers, a block is filled within its bounds and only the deadlines change.\<close>

definition note_frame :: "read_times \<Rightarrow> wd_tcp_reader \<Rightarrow> bool \<Rightarrow> u64 \<Rightarrow> wd_tcp_reader" where
  "note_frame t r progress idle =
     (if progress then
        r\<lparr>tr_frame_deadline_ns :=
            (if tr_frame_deadline_ns r = 0 then wd_tcp_deadline_after (rt_now t) (rt_life t) else tr_frame_deadline_ns r),
          tr_idle_deadline_ns := idle\<rparr>
      else r)"

lemma note_frame_progress:
  "note_frame t (wd_tcp_reader_note_progress r (rt_now t) (rt_idle t) (rt_life t)) b i =
   note_frame t r True (if b then i else wd_tcp_deadline_after (rt_now t) (rt_idle t))"
  by (auto simp: note_frame_def wd_tcp_reader_note_progress_def)

lemma recv_bytes_any:
  "\<lbrakk>k0 \<le> n; n \<le> length d\<rbrakk> \<Longrightarrow>
   \<exists>st d' k i s'. wd_tcp_reader_recv_bytes t r s d k0 n = Some (st, d', k, note_frame t r (k \<noteq> k0) i, s')
     \<and> k0 \<le> k \<and> k \<le> n \<and> length d' = length d \<and> (st = WD_TCP_READER_MESSAGE \<longleftrightarrow> k = n)"
proof (induction "socket_weight s" arbitrary: s k0 d r rule: less_induct)
  case less
  show ?case
  proof (cases "k0 < n")
    case False
    with less.prems have "k0 = n" by simp
    then show ?thesis
      by (intro exI [of _ WD_TCP_READER_MESSAGE] exI [of _ d] exI [of _ n] exI [of _ 0] exI [of _ s])
        (simp add: wd_tcp_reader_recv_bytes.simps [of t r s d n n] note_frame_def)
  next
    case True
    obtain res s1 where rv: "sys_recv s (n - k0) = (res, s1)" by force
    note step = wd_tcp_reader_recv_bytes.simps [of t r s d k0 n]
    show ?thesis
    proof (cases res)
      case (Got bs)
      have len: "length bs \<le> n - k0" "bs \<noteq> []" using sys_recv_got [of s "n - k0" bs s1] rv Got True by auto
      have w: "socket_weight s1 < socket_weight s" using sys_recv_weight [OF rv] True Got by simp
      let ?r = "wd_tcp_reader_note_progress r (rt_now t) (rt_idle t) (rt_life t)"
      from len less.prems True obtain d1 where d1: "wr_range d k0 bs = Some d1" "length d1 = length d"
        by (metis (no_types) le_trans length_wr_range add_le_mono1 le_diff_conv2 less_or_eq_imp_le wr_range_def add.commute)
      have "k0 + length bs \<le> n" using len True by linarith
      from less.hyps [OF w this, of d1 ?r] d1 less.prems obtain st d' k i s' where IH:
        "wd_tcp_reader_recv_bytes t ?r s1 d1 (k0 + length bs) n =
           Some (st, d', k, note_frame t ?r (k \<noteq> k0 + length bs) i, s')"
        "k0 + length bs \<le> k" "k \<le> n" "length d' = length d" "st = WD_TCP_READER_MESSAGE \<longleftrightarrow> k = n" by auto
      then show ?thesis using step True rv Got d1 len unfolding note_frame_progress by force
    next
      case Eintr
      have w: "socket_weight s1 < socket_weight s" using sys_recv_weight [OF rv] True Eintr by simp
      then show ?thesis using less.hyps [OF w less.prems] step True rv Eintr by simp
    qed (use step True rv less.prems in \<open>auto simp: note_frame_def intro!: exI [of _ k0]\<close>)
  qed
qed

text \<open>The state of a reader between calls.\<close>

definition reader_ok :: "wd_tcp_reader \<Rightarrow> bool" where
  "reader_ok r \<longleftrightarrow>
     length (tr_header_bytes r) = WD_TCP_HEADER_WIRE_SIZE \<and> tr_header_size r \<le> WD_TCP_HEADER_WIRE_SIZE \<and>
     (if tr_header_decoded r then
        tr_payload_size r \<le> tr_max_payload_size r \<and>
        wd_protocol_payload_size_is_valid (tr_message_type r) (tr_payload_size r) \<and>
        tr_payload_received r \<le> tr_payload_size r \<and>
        (if tr_payload_size r = 0 then tr_payload r = None
         else \<exists>b. tr_payload r = Some b \<and> length b = unat (tr_payload_size r) + WD_TCP_PAYLOAD_PADDING_BYTES)
      else tr_payload r = None \<and> tr_payload_size r = 0 \<and> tr_payload_received r = 0)"

lemma reader_ok_init [simp]: "reader_ok (wd_tcp_reader_init limit)"
  by (simp add: reader_ok_def wd_tcp_reader_init_def)

lemma init_limit [simp]: "tr_max_payload_size (wd_tcp_reader_init limit) = limit"
  by (simp add: wd_tcp_reader_init_def)

lemma note_frame_fields [simp]:
  "tr_header_bytes (note_frame t r b i) = tr_header_bytes r"
  "tr_header_size (note_frame t r b i) = tr_header_size r"
  "tr_payload (note_frame t r b i) = tr_payload r"
  "tr_payload_size (note_frame t r b i) = tr_payload_size r"
  "tr_payload_received (note_frame t r b i) = tr_payload_received r"
  "tr_max_payload_size (note_frame t r b i) = tr_max_payload_size r"
  "tr_message_type (note_frame t r b i) = tr_message_type r"
  "tr_header_decoded (note_frame t r b i) = tr_header_decoded r"
  by (simp_all add: note_frame_def)

text \<open>What a call leaves behind: a good reader, whose message, if any, is admissible.\<close>

definition safe_outcome ::
    "u32 \<Rightarrow> (wd_tcp_reader_status \<times> wd_tcp_message option \<times> wd_tcp_reader \<times> socket) option \<Rightarrow> bool" where
  "safe_outcome limit out \<longleftrightarrow>
     (\<exists>st msg r s. out = Some (st, msg, r, s) \<and> reader_ok r \<and> tr_max_payload_size r = limit
        \<and> (st = WD_TCP_READER_MESSAGE \<longleftrightarrow> msg \<noteq> None)
        \<and> (\<forall>m. msg = Some m \<longrightarrow>
              wd_protocol_payload_validate (tm_message_type m) (tm_payload m) (tm_payload_size m)
              \<and> tm_payload_size m \<le> limit
              \<and> (case tm_payload m of None \<Rightarrow> tm_payload_size m = 0
                 | Some b \<Rightarrow> length b = unat (tm_payload_size m) + WD_TCP_PAYLOAD_PADDING_BYTES)))"

lemma payload_part_safe:
  assumes ok: "reader_ok r" "tr_header_decoded r" "tr_header_size r = 12"
  shows "safe_outcome (tr_max_payload_size r) (reader_payload_part t r s)"
proof (cases "tr_payload_size r = 0")
  case True
  with ok show ?thesis
    by (simp add: reader_payload_part_def safe_outcome_def reader_ok_def wd_protocol_payload_validate_def
        wd_tcp_reader_clear_frame_def wd_tcp_reader_init_def)
next
  case False
  with ok obtain b where b: "tr_payload r = Some b" "length b = unat (tr_payload_size r) + 64"
    by (auto simp: reader_ok_def)
  have "unat (tr_payload_received r) \<le> unat (tr_payload_size r)"
    using ok by (simp add: reader_ok_def word_le_nat_alt)
  from recv_bytes_any [OF this, of b t r s] b(2) obtain st d' k i s' where
    rv: "wd_tcp_reader_recv_bytes t r s b (unat (tr_payload_received r)) (unat (tr_payload_size r)) =
       Some (st, d', k, note_frame t r (k \<noteq> unat (tr_payload_received r)) i, s')"
      "k \<le> unat (tr_payload_size r)" "length d' = length b" by auto
  define r1 where "r1 = note_frame t r (k \<noteq> unat (tr_payload_received r)) i"
  let ?r = "r1\<lparr>tr_payload := Some d', tr_payload_received := word_of_nat k\<rparr>"
  have "(word_of_nat k :: u32) \<le> tr_payload_size r"
    using rv(2) unat_u32_lt [of "tr_payload_size r"] by (simp add: word_le_nat_alt)
  then have okr: "reader_ok ?r" "tr_max_payload_size ?r = tr_max_payload_size r"
    using ok False b rv(3) by (simp_all add: reader_ok_def r1_def)
  have valid: "wd_protocol_payload_validate (tr_message_type r) (Some d') (tr_payload_size r)" "tr_payload_size r \<le> tr_max_payload_size r"
    using ok by (simp_all add: reader_ok_def wd_protocol_payload_validate_def)
  have out: "reader_payload_part t r s =
      (if st \<noteq> WD_TCP_READER_MESSAGE then Some (st, None, ?r, s')
       else Some (WD_TCP_READER_MESSAGE, Some \<lparr>tm_message_type = tr_message_type r, tm_payload = Some d', tm_payload_size = tr_payload_size r\<rparr>,
                  wd_tcp_reader_init (tr_max_payload_size r), s'))"
    using False b(1) rv(1) valid
    by (simp add: reader_payload_part_def wd_tcp_reader_clear_frame_def r1_def)
  show ?thesis unfolding out using okr valid b(2) rv(3)
    by (simp add: safe_outcome_def)
qed

lemma decode_header_safe:
  assumes "reader_ok r" "tr_header_size r = 12" "reader_decode_header True r = (st, r')"
  shows "reader_ok r' \<and> tr_header_size r' = 12 \<and> tr_max_payload_size r' = tr_max_payload_size r
    \<and> (st = WD_TCP_READER_MESSAGE \<longrightarrow> tr_header_decoded r')"
  using assms by (auto simp: reader_decode_header_def reader_ok_def Let_def split: if_splits)

lemma receive_safe:
  assumes ok: "reader_ok r"
  shows "safe_outcome (tr_max_payload_size r) (wd_tcp_reader_receive True t r s)"
proof (cases "tr_max_payload_size r = 0 \<or> wd_tcp_reader_has_partial_frame r \<and> wd_tcp_reader_timed_out r (rt_now t)")
  case True
  with ok show ?thesis by (auto simp: wd_tcp_reader_receive_def safe_outcome_def)
next
  case False
  have h: "tr_header_size r \<le> 12" "length (tr_header_bytes r) = 12" using ok by (simp_all add: reader_ok_def)
  from recv_bytes_any [OF h(1), of "tr_header_bytes r" t r s] h(2) obtain st hb k i s1 where
    rv: "wd_tcp_reader_recv_bytes t r s (tr_header_bytes r) (tr_header_size r) 12 =
       Some (st, hb, k, note_frame t r (k \<noteq> tr_header_size r) i, s1)"
      "k \<le> 12" "length hb = 12" "st = WD_TCP_READER_MESSAGE \<longleftrightarrow> k = 12" by auto
  let ?r = "(note_frame t r (k \<noteq> tr_header_size r) i)\<lparr>tr_header_bytes := hb, tr_header_size := k\<rparr>"
  have okr: "reader_ok ?r" using ok rv by (simp add: reader_ok_def)
  obtain st' r2 where d: "reader_decode_header True ?r = (st', r2)" by force
  have out: "wd_tcp_reader_receive True t r s =
      (if st \<noteq> WD_TCP_READER_MESSAGE then Some (st, None, ?r, s1)
       else if st' \<noteq> WD_TCP_READER_MESSAGE then Some (st', None, r2, s1)
       else reader_payload_part t r2 s1)"
    using False rv(1) d by (auto simp: wd_tcp_reader_receive_def)
  show ?thesis
  proof (cases "st = WD_TCP_READER_MESSAGE")
    case True
    then have k: "tr_header_size ?r = 12" using rv(4) by simp
    note dh = decode_header_safe [OF okr k d]
    show ?thesis
    proof (cases "st' = WD_TCP_READER_MESSAGE")
      case m: True
      have "safe_outcome (tr_max_payload_size r2) (reader_payload_part t r2 s1)" using payload_part_safe dh m by blast
      then show ?thesis unfolding out using True m dh by simp
    qed (use True dh in \<open>simp add: out safe_outcome_def\<close>)
  qed (use okr in \<open>simp add: out safe_outcome_def\<close>)
qed

section \<open>Deadlines\<close>

text \<open>
  The deadline of a frame is set by its first byte and no later byte moves it. \<open>receive_calls\<close>
  runs successive calls, each of which must ask for more.
\<close>

fun receive_calls :: "(read_times \<times> socket) list \<Rightarrow> wd_tcp_reader \<Rightarrow> wd_tcp_reader option" where
  "receive_calls [] r = Some r"
| "receive_calls ((t, s) # cs) r =
     (case wd_tcp_reader_receive True t r s of
        Some (WD_TCP_READER_NEED_MORE, _, r', _) \<Rightarrow> receive_calls cs r'
      | _ \<Rightarrow> None)"

definition frame_dated :: "read_times \<Rightarrow> wd_tcp_reader \<Rightarrow> wd_tcp_reader \<Rightarrow> bool" where
  "frame_dated t r r' \<longleftrightarrow>
     (wd_tcp_reader_has_partial_frame r \<longrightarrow> wd_tcp_reader_has_partial_frame r') \<and>
     (tr_frame_deadline_ns r \<noteq> 0 \<longrightarrow> tr_frame_deadline_ns r' = tr_frame_deadline_ns r) \<and>
     (tr_frame_deadline_ns r = 0 \<and> tr_header_size r = 0 \<and> tr_header_size r' \<noteq> 0 \<longrightarrow>
        tr_frame_deadline_ns r' = wd_tcp_deadline_after (rt_now t) (rt_life t))"

lemma note_frame_deadline:
  "tr_frame_deadline_ns (note_frame t r b i) =
     (if b \<and> tr_frame_deadline_ns r = 0 then wd_tcp_deadline_after (rt_now t) (rt_life t) else tr_frame_deadline_ns r)"
  by (simp add: note_frame_def)

lemma payload_part_dated:
  assumes ok: "reader_ok r" "tr_header_decoded r" "tr_header_size r = 12"
    and rc: "reader_payload_part t r s = Some (WD_TCP_READER_NEED_MORE, m, r', s')"
  shows "tr_header_size r' = 12 \<and> (\<exists>b i. tr_frame_deadline_ns r' = tr_frame_deadline_ns (note_frame t r b i))"
proof (cases "tr_payload_size r = 0")
  case True
  with ok rc show ?thesis by (simp add: reader_payload_part_def split: if_splits)
next
  case False
  with ok obtain b where b: "tr_payload r = Some b" "length b = unat (tr_payload_size r) + 64"
    by (auto simp: reader_ok_def)
  have "unat (tr_payload_received r) \<le> unat (tr_payload_size r)"
    using ok by (simp add: reader_ok_def word_le_nat_alt)
  from recv_bytes_any [OF this, of b t r s] b(2) obtain st d' k i s1 where
    "wd_tcp_reader_recv_bytes t r s b (unat (tr_payload_received r)) (unat (tr_payload_size r)) =
       Some (st, d', k, note_frame t r (k \<noteq> unat (tr_payload_received r)) i, s1)" by auto
  with rc b(1) ok(3) False have "tr_header_size r' = 12 \<and>
      tr_frame_deadline_ns r' = tr_frame_deadline_ns (note_frame t r (k \<noteq> unat (tr_payload_received r)) i)"
    by (auto simp: reader_payload_part_def split: if_splits)
  then show ?thesis by blast
qed

lemma receive_dated:
  assumes ok: "reader_ok r" and rc: "wd_tcp_reader_receive True t r s = Some (WD_TCP_READER_NEED_MORE, m, r', s')"
  shows "frame_dated t r r'"
proof -
  have h: "tr_header_size r \<le> 12" "length (tr_header_bytes r) = 12" using ok by (simp_all add: reader_ok_def)
  from recv_bytes_any [OF h(1), of "tr_header_bytes r" t r s] h(2) obtain st hb k i s1 where
    rv: "wd_tcp_reader_recv_bytes t r s (tr_header_bytes r) (tr_header_size r) 12 =
       Some (st, hb, k, note_frame t r (k \<noteq> tr_header_size r) i, s1)"
      "tr_header_size r \<le> k" "k \<le> 12" "length hb = 12" "st = WD_TCP_READER_MESSAGE \<longleftrightarrow> k = 12" by auto
  define r1 where "r1 = (note_frame t r (k \<noteq> tr_header_size r) i)\<lparr>tr_header_bytes := hb, tr_header_size := k\<rparr>"
  have okr: "reader_ok r1" using ok rv by (simp add: reader_ok_def r1_def)
  obtain st' r2 where d: "reader_decode_header True r1 = (st', r2)" by force
  have out: "wd_tcp_reader_receive True t r s =
      (if st \<noteq> WD_TCP_READER_MESSAGE then Some (st, None, r1, s1)
       else if st' \<noteq> WD_TCP_READER_MESSAGE then Some (st', None, r2, s1)
       else reader_payload_part t r2 s1)"
    using rc rv(1) d by (auto simp: wd_tcp_reader_receive_def r1_def split: if_splits)
  have not_more: "st' \<noteq> WD_TCP_READER_NEED_MORE"
    using d by (auto simp: reader_decode_header_def Let_def split: if_splits)
  have f1: "tr_frame_deadline_ns r1 = tr_frame_deadline_ns (note_frame t r (k \<noteq> tr_header_size r) i)" "tr_header_size r1 = k"
    by (simp_all add: r1_def)
  show ?thesis
  proof (cases "st = WD_TCP_READER_MESSAGE")
    case False
    then have "r' = r1" using rc out by simp
    then show ?thesis using rv(2) f1
      by (auto simp: frame_dated_def note_frame_deadline wd_tcp_reader_has_partial_frame_def r1_def)
  next
    case True
    then have k: "k = 12" using rv(5) by simp
    have pp: "reader_payload_part t r2 s1 = Some (WD_TCP_READER_NEED_MORE, m, r', s')" "st' = WD_TCP_READER_MESSAGE"
      using rc out True not_more by (auto split: if_splits)
    note dh = decode_header_safe [OF okr _ d]
    from dh f1 k pp(2) payload_part_dated [OF _ _ _ pp(1)] obtain b i' where
      r': "tr_header_size r' = 12" "tr_frame_deadline_ns r' = tr_frame_deadline_ns (note_frame t r2 b i')" by auto
    have "tr_frame_deadline_ns r2 = tr_frame_deadline_ns r1"
      using d by (auto simp: reader_decode_header_def Let_def split: if_splits)
    then show ?thesis using r' f1 k
      by (auto simp: frame_dated_def note_frame_deadline wd_tcp_reader_has_partial_frame_def)
  qed
qed

lemma unat_deadline_after:
  "timeout_ns \<noteq> 0 \<Longrightarrow>
   unat (wd_tcp_deadline_after now_ns timeout_ns) = min 18446744073709551615 (unat now_ns + unat timeout_ns)"
  using unat_sat_add64 [of now_ns timeout_ns] by (simp add: wd_tcp_deadline_after_def)

lemma deadline_after_nonzero: "timeout_ns \<noteq> 0 \<Longrightarrow> wd_tcp_deadline_after now_ns timeout_ns \<noteq> 0"
  using unat_deadline_after [of timeout_ns now_ns] by (auto simp: unat_eq_zero min_def split: if_splits)

lemma receive_calls_dated:
  "\<lbrakk>receive_calls cs r = Some r'; reader_ok r; wd_tcp_reader_has_partial_frame r; tr_frame_deadline_ns r \<noteq> 0\<rbrakk> \<Longrightarrow>
   wd_tcp_reader_has_partial_frame r' \<and> tr_frame_deadline_ns r' = tr_frame_deadline_ns r
   \<and> tr_max_payload_size r' = tr_max_payload_size r"
proof (induction cs arbitrary: r)
  case (Cons c cs)
  obtain t s where c: "c = (t, s)" by force
  from receive_safe [OF Cons.prems(2), of t s] obtain st m r1 s1 where
    rc: "wd_tcp_reader_receive True t r s = Some (st, m, r1, s1)" "reader_ok r1" "tr_max_payload_size r1 = tr_max_payload_size r"
    by (auto simp: safe_outcome_def)
  from Cons.prems(1) rc(1) c have st: "st = WD_TCP_READER_NEED_MORE" "receive_calls cs r1 = Some r'"
    by (auto split: wd_tcp_reader_status.splits)
  from receive_dated [OF Cons.prems(2), of t s] rc(1) st(1) have "frame_dated t r r1" by simp
  with Cons.IH [OF st(2) rc(2)] Cons.prems(3,4) rc(3) show ?case by (simp add: frame_dated_def)
qed simp

section \<open>Properties\<close>


lemma send_in_two_parts:
  assumes "length p < 2 ^ 32" "wd_protocol_payload_size_is_valid ty (word_of_nat (length p))"
  shows "\<exists>evs. wd_send_tcp_message evs ty (Some p) (word_of_nat (length p)) = Some (True, tcp_frame ty p)"
proof -
  have un: "unat (word_of_nat (length p) :: u32) = length p" using assms(1) by simp
  have z: "(word_of_nat (length p) :: u32) = 0 \<longleftrightarrow> p = []" using un by (metis length_0_conv unat_eq_zero)
  have "wd_send_tcp_message [Accept 5, Sintr, Accept (7 + length p)] ty (Some p) (word_of_nat (length p)) = Some (True, tcp_frame ty p)"
    using assms(2) un z
    by (auto simp: wd_send_tcp_message_def wd_protocol_payload_wire_size_def wd_protocol_payload_validate_def Let_def
        rd_range_def tcp_frame_def tcp_header.length_enc)
  then show ?thesis by blast
qed




text \<open>
  C34: A frame has one lifetime, which starts with its first byte. A peer that starts a frame and
  then sends it in portions, in any number of calls and at any times, does not extend it:
  every call from the deadline on reports \<open>WD_TCP_READER_TIMED_OUT\<close>, without reading.
\<close>

theorem slow_frame_times_out:
  assumes first: "wd_tcp_reader_receive True t0 (wd_tcp_reader_init limit) s0 = Some (WD_TCP_READER_NEED_MORE, m, r, s0')"
      "tr_header_size r \<noteq> 0" "rt_life t0 \<noteq> 0" "limit \<noteq> 0"
    and later: "receive_calls cs r = Some r'"
    and now: "wd_tcp_deadline_after (rt_now t0) (rt_life t0) \<le> rt_now t"
  shows "wd_tcp_reader_receive ok t r' s = Some (WD_TCP_READER_TIMED_OUT, None, r', s)"
proof -
  let ?d = "wd_tcp_deadline_after (rt_now t0) (rt_life t0)"
  from receive_safe [OF reader_ok_init, of limit t0 s0] first(1) have ok: "reader_ok r" "tr_max_payload_size r = limit"
    by (simp_all add: safe_outcome_def)
  from receive_dated [OF reader_ok_init first(1)] first(2) have d: "tr_frame_deadline_ns r = ?d"
    by (simp add: frame_dated_def wd_tcp_reader_init_def)
  have nz: "?d \<noteq> 0" using deadline_after_nonzero [OF first(3)] .
  from receive_calls_dated [OF later ok(1)] first(2) d nz have
    "wd_tcp_reader_has_partial_frame r'" "tr_frame_deadline_ns r' = ?d" "tr_max_payload_size r' = limit"
    using ok(2) by (simp_all add: wd_tcp_reader_has_partial_frame_def)
  then show ?thesis using now nz first(4)
    by (simp add: wd_tcp_reader_receive_def wd_tcp_reader_timed_out_def)
qed

theorem slow_frame_times_out_witness:
  "\<exists>r r' s'. wd_tcp_reader_receive True \<lparr>rt_now = 1000, rt_idle = 0, rt_life = 500\<rparr> (wd_tcp_reader_init 64) [Data [1, 2, 3]] =
       Some (WD_TCP_READER_NEED_MORE, None, r, s')
     \<and> receive_calls [(\<lparr>rt_now = 1400, rt_idle = 0, rt_life = 500\<rparr>, [Data [4]])] r = Some r'
     \<and> wd_tcp_reader_receive True \<lparr>rt_now = 1500, rt_idle = 0, rt_life = 500\<rparr> r' [Data [5]] =
       Some (WD_TCP_READER_TIMED_OUT, None, r', [Data [5]])"
proof -
  let ?r = "\<lambda>k bs. (wd_tcp_reader_init 64)\<lparr>tr_header_bytes := bs, tr_header_size := k, tr_frame_deadline_ns := 1500\<rparr>"
  let ?r3 = "?r 3 ([1, 2, 3] @ replicate 9 0)" and ?r4 = "?r 4 ([1, 2, 3, 4] @ replicate 8 0)"
  have a: "wd_tcp_reader_receive True \<lparr>rt_now = 1000, rt_idle = 0, rt_life = 500\<rparr> (wd_tcp_reader_init 64) [Data [1, 2, 3]] =
       Some (WD_TCP_READER_NEED_MORE, None, ?r3, [])" by code_simp
  have b: "receive_calls [(\<lparr>rt_now = 1400, rt_idle = 0, rt_life = 500\<rparr>, [Data [4]])] ?r3 = Some ?r4" by code_simp
  have "wd_tcp_reader_receive True \<lparr>rt_now = 1500, rt_idle = 0, rt_life = 500\<rparr> ?r4 [Data [5]] =
       Some (WD_TCP_READER_TIMED_OUT, None, ?r4, [Data [5]])"
    by (rule slow_frame_times_out [OF a _ _ _ b]) (simp_all add: wd_tcp_deadline_after_def)
  with a b show ?thesis by blast
qed



end
