(* ===== verification/WD_Bitstream.thy ===== *)
theory WD_Bitstream
  imports WD_Prelude "HOL-Library.Monad_Syntax"
begin

text \<open>
  The two places that look into encoded video. The server repairs a defect of a HEVC encoder
  in the first start code of a packet (\<open>src/src/server/wd_hevc_annexb.c\<close>). The client, whose
  decoder has been reset, accepts only a self-contained key frame
  (\<open>src/src/client/video_keyframe_recovery.c\<close>).

  Positions and sizes are natural numbers (a size is at most a 32-bit value); a \<open>None\<close> result is
  a read or write outside the packet.
\<close>

section \<open>Start codes\<close>

definition wd_start_code_size :: "bytes \<Rightarrow> nat \<Rightarrow> nat \<Rightarrow> nat option" where
  "wd_start_code_size data n pos =
     (if pos > n \<or> n - pos < 3 then Some 0
      else do { a \<leftarrow> rd data pos;
        if a \<noteq> 0 then Some 0
        else do { b \<leftarrow> rd data (pos + 1);
          if b \<noteq> 0 then Some 0
          else do { c \<leftarrow> rd data (pos + 2);
            if c = 1 then Some 3
            else if n - pos \<ge> 4 \<and> c = 0 then do { d \<leftarrow> rd data (pos + 3); Some (if d = 1 then 4 else 0) }
            else Some 0 } } })"

text \<open>The reference definition, on the bytes that follow.\<close>

fun start_code :: "bytes \<Rightarrow> nat" where
  "start_code (a # b # c # bs) =
     (if a = 0 \<and> b = 0 then
        (if c = 1 then 3 else case bs of d # _ \<Rightarrow> if c = 0 \<and> d = 1 then 4 else 0 | [] \<Rightarrow> 0)
      else 0)"
| "start_code bs = 0"

lemma start_code_cases: "start_code bs \<in> {0, 3, 4}"
  by (cases bs rule: start_code.cases) (auto split: list.splits)

lemma start_code_le: "start_code bs \<le> length bs"
  by (cases bs rule: start_code.cases) (auto split: list.splits)

lemma start_code_Nil [simp]: "start_code [] = 0" by simp

lemma start_code_size_eq:
  assumes "pos \<le> n" "n \<le> length data"
  shows "wd_start_code_size data n pos = Some (start_code (drop pos (take n data)))"
proof (cases "n - pos < 3")
  case True
  then have "length (drop pos (take n data)) < 3" using assms by simp
  then have "start_code (drop pos (take n data)) = 0"
    by (cases "drop pos (take n data)" rule: start_code.cases) auto
  then show ?thesis using True by (simp add: wd_start_code_size_def)
next
  case False
  let ?d = "drop pos (take n data)"
  have d3: "?d = data ! pos # data ! (pos + 1) # data ! (pos + 2) # drop (pos + 3) (take n data)"
    using False assms by (simp add: Cons_nth_drop_Suc [symmetric] numeral_eq_Suc)
  show ?thesis
  proof (cases "n - pos \<ge> 4")
    case True
    have "drop (pos + 3) (take n data) = data ! (pos + 3) # drop (pos + 4) (take n data)"
      using True assms by (simp add: Cons_nth_drop_Suc [symmetric] numeral_eq_Suc)
    with d3 show ?thesis using True assms by (simp add: wd_start_code_size_def)
  next
    case short: False
    then have "drop (pos + 3) (take n data) = []" using assms by simp
    with d3 show ?thesis using False short assms by (simp add: wd_start_code_size_def)
  qed
qed

section \<open>Key frames in H.264 and HEVC\<close>

datatype wd_client_video_keyframe_result =
    WD_CLIENT_VIDEO_KEYFRAME_VALID
  | WD_CLIENT_VIDEO_KEYFRAME_INVALID_BITSTREAM
  | WD_CLIENT_VIDEO_KEYFRAME_MISSING_PARAMETER_SETS
  | WD_CLIENT_VIDEO_KEYFRAME_MISSING_RANDOM_ACCESS

abbreviation (input) WD_VIDEO_CODEC_H265 :: u32 where "WD_VIDEO_CODEC_H265 \<equiv> 1"
abbreviation (input) WD_VIDEO_CODEC_H264 :: u32 where "WD_VIDEO_CODEC_H264 \<equiv> 2"
abbreviation (input) WD_VIDEO_CODEC_AV1 :: u32 where "WD_VIDEO_CODEC_AV1 \<equiv> 4"

text \<open>The end of the NAL unit that starts at a position: the next start code or the end of the packet.\<close>

function find_nal_end :: "bytes \<Rightarrow> nat \<Rightarrow> nat \<Rightarrow> nat option" where
  "find_nal_end data n nxt =
     (if nxt < n then do { k \<leftarrow> wd_start_code_size data n nxt; if k = 0 then find_nal_end data n (nxt + 1) else Some nxt }
      else Some nxt)"
  by pat_completeness auto
termination by (relation "measure (\<lambda>(d, n, p). n - p)") auto

declare find_nal_end.simps [simp del]

lemma find_nal_end_ge: "find_nal_end data n p = Some q \<Longrightarrow> p \<le> q"
proof (induction data n p rule: find_nal_end.induct)
  case (1 data n p)
  then show ?case
    by (subst (asm) (2) find_nal_end.simps) (force simp: bind_eq_Some_conv split: if_splits)
qed

text \<open>What a NAL unit of a type does to the scan: the parameter sets seen and whether a picture was seen.\<close>

definition nal_step :: "bool \<Rightarrow> u8 \<Rightarrow> u32 \<Rightarrow> bool \<Rightarrow> wd_client_video_keyframe_result + u32 \<times> bool" where
  "nal_step hevc ty present random_access =
     (let required = (if hevc then 0x07 else 0x03) in
      if hevc then
        let present = (if ty = 32 then present OR 0x01 else present);
            present = (if ty = 33 then present OR 0x02 else present);
            present = (if ty = 34 then present OR 0x04 else present)
        in if ty \<le> 31 then
             (if present AND required \<noteq> required \<or> (ty < 16 \<or> ty > 21) then
                Inl (if present AND required \<noteq> required then WD_CLIENT_VIDEO_KEYFRAME_MISSING_PARAMETER_SETS
                     else WD_CLIENT_VIDEO_KEYFRAME_MISSING_RANDOM_ACCESS)
              else Inr (present, True))
           else Inr (present, random_access)
      else
        let present = (if ty = 7 then present OR 0x01 else present);
            present = (if ty = 8 then present OR 0x02 else present)
        in if ty = 1 \<or> ty = 5 then
             (if present AND required \<noteq> required \<or> ty \<noteq> 5 then
                Inl (if present AND required \<noteq> required then WD_CLIENT_VIDEO_KEYFRAME_MISSING_PARAMETER_SETS
                     else WD_CLIENT_VIDEO_KEYFRAME_MISSING_RANDOM_ACCESS)
              else Inr (present, True))
           else Inr (present, random_access))"

function annexb_scan ::
    "bool \<Rightarrow> bytes \<Rightarrow> nat \<Rightarrow> nat \<Rightarrow> u32 \<Rightarrow> bool \<Rightarrow> wd_client_video_keyframe_result option" where
  "annexb_scan hevc data n pos present random_access =
     (if pos < n then
        do { prefix \<leftarrow> wd_start_code_size data n pos;
             if prefix = 0 then
               do { b \<leftarrow> rd data pos;
                    if b \<noteq> 0 then Some WD_CLIENT_VIDEO_KEYFRAME_INVALID_BITSTREAM
                    else annexb_scan hevc data n (pos + 1) present random_access }
             else
               case find_nal_end data n (pos + prefix) of None \<Rightarrow> None
               | Some nxt \<Rightarrow>
                   let nal = pos + prefix in
                   if nxt - nal < (if hevc then 3 else 2) then Some WD_CLIENT_VIDEO_KEYFRAME_INVALID_BITSTREAM
                   else
                     do { b0 \<leftarrow> rd data nal;
                          b1 \<leftarrow> (if hevc then rd data (nal + 1) else Some 0);
                          if b0 AND 0x80 \<noteq> 0 \<or> hevc \<and> b1 AND 0x07 = 0
                          then Some WD_CLIENT_VIDEO_KEYFRAME_INVALID_BITSTREAM
                          else
                            (case nal_step hevc (if hevc then drop_bit 1 b0 AND 0x3f else b0 AND 0x1f) present random_access of
                               Inl r \<Rightarrow> Some r
                             | Inr (present, random_access) \<Rightarrow> annexb_scan hevc data n nxt present random_access) } }
      else
        let required = (if hevc then 0x07 else 0x03) in
        if present AND required \<noteq> required then Some WD_CLIENT_VIDEO_KEYFRAME_MISSING_PARAMETER_SETS
        else Some (if random_access then WD_CLIENT_VIDEO_KEYFRAME_VALID else WD_CLIENT_VIDEO_KEYFRAME_MISSING_RANDOM_ACCESS))"
  by pat_completeness auto
termination
  by (relation "measure (\<lambda>(h, d, n, p, _). n - p)") (auto dest!: find_nal_end_ge)

declare annexb_scan.simps [simp del]

section \<open>Key frames in AV1\<close>

text \<open>The size field of an OBU (open bitstream unit), seven bits per byte. An inner \<open>None\<close> is an invalid field.\<close>

function av1_leb128 :: "bytes \<Rightarrow> nat \<Rightarrow> nat \<Rightarrow> nat \<Rightarrow> u64 \<Rightarrow> (u64 \<times> nat) option option" where
  "av1_leb128 data n pos shift payload_size =
     (if pos \<ge> n \<or> shift \<ge> 64 then Some None
      else
        do { part \<leftarrow> rd data pos;
             let pos = pos + 1;
                 part_size = ucast (part AND 0x7f) :: u64
             in if part_size > drop_bit shift UINT64_MAX then Some None
                else
                  let payload_size = payload_size OR push_bit shift part_size
                  in if part AND 0x80 \<noteq> 0 then av1_leb128 data n pos (shift + 7) payload_size
                     else Some (Some (payload_size, pos)) })"
  by pat_completeness auto
termination by (relation "measure (\<lambda>(d, n, p, _). n - p)") auto

declare av1_leb128.simps [simp del]

text \<open>The optional extension byte of an OBU header: the position after it.\<close>

definition av1_extension :: "bytes \<Rightarrow> nat \<Rightarrow> u8 \<Rightarrow> nat \<Rightarrow> nat option option" where
  "av1_extension data n header pos =
     (if header AND 0x04 \<noteq> 0 then
        (if pos \<ge> n then Some None
         else case rd data pos of None \<Rightarrow> None | Some b \<Rightarrow> Some (if b AND 0x07 \<noteq> 0 then None else Some (pos + 1)))
      else Some (Some pos))"

text \<open>The payload of an OBU: its position and its size. Without a size field it is the rest of the packet.\<close>

definition av1_payload :: "bytes \<Rightarrow> nat \<Rightarrow> u8 \<Rightarrow> nat \<Rightarrow> (nat \<times> nat) option option" where
  "av1_payload data n header pos =
     (if header AND 0x02 \<noteq> 0 then
        (case av1_leb128 data n pos 0 0 of
           None \<Rightarrow> None
         | Some None \<Rightarrow> Some None
         | Some (Some (payload_size, pos)) \<Rightarrow>
             Some (if unat payload_size > n - pos then None else Some (pos, unat payload_size)))
      else Some (Some (pos, n - pos)))"

text \<open>The head of an OBU: its type, the position of its payload and the size of the payload.\<close>

definition av1_obu :: "bytes \<Rightarrow> nat \<Rightarrow> nat \<Rightarrow> (u8 \<times> nat \<times> nat) option option" where
  "av1_obu data n pos =
     (case rd data pos of None \<Rightarrow> None
      | Some header \<Rightarrow>
          if header AND 0x81 \<noteq> 0 \<or> drop_bit 3 header AND 0x0f = 0 then Some None
          else
            case av1_extension data n header (pos + 1) of
              None \<Rightarrow> None
            | Some None \<Rightarrow> Some None
            | Some (Some pos) \<Rightarrow>
                map_option (map_option (Pair (drop_bit 3 header AND 0x0f))) (av1_payload data n header pos))"

lemma av1_leb128_ge: "av1_leb128 data n p sh acc = Some (Some (v, q)) \<Longrightarrow> p < q \<and> q \<le> n"
proof (induction data n p sh acc rule: av1_leb128.induct)
  case (1 data n p sh acc)
  show ?case
  proof (cases "p \<ge> n \<or> sh \<ge> 64")
    case True
    then show ?thesis using "1.prems" by (simp add: av1_leb128.simps [of data n p])
  next
    case False
    from "1.prems" False obtain part where part: "rd data p = Some part"
      by (auto simp: av1_leb128.simps [of data n p] bind_eq_Some_conv)
    show ?thesis
    proof (cases "part AND 0x80 \<noteq> 0")
      case True
      with "1.prems" False part have ok: "\<not> (ucast (part AND 0x7f) :: u64) > drop_bit sh UINT64_MAX"
        and rec: "av1_leb128 data n (p + 1) (sh + 7) (acc OR push_bit sh (ucast (part AND 0x7f))) = Some (Some (v, q))"
        by (auto simp: av1_leb128.simps [of data n p] Let_def split: if_splits)
      from "1.IH" [OF False part refl refl ok refl True rec] show ?thesis by simp
    next
      case last: False
      with "1.prems" False part show ?thesis
        by (auto simp: av1_leb128.simps [of data n p] Let_def split: if_splits)
    qed
  qed
qed

lemma av1_extension_within: "\<lbrakk>av1_extension data n h p = Some (Some q); p \<le> n\<rbrakk> \<Longrightarrow> p \<le> q \<and> q \<le> n"
  by (auto simp: av1_extension_def split: if_splits option.splits)

lemma av1_payload_within: "\<lbrakk>av1_payload data n h p = Some (Some (q, k)); p \<le> n\<rbrakk> \<Longrightarrow> p \<le> q \<and> q + k \<le> n"
  by (auto simp: av1_payload_def split: if_splits option.splits dest!: av1_leb128_ge)

lemma av1_obu_within:
  assumes "av1_obu data n pos = Some (Some (ty, p, k))" "pos < n"
  shows "pos < p \<and> p + k \<le> n"
proof -
  from assms(1) obtain h q where
    q: "av1_extension data n h (pos + 1) = Some (Some q)" "av1_payload data n h q = Some (Some (p, k))"
    by (auto simp: av1_obu_def split: if_splits option.splits)
  show ?thesis using av1_extension_within [OF q(1)] av1_payload_within [OF q(2)] assms(2) by simp
qed

function av1_scan ::
    "bytes \<Rightarrow> nat \<Rightarrow> nat \<Rightarrow> bool \<Rightarrow> bool \<Rightarrow> bool \<Rightarrow> wd_client_video_keyframe_result option" where
  "av1_scan data n pos sequence key_header picture =
     (if pos < n then
        (case av1_obu data n pos of
           None \<Rightarrow> None
         | Some None \<Rightarrow> Some WD_CLIENT_VIDEO_KEYFRAME_INVALID_BITSTREAM
         | Some (Some (ty, p, payload_size)) \<Rightarrow>
             if ty = 1 then
               (if payload_size = 0 then Some WD_CLIENT_VIDEO_KEYFRAME_INVALID_BITSTREAM
                else av1_scan data n (p + payload_size) True key_header picture)
             else if ty = 3 \<or> ty = 6 then
               (if payload_size = 0 then Some WD_CLIENT_VIDEO_KEYFRAME_INVALID_BITSTREAM
                else if \<not> sequence then Some WD_CLIENT_VIDEO_KEYFRAME_MISSING_PARAMETER_SETS
                else
                  (case rd data p of None \<Rightarrow> None
                   | Some b \<Rightarrow>
                       if b AND 0xe0 \<noteq> 0 then Some WD_CLIENT_VIDEO_KEYFRAME_MISSING_RANDOM_ACCESS
                       else av1_scan data n (p + payload_size) sequence True (if ty = 6 then True else picture)))
             else if ty = 4 \<and> key_header then
               av1_scan data n (p + payload_size) sequence key_header (payload_size \<noteq> 0)
             else av1_scan data n (p + payload_size) sequence key_header picture)
      else if \<not> sequence then Some WD_CLIENT_VIDEO_KEYFRAME_MISSING_PARAMETER_SETS
      else Some (if key_header \<and> picture then WD_CLIENT_VIDEO_KEYFRAME_VALID else WD_CLIENT_VIDEO_KEYFRAME_MISSING_RANDOM_ACCESS))"
  by pat_completeness auto
termination
  by (relation "measure (\<lambda>(d, n, p, _). n - p)") (auto dest!: av1_obu_within)

declare av1_scan.simps [simp del]

definition wd_av1_keyframe_validate :: "bytes \<Rightarrow> nat \<Rightarrow> wd_client_video_keyframe_result option" where
  "wd_av1_keyframe_validate data n = av1_scan data n 0 False False False"

definition wd_client_video_keyframe_validate :: "u32 \<Rightarrow> bytes option \<Rightarrow> u32 \<Rightarrow> wd_client_video_keyframe_result option" where
  "wd_client_video_keyframe_validate codec data n =
     (case data of None \<Rightarrow> Some WD_CLIENT_VIDEO_KEYFRAME_INVALID_BITSTREAM
      | Some bs \<Rightarrow>
          if n = 0 \<or> codec \<noteq> WD_VIDEO_CODEC_H264 \<and> codec \<noteq> WD_VIDEO_CODEC_H265 \<and> codec \<noteq> WD_VIDEO_CODEC_AV1
          then Some WD_CLIENT_VIDEO_KEYFRAME_INVALID_BITSTREAM
          else if codec = WD_VIDEO_CODEC_AV1 then wd_av1_keyframe_validate bs (unat n)
          else annexb_scan (codec = WD_VIDEO_CODEC_H265) bs (unat n) 0 0 False)"

fun wd_client_video_keyframe_result_name :: "wd_client_video_keyframe_result \<Rightarrow> string" where
  "wd_client_video_keyframe_result_name WD_CLIENT_VIDEO_KEYFRAME_VALID = ''valid''"
| "wd_client_video_keyframe_result_name WD_CLIENT_VIDEO_KEYFRAME_INVALID_BITSTREAM = ''invalid or truncated codec bitstream''"
| "wd_client_video_keyframe_result_name WD_CLIENT_VIDEO_KEYFRAME_MISSING_PARAMETER_SETS = ''missing codec parameter sets''"
| "wd_client_video_keyframe_result_name WD_CLIENT_VIDEO_KEYFRAME_MISSING_RANDOM_ACCESS = ''missing random-access picture''"

section \<open>Repair of the first start code\<close>

definition wd_hevc_nal_header :: "bytes \<Rightarrow> nat \<Rightarrow> bool option" where
  "wd_hevc_nal_header bs available =
     (if available < 2 then Some False
      else do { b0 \<leftarrow> rd bs 0; b1 \<leftarrow> rd bs 1;
                if b0 AND 0x81 \<noteq> 0 \<or> b1 AND 0xf8 \<noteq> 0 \<or> b1 AND 0x07 = 0 then Some False
                else Some (drop_bit 1 b0 AND 0x3f \<le> 40) })"

text \<open>\<open>matches bs xs\<close>: the comparison of the bytes at a pointer with constants, from left to right.\<close>

fun matches :: "bytes \<Rightarrow> nat \<Rightarrow> bytes \<Rightarrow> bool option" where
  "matches bs i [] = Some True"
| "matches bs i (x # xs) = do { b \<leftarrow> rd bs i; if b \<noteq> x then Some False else matches bs (i + 1) xs }"

definition wd_escaped_prefix_length :: "bytes \<Rightarrow> nat \<Rightarrow> nat option" where
  "wd_escaped_prefix_length data len =
     do { five \<leftarrow> (if len \<ge> 7 then
                    do { m \<leftarrow> matches data 0 [0, 0, 3, 0, 1];
                         if m then wd_hevc_nal_header (drop 5 data) (len - 5) else Some False }
                  else Some False);
          if five then Some 5
          else
            do { four \<leftarrow> (if len \<ge> 6 then
                           do { m \<leftarrow> matches data 0 [0, 0, 3, 1];
                                if m then wd_hevc_nal_header (drop 4 data) (len - 4) else Some False }
                         else Some False);
                 Some (if four then 4 else 0) } }"

text \<open>The loop over the rest of the packet: is there a second candidate?\<close>

function second_candidate :: "bytes \<Rightarrow> nat \<Rightarrow> nat \<Rightarrow> bool option" where
  "second_candidate data original pos =
     (if pos < original then
        do { k \<leftarrow> wd_escaped_prefix_length (drop pos data) (original - pos);
             if k \<noteq> 0 then Some True else second_candidate data original (pos + 1) }
      else Some False)"
  by pat_completeness auto
termination by (relation "measure (\<lambda>(d, n, p). n - p)") auto

declare second_candidate.simps [simp del]

text \<open>The result, the packet and its size after the call.\<close>

definition wd_hevc_annexb_repair_vaapi :: "bytes option \<Rightarrow> nat \<Rightarrow> (int \<times> bytes option \<times> nat) option" where
  "wd_hevc_annexb_repair_vaapi data n =
     (case data of None \<Rightarrow> Some (-1, None, n)
      | Some bs \<Rightarrow>
          if n < 6 then Some (-1, data, n)
          else
            do { z \<leftarrow> matches bs 0 [0, 0]; b2 \<leftarrow> rd bs 2; b3 \<leftarrow> rd bs 3;
                 if z \<and> (b2 = 1 \<or> n \<ge> 4 \<and> b2 = 0 \<and> b3 = 1) then Some (0, data, n)
                 else
                   do { escaped \<leftarrow> wd_escaped_prefix_length bs n;
                        if escaped = 0 then Some (-1, data, n)
                        else
                          do { again \<leftarrow> second_candidate bs n escaped;
                               if again then Some (-1, data, n)
                               else
                                 let repaired_prefix = escaped - 1 in
                                 do { bs \<leftarrow> wr_range bs 0 (if repaired_prefix = 4 then [0, 0, 0, 1] else [0, 0, 1]);
                                      rest \<leftarrow> rd_range bs escaped (n - escaped);
                                      bs \<leftarrow> wr_range bs repaired_prefix rest;
                                      Some (1, Some bs, n - 1) } } } })"

section \<open>A reference for the Annex B scan\<close>

text \<open>The packet as a list of NAL units: zero bytes, then start codes, each with the bytes up to the next.\<close>

fun nal_length :: "bytes \<Rightarrow> nat" where
  "nal_length [] = 0"
| "nal_length (b # bs) = (if start_code (b # bs) = 0 then Suc (nal_length bs) else 0)"

function nal_units :: "bytes \<Rightarrow> bytes list option" where
  "nal_units bs =
     (if bs = [] then Some []
      else if start_code bs = 0 then (if hd bs = 0 then nal_units (tl bs) else None)
      else
        let body = drop (start_code bs) bs
        in map_option ((#) (take (nal_length body) body)) (nal_units (drop (nal_length body) body)))"
  by pat_completeness auto
termination by (relation "measure length") auto

declare nal_units.simps [simp del]

lemma nal_units_Nil [simp]: "nal_units [] = Some []"
  by (simp add: nal_units.simps)

lemma nal_length_le: "nal_length bs \<le> length bs"
  by (induction bs rule: nal_length.induct) auto

lemma after_nal: "drop (nal_length bs) bs = [] \<or> start_code (drop (nal_length bs) bs) \<noteq> 0"
  by (induction bs rule: nal_length.induct) (auto simp del: start_code.simps)

lemma nal_units_at_boundary: "bs = [] \<or> start_code bs \<noteq> 0 \<Longrightarrow> nal_units bs \<noteq> None"
proof (induction bs rule: nal_units.induct)
  case (1 bs)
  show ?case
  proof (cases "bs = []")
    case False
    then have "start_code bs \<noteq> 0" using "1.prems" by simp
    with False 1(2) [OF False _ refl after_nal] show ?thesis
      by (simp add: nal_units.simps [of bs] Let_def del: start_code.simps drop_drop)
  qed simp
qed

lemma find_nal_end_eq:
  "\<lbrakk>p \<le> n; n \<le> length data\<rbrakk> \<Longrightarrow> find_nal_end data n p = Some (p + nal_length (drop p (take n data)))"
proof (induction data n p rule: find_nal_end.induct)
  case (1 data n p)
  show ?case
  proof (cases "p < n")
    case True
    then have d: "drop p (take n data) = data ! p # drop (p + 1) (take n data)"
      using "1.prems" by (simp add: Cons_nth_drop_Suc [symmetric])
    have sc: "wd_start_code_size data n p = Some (start_code (drop p (take n data)))"
      using True "1.prems" by (intro start_code_size_eq) auto
    show ?thesis
    proof (cases "start_code (drop p (take n data)) = 0")
      case zero: True
      have "find_nal_end data n (p + 1) = Some (p + 1 + nal_length (drop (p + 1) (take n data)))"
        using "1.IH" [OF True sc zero] True "1.prems" by simp
      then show ?thesis using True sc zero
        by (subst find_nal_end.simps) (simp add: d del: start_code.simps)
    next
      case False
      then show ?thesis using True sc
        by (subst find_nal_end.simps) (simp add: d del: start_code.simps)
    qed
  qed (use "1.prems" in \<open>subst find_nal_end.simps, simp\<close>)
qed

definition nal_type :: "bool \<Rightarrow> bytes \<Rightarrow> u8" where
  "nal_type hevc u = (if hevc then drop_bit 1 (hd u) AND 0x3f else hd u AND 0x1f)"

definition nal_wf :: "bool \<Rightarrow> bytes \<Rightarrow> bool" where
  "nal_wf hevc u \<longleftrightarrow> (if hevc then 3 else 2) \<le> length u \<and> hd u AND 0x80 = 0 \<and> (hevc \<longrightarrow> u ! 1 AND 0x07 \<noteq> 0)"

fun nal_run :: "bool \<Rightarrow> bytes list \<Rightarrow> u32 \<Rightarrow> bool \<Rightarrow> wd_client_video_keyframe_result" where
  "nal_run hevc [] present random_access =
     (if present AND (if hevc then 0x07 else 0x03) \<noteq> (if hevc then 0x07 else 0x03)
      then WD_CLIENT_VIDEO_KEYFRAME_MISSING_PARAMETER_SETS
      else if random_access then WD_CLIENT_VIDEO_KEYFRAME_VALID else WD_CLIENT_VIDEO_KEYFRAME_MISSING_RANDOM_ACCESS)"
| "nal_run hevc (u # us) present random_access =
     (if \<not> nal_wf hevc u then WD_CLIENT_VIDEO_KEYFRAME_INVALID_BITSTREAM
      else case nal_step hevc (nal_type hevc u) present random_access of
             Inl r \<Rightarrow> r | Inr (present, random_access) \<Rightarrow> nal_run hevc us present random_access)"

lemma annexb_scan_eq:
  "\<lbrakk>pos \<le> n; n \<le> length data\<rbrakk> \<Longrightarrow>
   annexb_scan hevc data n pos present ra =
     Some (case nal_units (drop pos (take n data)) of None \<Rightarrow> WD_CLIENT_VIDEO_KEYFRAME_INVALID_BITSTREAM
           | Some us \<Rightarrow> nal_run hevc us present ra)"
proof (induction hevc data n pos present ra rule: annexb_scan.induct)
  case (1 hevc data n pos present ra)
  let ?d = "drop pos (take n data)"
  show ?case
  proof (cases "pos < n")
    case False
    then have "?d = []" using "1.prems" by simp
    then show ?thesis using False by (simp add: annexb_scan.simps [of hevc data n pos] nal_units.simps [of "[]"])
  next
    case True
    then have ne: "?d \<noteq> []" and hd: "hd ?d = data ! pos" and tl: "tl ?d = drop (pos + 1) (take n data)"
      using "1.prems" by (simp_all add: hd_drop_conv_nth tl_drop drop_Suc)
    have sc: "wd_start_code_size data n pos = Some (start_code ?d)"
      using True "1.prems" by (intro start_code_size_eq) auto
    show ?thesis
    proof (cases "start_code ?d = 0")
      case zero: True
      show ?thesis
      proof (cases "data ! pos = 0")
        case b: True
        have "annexb_scan hevc data n (pos + 1) present ra =
           Some (case nal_units (tl ?d) of None \<Rightarrow> WD_CLIENT_VIDEO_KEYFRAME_INVALID_BITSTREAM | Some us \<Rightarrow> nal_run hevc us present ra)"
          unfolding tl using "1.IH"(1) [OF True sc zero] True "1.prems" b by simp
        then show ?thesis using True sc zero b ne hd "1.prems"
          by (simp add: annexb_scan.simps [of hevc data n pos] nal_units.simps [of ?d] del: start_code.simps)
      next
        case False
        then show ?thesis using True sc zero ne hd "1.prems"
          by (simp add: annexb_scan.simps [of hevc data n pos] nal_units.simps [of ?d] del: start_code.simps)
      qed
    next
      case code: False
      let ?k = "start_code ?d"
      let ?nal = "pos + ?k"
      let ?body = "drop ?k ?d"
      let ?e = "?nal + nal_length ?body"
      have k: "?nal \<le> n" using start_code_le [of ?d] True "1.prems" by simp
      have body: "?body = drop ?nal (take n data)" by (simp add: add.commute)
      have fe: "find_nal_end data n ?nal = Some ?e"
        using find_nal_end_eq [OF k "1.prems"(2)] unfolding body .
      have len: "?e \<le> n" using nal_length_le [of ?body] k "1.prems"(2) by (simp add: body)
      let ?u = "take (nal_length ?body) ?body"
      have rest: "drop ?e (take n data) = drop (nal_length ?body) ?body" by (simp add: add.commute add.left_commute)
      obtain us where us: "nal_units (drop (nal_length ?body) ?body) = Some us"
        using nal_units_at_boundary [OF after_nal [of ?body]] by auto
      have units: "nal_units ?d = Some (?u # us)"
        using ne code us by (simp add: nal_units.simps [of ?d] Let_def del: start_code.simps drop_drop)
      have u: "length ?u = nal_length ?body" using nal_length_le [of ?body] by simp
      have at: "?u ! i = data ! (?nal + i)" if "i < nal_length ?body" for i
        using that len "1.prems"(2) by (simp add: body add.commute)
      have gap: "?e - ?nal = nal_length ?body" by simp
      show ?thesis
      proof (cases "nal_length ?body < (if hevc then 3 else 2)")
        case True
        then have "\<not> nal_wf hevc ?u" using u by (auto simp: nal_wf_def)
        then show ?thesis using \<open>pos < n\<close> sc code fe True units
          by (simp add: annexb_scan.simps [of hevc data n pos] Let_def gap del: start_code.simps drop_drop)
      next
        case False
        have b0: "hd ?u = data ! ?nal" using at [of 0] False u by (simp add: hd_conv_nth split: if_splits)
        have b1: "hevc \<Longrightarrow> ?u ! 1 = data ! (?nal + 1)" using at [of 1] False by simp
        have wf: "nal_wf hevc ?u \<longleftrightarrow> data ! ?nal AND 0x80 = 0 \<and> (hevc \<longrightarrow> data ! (?nal + 1) AND 0x07 \<noteq> 0)"
          using False u b0 b1 by (auto simp: nal_wf_def)
        have ty: "nal_type hevc ?u = (if hevc then drop_bit 1 (data ! ?nal) AND 0x3f else data ! ?nal AND 0x1f)"
          using b0 by (simp add: nal_type_def)
        have rd: "rd data ?nal = Some (data ! ?nal)" "hevc \<Longrightarrow> rd data (?nal + 1) = Some (data ! (?nal + 1))"
          using False len "1.prems"(2) by (auto split: if_splits)
        define ty where "ty = (if hevc then drop_bit 1 (data ! ?nal) AND 0x3f else data ! ?nal AND 0x1f)"
        have step: "annexb_scan hevc data n pos present ra =
           (if \<not> nal_wf hevc ?u then Some WD_CLIENT_VIDEO_KEYFRAME_INVALID_BITSTREAM
            else case nal_step hevc ty present ra of Inl r \<Rightarrow> Some r
              | Inr (p', ra') \<Rightarrow> annexb_scan hevc data n ?e p' ra')"
          unfolding wf
          using \<open>pos < n\<close> sc code fe False rd
          by (subst annexb_scan.simps) (simp add: Let_def gap ty_def del: start_code.simps drop_drop)
        show ?thesis
        proof (cases "nal_wf hevc ?u")
          case bad: False
          then show ?thesis using step units by simp
        next
          case ok: True
          show ?thesis
          proof (cases "nal_step hevc ty present ra")
            case (Inl r)
            then show ?thesis using step ok units ty by (simp add: ty_def)
          next
            case (Inr x)
            obtain p' ra' where x: "x = (p', ra')" by force
            have "annexb_scan hevc data n ?e p' ra' =
               Some (case nal_units (drop ?e (take n data)) of None \<Rightarrow> WD_CLIENT_VIDEO_KEYFRAME_INVALID_BITSTREAM
                 | Some us \<Rightarrow> nal_run hevc us p' ra')"
            proof (rule "1.IH"(2) [OF \<open>pos < n\<close> sc code fe refl _ rd(1)])
              show "\<not> ?e - ?nal < (if hevc then 3 else 2)" using False unfolding gap .
              show "(if hevc then rd data (?nal + 1) else Some 0) = Some (if hevc then data ! (?nal + 1) else 0)"
                using rd(2) by simp
              show "\<not> (data ! ?nal AND 128 \<noteq> 0 \<or> hevc \<and> (if hevc then data ! (?nal + 1) else 0) AND 7 = 0)"
                using ok wf by simp
              show "nal_step hevc (if hevc then drop_bit 1 (data ! ?nal) AND 63 else data ! ?nal AND 31) present ra = Inr x"
                using Inr by (simp add: ty_def)
            qed (use x len "1.prems" in simp_all)
            then show ?thesis unfolding rest us using step ok Inr x units ty by (simp add: ty_def)
          qed
        qed
      qed
    qed
  qed
qed

text \<open>Parameter sets and pictures. The bits of the scan are the set of the types seen.\<close>

definition parameter_sets :: "bool \<Rightarrow> u8 set" where
  "parameter_sets hevc = (if hevc then {32, 33, 34} else {7, 8})"

definition is_picture :: "bool \<Rightarrow> u8 \<Rightarrow> bool" where
  "is_picture hevc ty \<longleftrightarrow> (if hevc then ty \<le> 31 else ty = 1 \<or> ty = 5)"

definition is_random_access :: "bool \<Rightarrow> u8 \<Rightarrow> bool" where
  "is_random_access hevc ty \<longleftrightarrow> (if hevc then 16 \<le> ty \<and> ty \<le> 21 else ty = 5)"

definition seen_bits :: "bool \<Rightarrow> u8 set \<Rightarrow> u32" where
  "seen_bits hevc S =
     (if hevc then (if 32 \<in> S then 1 else 0) OR (if 33 \<in> S then 2 else 0) OR (if 34 \<in> S then 4 else 0)
      else (if 7 \<in> S then 1 else 0) OR (if 8 \<in> S then 2 else 0))"

lemma seen_bits_full:
  "seen_bits hevc S AND (if hevc then 0x07 else 0x03) = (if hevc then 0x07 else 0x03) \<longleftrightarrow> parameter_sets hevc \<subseteq> S"
  by (cases hevc) (auto simp: seen_bits_def parameter_sets_def)

lemma seen_bits_insert:
  "seen_bits True (insert ty S) =
     (let p = seen_bits True S; p = (if ty = 32 then p OR 1 else p); p = (if ty = 33 then p OR 2 else p)
      in if ty = 34 then p OR 4 else p)"
  "seen_bits False (insert ty S) =
     (let p = seen_bits False S; p = (if ty = 7 then p OR 1 else p) in if ty = 8 then p OR 2 else p)"
  by (auto simp: seen_bits_def Let_def)

lemma nal_step_spec:
  "nal_step hevc ty (seen_bits hevc S) ra =
     (if is_picture hevc ty then
        (if \<not> parameter_sets hevc \<subseteq> S then Inl WD_CLIENT_VIDEO_KEYFRAME_MISSING_PARAMETER_SETS
         else if \<not> is_random_access hevc ty then Inl WD_CLIENT_VIDEO_KEYFRAME_MISSING_RANDOM_ACCESS
         else Inr (seen_bits hevc (insert ty S), True))
      else Inr (seen_bits hevc (insert ty S), ra))"
proof -
  have np: "is_picture hevc ty \<Longrightarrow> ty \<notin> parameter_sets hevc"
    by (auto simp: is_picture_def parameter_sets_def split: if_splits)
  have sub: "is_picture hevc ty \<Longrightarrow> parameter_sets hevc \<subseteq> insert ty S \<longleftrightarrow> parameter_sets hevc \<subseteq> S" using np by auto
  show ?thesis
  proof (cases hevc)
    case True
    have "nal_step True ty (seen_bits True S) ra =
       (let p = seen_bits True (insert ty S) in
        if ty \<le> 31 then
          (if p AND 0x07 \<noteq> 0x07 \<or> (ty < 16 \<or> ty > 21) then
             Inl (if p AND 0x07 \<noteq> 0x07 then WD_CLIENT_VIDEO_KEYFRAME_MISSING_PARAMETER_SETS
                  else WD_CLIENT_VIDEO_KEYFRAME_MISSING_RANDOM_ACCESS)
           else Inr (p, True))
        else Inr (p, ra))"
      unfolding nal_step_def seen_bits_insert Let_def if_True ..
    then show ?thesis using True sub seen_bits_full [of True "insert ty S"]
      by (auto simp: is_picture_def is_random_access_def not_less Let_def)
  next
    case False
    have "nal_step False ty (seen_bits False S) ra =
       (let p = seen_bits False (insert ty S) in
        if ty = 1 \<or> ty = 5 then
          (if p AND 0x03 \<noteq> 0x03 \<or> ty \<noteq> 5 then
             Inl (if p AND 0x03 \<noteq> 0x03 then WD_CLIENT_VIDEO_KEYFRAME_MISSING_PARAMETER_SETS
                  else WD_CLIENT_VIDEO_KEYFRAME_MISSING_RANDOM_ACCESS)
           else Inr (p, True))
        else Inr (p, ra))"
      unfolding nal_step_def seen_bits_insert Let_def if_False ..
    then show ?thesis using False sub seen_bits_full [of False "insert ty S"]
      by (auto simp: is_picture_def is_random_access_def Let_def)
  qed
qed

text \<open>A self-contained access unit: well-formed units, at least one picture, every picture a random-access one after all parameter sets.\<close>

definition self_contained :: "bool \<Rightarrow> bytes list \<Rightarrow> bool" where
  "self_contained hevc us \<longleftrightarrow>
     list_all (nal_wf hevc) us \<and> (\<exists>u\<in>set us. is_picture hevc (nal_type hevc u)) \<and>
     (\<forall>i<length us. is_picture hevc (nal_type hevc (us ! i)) \<longrightarrow>
        is_random_access hevc (nal_type hevc (us ! i)) \<and> parameter_sets hevc \<subseteq> nal_type hevc ` set (take i us))"

lemma nal_run_valid:
  "nal_run hevc us (seen_bits hevc S) ra = WD_CLIENT_VIDEO_KEYFRAME_VALID \<longleftrightarrow>
     list_all (nal_wf hevc) us \<and> (ra \<or> (\<exists>u\<in>set us. is_picture hevc (nal_type hevc u)))
     \<and> parameter_sets hevc \<subseteq> S \<union> nal_type hevc ` set us
     \<and> (\<forall>i<length us. is_picture hevc (nal_type hevc (us ! i)) \<longrightarrow>
        is_random_access hevc (nal_type hevc (us ! i)) \<and> parameter_sets hevc \<subseteq> S \<union> nal_type hevc ` set (take i us))"
proof (induction us arbitrary: S ra)
  case Nil
  show ?case using seen_bits_full [of hevc S] by auto
next
  case (Cons u us)
  let ?t = "nal_type hevc u"
  have all: "(\<forall>i<length (u # us). P i) \<longleftrightarrow> P 0 \<and> (\<forall>i<length us. P (Suc i))" for P
    by (auto simp: less_Suc_eq_0_disj)
  show ?case
    using Cons.IH [of "insert ?t S"] unfolding all nal_run.simps nal_step_spec by auto
qed

lemma nal_run_self_contained:
  "nal_run hevc us 0 False = WD_CLIENT_VIDEO_KEYFRAME_VALID \<longleftrightarrow> self_contained hevc us"
proof -
  have "seen_bits hevc {} = 0" by (simp add: seen_bits_def)
  moreover have "parameter_sets hevc \<subseteq> nal_type hevc ` set us"
    if "self_contained hevc us"
  proof -
    from that obtain i where i: "i < length us" "is_picture hevc (nal_type hevc (us ! i))"
      by (auto simp: self_contained_def in_set_conv_nth)
    with that have "parameter_sets hevc \<subseteq> nal_type hevc ` set (take i us)" by (auto simp: self_contained_def)
    then show ?thesis using set_take_subset [of i us] by blast
  qed
  ultimately show ?thesis using nal_run_valid [of hevc us "{}" False] by (auto simp: self_contained_def)
qed

section \<open>The AV1 scan stays inside the packet\<close>

lemma av1_leb128_total: "n \<le> length data \<Longrightarrow> av1_leb128 data n p sh acc \<noteq> None"
proof (induction data n p sh acc rule: av1_leb128.induct)
  case (1 data n p sh acc)
  then show ?case by (subst av1_leb128.simps) (auto simp: Let_def)
qed

lemma av1_payload_total: "n \<le> length data \<Longrightarrow> av1_payload data n h p \<noteq> None"
  using av1_leb128_total [of n data p 0 0] by (auto simp: av1_payload_def split: option.splits)

lemma av1_obu_total:
  assumes "pos < n" "n \<le> length data"
  shows "av1_obu data n pos \<noteq> None"
proof -
  have "av1_extension data n (data ! pos) (pos + 1) \<noteq> None" using assms by (auto simp: av1_extension_def)
  then show ?thesis using av1_payload_total [OF assms(2)] assms
    by (auto simp: av1_obu_def split: option.splits)
qed

lemma av1_scan_total: "n \<le> length data \<Longrightarrow> av1_scan data n pos sq kh pic \<noteq> None"
proof (induction data n pos sq kh pic rule: av1_scan.induct)
  case (1 data n pos sq kh pic)
  show ?case
  proof (cases "pos < n")
    case True
    with "1.prems" obtain o1 where o1: "av1_obu data n pos = Some o1" using av1_obu_total by blast
    show ?thesis
    proof (cases o1)
      case None
      then show ?thesis using True o1 by (simp add: av1_scan.simps [of data n pos])
    next
      case (Some o2)
      obtain ty p k where o2: "o2 = (ty, p, k)" by (cases o2) auto
      have "p + k \<le> n" using av1_obu_within o1 Some o2 True by blast
      then have rd: "k \<noteq> 0 \<Longrightarrow> rd data p = Some (data ! p)" using "1.prems" by simp
      show ?thesis using 1 True o1 Some o2 rd
        by (subst av1_scan.simps) (simp split del: if_split, auto)
    qed
  qed (simp add: av1_scan.simps [of data n pos])
qed

section \<open>The repair\<close>

lemma matches_eq:
  "i + length xs \<le> length bs \<Longrightarrow> matches bs i xs = Some (take (length xs) (drop i bs) = xs)"
proof (induction xs arbitrary: i)
  case (Cons x xs)
  have "drop i bs = bs ! i # drop (i + 1) bs" using Cons.prems by (simp add: Cons_nth_drop_Suc [symmetric])
  then show ?case using Cons.IH [of "i + 1"] Cons.prems by simp
qed simp

declare matches.simps [simp del]

lemma nal_header_total:
  assumes "available \<le> length bs"
  shows "\<exists>r. wd_hevc_nal_header bs available = Some r"
proof (cases "available < 2")
  case False
  then have "bs \<noteq> []" "1 < length bs" using assms by auto
  then show ?thesis using False by (auto simp: wd_hevc_nal_header_def)
qed (auto simp: wd_hevc_nal_header_def)

lemma escaped_prefix:
  assumes "len \<le> length data"
  shows "\<exists>k. wd_escaped_prefix_length data len = Some k \<and>
           (k = 0 \<or> k = 5 \<and> 7 \<le> len \<and> take 5 data = [0, 0, 3, 0, 1] \<or> k = 4 \<and> 6 \<le> len \<and> take 4 data = [0, 0, 3, 1])"
proof -
  have h: "\<exists>r. wd_hevc_nal_header (drop k data) (len - k) = Some r" for k
    using assms by (intro nal_header_total) simp
  have m5: "7 \<le> len \<Longrightarrow> matches data 0 [0, 0, 3, 0, 1] = Some (take 5 data = [0, 0, 3, 0, 1])"
    using matches_eq [of 0 "[0, 0, 3, 0, 1]" data] assms by (simp add: numeral_eq_Suc)
  have m4: "6 \<le> len \<Longrightarrow> matches data 0 [0, 0, 3, 1] = Some (take 4 data = [0, 0, 3, 1])"
    using matches_eq [of 0 "[0, 0, 3, 1]" data] assms by (simp add: numeral_eq_Suc)
  have five: "\<exists>r. (if len \<ge> 7 then do { m \<leftarrow> matches data 0 [0, 0, 3, 0, 1];
        if m then wd_hevc_nal_header (drop 5 data) (len - 5) else Some False } else Some False) = Some r \<and>
      (r \<longrightarrow> 7 \<le> len \<and> take 5 data = [0, 0, 3, 0, 1])"
    using h [of 5] m5 by (cases "take 5 data = [0, 0, 3, 0, 1]") auto
  have four: "\<exists>r. (if len \<ge> 6 then do { m \<leftarrow> matches data 0 [0, 0, 3, 1];
        if m then wd_hevc_nal_header (drop 4 data) (len - 4) else Some False } else Some False) = Some r \<and>
      (r \<longrightarrow> 6 \<le> len \<and> take 4 data = [0, 0, 3, 1])"
    using h [of 4] m4 by (cases "take 4 data = [0, 0, 3, 1]") auto
  from five obtain r5 where r5: "(if len \<ge> 7 then do { m \<leftarrow> matches data 0 [0, 0, 3, 0, 1];
        if m then wd_hevc_nal_header (drop 5 data) (len - 5) else Some False } else Some False) = Some r5"
      "r5 \<longrightarrow> 7 \<le> len \<and> take 5 data = [0, 0, 3, 0, 1]" by blast
  from four obtain r4 where r4: "(if len \<ge> 6 then do { m \<leftarrow> matches data 0 [0, 0, 3, 1];
        if m then wd_hevc_nal_header (drop 4 data) (len - 4) else Some False } else Some False) = Some r4"
      "r4 \<longrightarrow> 6 \<le> len \<and> take 4 data = [0, 0, 3, 1]" by blast
  have "wd_escaped_prefix_length data len = Some (if r5 then 5 else if r4 then 4 else 0)"
    unfolding wd_escaped_prefix_length_def r5(1) r4(1) by simp
  with r5(2) r4(2) show ?thesis by auto
qed

lemma second_candidate_total: "original \<le> length data \<Longrightarrow> \<exists>r. second_candidate data original pos = Some r"
proof (induction data original pos rule: second_candidate.induct)
  case (1 data original pos)
  have "original - pos \<le> length (drop pos data)" using "1.prems" by simp
  from escaped_prefix [OF this] 1 show ?case
    by (subst second_candidate.simps) auto
qed

lemma four_bytes: "4 \<le> length bs \<Longrightarrow> \<exists>a b c d e. bs = a # b # c # d # e"
  by (auto simp: numeral_eq_Suc Suc_le_length_iff)

section \<open>Properties\<close>

text \<open>
  C36: The key-frame validator of the client never reads outside the packet and always
  terminates with a result, for every codec value and every packet, however malformed.
\<close>

theorem keyframe_validate_total:
  assumes "unat n \<le> length data"
  shows "\<exists>r. wd_client_video_keyframe_validate codec (Some data) n = Some r"
  using av1_scan_total [OF assms, of 0 False False False] annexb_scan_eq [OF _ assms, of 0]
  by (auto simp: wd_client_video_keyframe_validate_def wd_av1_keyframe_validate_def)

theorem keyframe_validate_total_witness:
  "\<exists>r. wd_client_video_keyframe_validate 4 (Some [0x0a, 0x8f, 0xff, 0x01, 7]) 5 = Some r"
  by (rule keyframe_validate_total) simp

text \<open>
  C13: An H.264 or HEVC packet is accepted as a recovery key frame exactly if it is a sequence
  of Annex B NAL units, after zero bytes at most, that form a self-contained access unit: each
  unit has a well-formed header, there is a picture, and every picture is a random-access
  picture that comes after all the parameter sets its codec needs.
\<close>

theorem annexb_keyframe_valid_iff:
  assumes "codec = WD_VIDEO_CODEC_H264 \<or> codec = WD_VIDEO_CODEC_H265" "unat n \<le> length data"
  shows "wd_client_video_keyframe_validate codec (Some data) n = Some WD_CLIENT_VIDEO_KEYFRAME_VALID \<longleftrightarrow>
    (\<exists>us. nal_units (take (unat n) data) = Some us \<and> self_contained (codec = WD_VIDEO_CODEC_H265) us)"
proof (cases "n = 0")
  case True
  then show ?thesis by (simp add: wd_client_video_keyframe_validate_def self_contained_def)
next
  case False
  then have "wd_client_video_keyframe_validate codec (Some data) n =
      annexb_scan (codec = WD_VIDEO_CODEC_H265) data (unat n) 0 0 False"
    using assms(1) by (auto simp: wd_client_video_keyframe_validate_def)
  then show ?thesis using annexb_scan_eq [OF _ assms(2), of 0] nal_run_self_contained
    by (auto split: option.splits)
qed

theorem annexb_keyframe_valid_iff_witness:
  "wd_client_video_keyframe_validate 2
     (Some [0, 0, 0, 1, 0x67, 9, 0, 0, 1, 0x68, 9, 0, 0, 1, 0x65, 9, 77]) 16 = Some WD_CLIENT_VIDEO_KEYFRAME_VALID \<and>
   (\<exists>us. nal_units (take 16 [0, 0, 0, 1, 0x67, 9, 0, 0, 1, 0x68, 9, 0, 0, 1, 0x65, 9, 77]) = Some us \<and> self_contained False us)"
proof -
  let ?d = "[0, 0, 0, 1, 0x67, 9, 0, 0, 1, 0x68, 9, 0, 0, 1, 0x65, 9, 77] :: bytes"
  have "wd_client_video_keyframe_validate 2 (Some ?d) 16 = Some WD_CLIENT_VIDEO_KEYFRAME_VALID" by code_simp
  with annexb_keyframe_valid_iff [of 2 16 ?d] show ?thesis by simp
qed



end
