(* ===== verification/WD_Buffer.thy ===== *)
theory WD_Buffer
  imports WD_Prelude "HOL-Library.Multiset" "HOL-Library.Monad_Syntax"
begin

text \<open>
  Shared byte buffers with atomic reference counts (\<open>src/src/common/wd_buffer.c\<close>).

  A heap maps buffer addresses to buffers; a freed buffer has no entry, and an operation on it
  gives \<open>None\<close> (an access to freed memory). \<open>size_t\<close> is a natural number with the bound
  \<open>SIZE_MAX\<close> written out. The release callback of a wrapped buffer is an identifier, and the heap
  records the calls. After the sequential operations, \<open>buffer_step\<close> interleaves the atomic accesses
  of any number of threads.
\<close>

section \<open>Operations\<close>

abbreviation (input) SIZE_MAX :: nat where "SIZE_MAX \<equiv> 18446744073709551615"
abbreviation (input) sizeof_wd_buffer :: nat where "sizeof_wd_buffer \<equiv> 56"

record wd_buffer =
  wb_refs :: u32
  wb_data :: "bytes option"
  wb_size :: nat
  wb_capacity :: nat
  wb_release :: "nat option"
  wb_inline_storage :: bool

record buffer_heap =
  bh_buffers :: "nat \<rightharpoonup> wd_buffer"
  bh_next :: nat
  bh_released :: "nat list"

definition heap_add :: "buffer_heap \<Rightarrow> wd_buffer \<Rightarrow> nat option \<times> buffer_heap" where
  "heap_add h buf =
     (Some (bh_next h), h\<lparr>bh_buffers := (bh_buffers h)(bh_next h \<mapsto> buf), bh_next := bh_next h + 1\<rparr>)"

definition wd_buffer_alloc_padded :: "bool \<Rightarrow> nat \<Rightarrow> nat \<Rightarrow> buffer_heap \<Rightarrow> nat option \<times> buffer_heap" where
  "wd_buffer_alloc_padded mem_ok n padding h =
     (if padding > SIZE_MAX - n then (None, h)
      else
        let capacity = n + padding in
        if capacity > SIZE_MAX - sizeof_wd_buffer then (None, h)
        else if \<not> mem_ok then (None, h)
        else
          heap_add h
            \<lparr>wb_refs = 1, wb_data = (if capacity \<noteq> 0 then Some (replicate capacity 0) else None), wb_size = n,
             wb_capacity = capacity, wb_release = None, wb_inline_storage = True\<rparr>)"

definition wd_buffer_alloc :: "bool \<Rightarrow> nat \<Rightarrow> buffer_heap \<Rightarrow> nat option \<times> buffer_heap" where
  "wd_buffer_alloc mem_ok n h = wd_buffer_alloc_padded mem_ok n 0 h"

definition wd_buffer_wrap :: "bool \<Rightarrow> bytes option \<Rightarrow> nat \<Rightarrow> nat option \<Rightarrow> buffer_heap \<Rightarrow> nat option \<times> buffer_heap" where
  "wd_buffer_wrap mem_ok data n release h =
     (if n \<noteq> 0 \<and> data = None \<or> release = None then (None, h)
      else if \<not> mem_ok then (None, h)
      else
        heap_add h
          \<lparr>wb_refs = 1, wb_data = data, wb_size = n, wb_capacity = n, wb_release = release, wb_inline_storage = False\<rparr>)"

text \<open>One pass of the loop of \<open>retain\<close> on the loaded count: refuse, or the count to swap in.\<close>

definition retain_next :: "u32 \<Rightarrow> u32 option" where
  "retain_next refs = (if refs = 0 \<or> refs = UINT32_MAX then None else Some (refs + 1))"

definition wd_buffer_retain :: "nat option \<Rightarrow> buffer_heap \<Rightarrow> (nat option \<times> buffer_heap) option" where
  "wd_buffer_retain buffer h =
     (case buffer of None \<Rightarrow> Some (None, h)
      | Some b \<Rightarrow>
          (case bh_buffers h b of None \<Rightarrow> None
           | Some buf \<Rightarrow>
               (case retain_next (wb_refs buf) of
                  None \<Rightarrow> Some (None, h)
                | Some n \<Rightarrow> Some (Some b, h\<lparr>bh_buffers := (bh_buffers h)(b \<mapsto> buf\<lparr>wb_refs := n\<rparr>)\<rparr>))))"

definition wd_buffer_release :: "nat option \<Rightarrow> buffer_heap \<Rightarrow> buffer_heap option" where
  "wd_buffer_release buffer h =
     (case buffer of None \<Rightarrow> Some h
      | Some b \<Rightarrow>
          (case bh_buffers h b of None \<Rightarrow> None
           | Some buf \<Rightarrow>
               if wb_refs buf \<noteq> 1 then Some (h\<lparr>bh_buffers := (bh_buffers h)(b \<mapsto> buf\<lparr>wb_refs := wb_refs buf - 1\<rparr>)\<rparr>)
               else
                 Some (h\<lparr>bh_buffers := (bh_buffers h)(b := None),
                         bh_released :=
                           (case wb_release buf of
                              Some cb \<Rightarrow> if \<not> wb_inline_storage buf then bh_released h @ [cb] else bh_released h
                            | None \<Rightarrow> bh_released h)\<rparr>)))"

text \<open>The accessors take a null pointer as an empty buffer.\<close>

definition wd_buffer_data :: "wd_buffer option \<Rightarrow> bytes option" where
  "wd_buffer_data buffer = (case buffer of None \<Rightarrow> None | Some buf \<Rightarrow> wb_data buf)"

definition wd_buffer_size :: "wd_buffer option \<Rightarrow> nat" where
  "wd_buffer_size buffer = (case buffer of None \<Rightarrow> 0 | Some buf \<Rightarrow> wb_size buf)"

definition wd_buffer_capacity :: "wd_buffer option \<Rightarrow> nat" where
  "wd_buffer_capacity buffer = (case buffer of None \<Rightarrow> 0 | Some buf \<Rightarrow> wb_capacity buf)"

definition wd_buffer_range_valid :: "wd_buffer option \<Rightarrow> nat \<Rightarrow> nat \<Rightarrow> bool" where
  "wd_buffer_range_valid buffer offset n \<longleftrightarrow>
     (case buffer of None \<Rightarrow> False | Some buf \<Rightarrow> offset \<le> wb_size buf \<and> n \<le> wb_size buf - offset)"

section \<open>Threads\<close>

text \<open>
  One buffer and any number of threads. \<open>bs_owned\<close> has an element for each reference, the thread
  that holds it; \<open>bs_loop\<close> has the count a thread has loaded inside \<open>retain\<close>. A thread calls
  \<open>retain\<close> and \<open>release\<close> only with a reference of its own, and hands references to other
  threads between calls. The compare-and-swap is weak: it may fail although the count is the
  loaded one. An access to a freed buffer sets \<open>bs_fault\<close>.
\<close>

record buffer_sys =
  bs_heap :: buffer_heap
  bs_owned :: "nat multiset"
  bs_loop :: "nat \<rightharpoonup> u32"
  bs_fault :: bool

inductive buffer_step :: "nat \<Rightarrow> buffer_sys \<Rightarrow> buffer_sys \<Rightarrow> bool" for b :: nat where
  load: "\<lbrakk>t \<in># bs_owned s; bs_loop s t = None; bh_buffers (bs_heap s) b = Some buf\<rbrakk> \<Longrightarrow>
     buffer_step b s (s\<lparr>bs_loop := (bs_loop s)(t \<mapsto> wb_refs buf)\<rparr>)"
| refuse: "\<lbrakk>bs_loop s t = Some v; retain_next v = None\<rbrakk> \<Longrightarrow>
     buffer_step b s (s\<lparr>bs_loop := (bs_loop s)(t := None)\<rparr>)"
| swap: "\<lbrakk>bs_loop s t = Some v; retain_next v \<noteq> None; bh_buffers (bs_heap s) b = Some buf; wb_refs buf = v;
     wd_buffer_retain (Some b) (bs_heap s) = Some (Some b, h)\<rbrakk> \<Longrightarrow>
     buffer_step b s (s\<lparr>bs_heap := h, bs_owned := add_mset t (bs_owned s), bs_loop := (bs_loop s)(t := None)\<rparr>)"
| retry: "\<lbrakk>bs_loop s t = Some v; retain_next v \<noteq> None; bh_buffers (bs_heap s) b = Some buf\<rbrakk> \<Longrightarrow>
     buffer_step b s (s\<lparr>bs_loop := (bs_loop s)(t \<mapsto> wb_refs buf)\<rparr>)"
| release: "\<lbrakk>t \<in># bs_owned s; bs_loop s t = None; wd_buffer_release (Some b) (bs_heap s) = Some h\<rbrakk> \<Longrightarrow>
     buffer_step b s (s\<lparr>bs_heap := h, bs_owned := bs_owned s - {#t#}\<rparr>)"
| hand_over: "\<lbrakk>t \<in># bs_owned s; bs_loop s t = None\<rbrakk> \<Longrightarrow>
     buffer_step b s (s\<lparr>bs_owned := add_mset t' (bs_owned s - {#t#})\<rparr>)"
| load_freed: "\<lbrakk>t \<in># bs_owned s; bs_loop s t = None; bh_buffers (bs_heap s) b = None\<rbrakk> \<Longrightarrow>
     buffer_step b s (s\<lparr>bs_fault := True\<rparr>)"
| swap_freed: "\<lbrakk>bs_loop s t = Some v; retain_next v \<noteq> None; bh_buffers (bs_heap s) b = None\<rbrakk> \<Longrightarrow>
     buffer_step b s (s\<lparr>bs_fault := True\<rparr>)"

inductive buffer_reachable :: "nat \<Rightarrow> buffer_sys \<Rightarrow> buffer_sys \<Rightarrow> bool" for b s0 where
  start: "buffer_reachable b s0 s0"
| step: "\<lbrakk>buffer_reachable b s0 s; buffer_step b s s'\<rbrakk> \<Longrightarrow> buffer_reachable b s0 s'"

text \<open>A buffer just made by thread \<open>t\<close> in heap \<open>h\<close>.\<close>

definition fresh_sys :: "nat \<Rightarrow> buffer_heap \<Rightarrow> buffer_sys" where
  "fresh_sys t h = \<lparr>bs_heap = h, bs_owned = {#t#}, bs_loop = Map.empty, bs_fault = False\<rparr>"

text \<open>
  The count is the number of references as long as there is one, and the buffer is freed, with
  its callback called once, when there is none.
\<close>

definition callback_log :: "nat list \<Rightarrow> wd_buffer \<Rightarrow> nat list" where
  "callback_log log buf =
     log @ (case wb_release buf of Some cb \<Rightarrow> if wb_inline_storage buf then [] else [cb] | None \<Rightarrow> [])"

definition buffer_inv :: "nat \<Rightarrow> wd_buffer \<Rightarrow> nat list \<Rightarrow> buffer_sys \<Rightarrow> bool" where
  "buffer_inv b buf0 log s \<longleftrightarrow>
     \<not> bs_fault s \<and> (\<forall>t v. bs_loop s t = Some v \<longrightarrow> t \<in># bs_owned s) \<and>
     (if bs_owned s = {#} then bh_buffers (bs_heap s) b = None \<and> bh_released (bs_heap s) = callback_log log buf0
      else \<exists>n. bh_buffers (bs_heap s) b = Some (buf0\<lparr>wb_refs := n\<rparr>) \<and> unat n = size (bs_owned s)
             \<and> bh_released (bs_heap s) = log)"

lemma retain_next_Some:
  assumes "retain_next v = Some n"
  shows "n = v + 1 \<and> unat n = unat v + 1"
proof -
  from assms have v: "v \<noteq> UINT32_MAX" "n = v + 1" by (auto simp: retain_next_def split: if_splits)
  from v(1) have "unat v \<noteq> 4294967295" by (auto simp: unat_eq_iff [of v])
  then have "unat v + unat (1 :: u32) < 2 ^ 32" using unat_u32_lt [of v] by simp
  then show ?thesis using v(2) unat_add_exact [of v 1] by simp
qed

lemma buffer_step_inv:
  assumes "buffer_step b s s'" "buffer_inv b buf0 log s"
  shows "buffer_inv b buf0 log s'"
  using assms
proof (induction rule: buffer_step.induct)
  case (load t s buf)
  then show ?case by (auto simp: buffer_inv_def)
next
  case (refuse s t v)
  then show ?case by (auto simp: buffer_inv_def)
next
  case (swap s t v buf h)
  then have t: "t \<in># bs_owned s" by (auto simp: buffer_inv_def)
  then have ne: "bs_owned s \<noteq> {#}" by auto
  from swap.hyps(2) obtain n where n: "retain_next v = Some n" by auto
  have h: "h = (bs_heap s)\<lparr>bh_buffers := (bh_buffers (bs_heap s))(b \<mapsto> buf\<lparr>wb_refs := n\<rparr>)\<rparr>"
    using swap.hyps(3-5) n by (auto simp: wd_buffer_retain_def)
  show ?case using swap.prems swap.hyps(1,3,4) ne retain_next_Some [OF n] by (auto simp: buffer_inv_def h)
next
  case (retry s t v buf)
  then show ?case by (auto simp: buffer_inv_def)
next
  case (release t s h)
  then obtain n where b: "bh_buffers (bs_heap s) b = Some (buf0\<lparr>wb_refs := n\<rparr>)" "unat n = size (bs_owned s)"
    "bh_released (bs_heap s) = log" by (auto simp: buffer_inv_def split: if_splits)
  have loops: "bs_loop s t' = Some v \<Longrightarrow> t' \<in># bs_owned s - {#t#}" for t' v
    using release.prems release.hyps(2) by (cases "t' = t") (auto simp: buffer_inv_def in_diff_count)
  have pos: "0 < size (bs_owned s)" using release.hyps(1) by (auto simp: nonempty_has_size [symmetric])
  show ?case
  proof (cases "n = 1")
    case True
    then have "size (bs_owned s) = 1" using b(2) by simp
    then obtain a where "bs_owned s = {#a#}" using size_1_singleton_mset by blast
    then have one: "bs_owned s = {#t#}" using release.hyps(1) by simp
    have idle: "bs_loop s t' = None" for t' using loops [of t'] one by (cases "bs_loop s t'") auto
    show ?thesis using one idle release.hyps(3) release.prems b True
      by (auto simp: buffer_inv_def wd_buffer_release_def callback_log_def split: option.splits)
  next
    case False
    have un: "unat (n - 1) = size (bs_owned s - {#t#})"
      using b(2) release.hyps(1) pos by (subst unat_sub_exact) (simp_all add: size_Diff_singleton Suc_le_eq)
    have "size (bs_owned s) \<noteq> 1" using False b(2) by (metis unat_1 word_unat_eq_iff)
    then have "size (bs_owned s - {#t#}) \<noteq> 0" using release.hyps(1) pos by (simp add: size_Diff_singleton)
    then have ne: "bs_owned s - {#t#} \<noteq> {#}" by (metis size_empty)
    have "h = (bs_heap s)\<lparr>bh_buffers := (bh_buffers (bs_heap s))(b \<mapsto> buf0\<lparr>wb_refs := n - 1\<rparr>)\<rparr>"
      using release.hyps(3) b(1) False by (simp add: wd_buffer_release_def)
    then show ?thesis using release.prems ne un b(3) loops by (auto simp: buffer_inv_def)
  qed
next
  case (hand_over t s t')
  have "size (bs_owned s) = Suc (size (bs_owned s - {#t#}))" "bs_owned s \<noteq> {#}"
    using hand_over.hyps(1) by (metis insert_DiffM size_add_mset, auto)
  then show ?case using hand_over by (auto simp: buffer_inv_def in_diff_count)
next
  case (load_freed t s)
  then show ?case by (auto simp: buffer_inv_def split: if_splits)
next
  case (swap_freed s t v)
  then have "t \<in># bs_owned s" by (auto simp: buffer_inv_def)
  then show ?case using swap_freed by (auto simp: buffer_inv_def split: if_splits)
qed

section \<open>Properties\<close>

text \<open>
  C38: For every interleaving of \<open>retain\<close> and \<open>release\<close> calls of any number of threads, with the
  compare-and-swap of \<open>retain\<close> failing any number of times: the count is the number of
  references that the threads hold and never wraps around, no thread ever accesses the buffer
  after it was freed, and once no reference is left the buffer has been freed and its release
  callback has been called exactly once, and not before.
\<close>

theorem buffer_lifetime:
  assumes "bh_buffers h b = Some buf" "wb_refs buf = 1" "buffer_reachable b (fresh_sys t h) s"
  shows "\<not> bs_fault s \<and>
    (if bs_owned s = {#}
     then bh_buffers (bs_heap s) b = None \<and>
          bh_released (bs_heap s) =
            bh_released h @ (case wb_release buf of Some cb \<Rightarrow> if wb_inline_storage buf then [] else [cb] | None \<Rightarrow> [])
     else \<exists>n. bh_buffers (bs_heap s) b = Some (buf\<lparr>wb_refs := n\<rparr>) \<and> unat n = size (bs_owned s)
            \<and> bh_released (bs_heap s) = bh_released h)"
proof -
  from assms(3) have "buffer_inv b buf (bh_released h) s"
  proof (induction rule: buffer_reachable.induct)
    case start
    have "buf = buf\<lparr>wb_refs := 1\<rparr>" using assms(2) by simp
    then show ?case using assms(1) by (auto simp: buffer_inv_def fresh_sys_def intro!: exI [of _ 1])
  next
    case (step s s')
    then show ?case by (blast intro: buffer_step_inv)
  qed
  then show ?thesis by (auto simp: buffer_inv_def callback_log_def)
qed

theorem buffer_lifetime_witness:
  "\<exists>b h s. wd_buffer_wrap True (Some [1, 2]) 2 (Some 9) \<lparr>bh_buffers = Map.empty, bh_next = 4, bh_released = []\<rparr> = (Some b, h)
     \<and> buffer_reachable b (fresh_sys 0 h) s \<and> bs_owned s = {#} \<and> bh_buffers (bs_heap s) b = None \<and> bh_released (bs_heap s) = [9]"
proof -
  define buf where
    "buf = \<lparr>wb_refs = 1, wb_data = Some [1, 2], wb_size = 2, wb_capacity = 2, wb_release = Some 9, wb_inline_storage = False\<rparr>"
  define h where "h = \<lparr>bh_buffers = [4 \<mapsto> buf], bh_next = 5, bh_released = []\<rparr>"
  have w: "wd_buffer_wrap True (Some [1, 2]) 2 (Some 9) \<lparr>bh_buffers = Map.empty, bh_next = 4, bh_released = []\<rparr> = (Some 4, h)"
    by (simp add: wd_buffer_wrap_def heap_add_def h_def buf_def)
  let ?s1 = "(fresh_sys 0 h)\<lparr>bs_owned := {#1#}\<rparr>"
  let ?h2 = "h\<lparr>bh_buffers := Map.empty, bh_released := [9]\<rparr>"
  let ?s2 = "?s1\<lparr>bs_heap := ?h2, bs_owned := {#}\<rparr>"
  have "buffer_step 4 (fresh_sys 0 h) ?s1"
    using buffer_step.hand_over [of 0 "fresh_sys 0 h" 4 1] by (simp add: fresh_sys_def)
  then have "buffer_reachable 4 (fresh_sys 0 h) ?s1" by (rule buffer_reachable.step [OF buffer_reachable.start])
  moreover have "buffer_step 4 ?s1 ?s2"
    using buffer_step.release [of 1 ?s1 4 ?h2] by (simp add: fresh_sys_def wd_buffer_release_def h_def buf_def)
  ultimately have r: "buffer_reachable 4 (fresh_sys 0 h) ?s2" by (rule buffer_reachable.step)
  have "bh_buffers h 4 = Some buf" "wb_refs buf = 1" by (simp_all add: h_def buf_def)
  from buffer_lifetime [OF this r] w r show ?thesis
    by (intro exI [of _ 4] exI [of _ h] exI [of _ ?s2]) (simp add: h_def buf_def)
qed

end
