(* ===== verification/WD_Frame.thy ===== *)
theory WD_Frame
  imports WD_Buffer
begin

text \<open>
  Frames (\<open>src/src/common/wd_frame.c\<close>): a picture in a shared buffer or in the planes of a DMA
  buffer, each plane a file descriptor. A frame owns one reference to its buffer, or its
  descriptors.

  The world has the buffer heap and the open descriptors of the process. \<open>fcntl\<close> with
  \<open>F_DUPFD_CLOEXEC\<close> either fails or gives the lowest free descriptor; closing a descriptor that is
  not open, or using a freed buffer, gives \<open>None\<close>. The two arms of the union in \<open>wd_frame\<close> are
  separate fields here, since the code reads an arm only under its storage tag.
\<close>

section \<open>Operations\<close>

abbreviation (input) WD_FRAME_MAX_PLANES :: nat where "WD_FRAME_MAX_PLANES \<equiv> 4"

datatype wd_frame_storage = WD_FRAME_STORAGE_NONE | WD_FRAME_STORAGE_CPU_XRGB8888 | WD_FRAME_STORAGE_DRM_PRIME

record wd_frame_drm_plane =
  dp_fd :: int
  dp_stride :: u32
  dp_offset :: u32
  dp_modifier :: u64

record wd_frame =
  fr_storage :: wd_frame_storage
  fr_width :: u32
  fr_height :: u32
  fr_fourcc :: u32
  fr_pts_usec :: u64
  fr_buffer :: "nat option"
  fr_offset :: nat
  fr_stride_bytes :: u32
  fr_plane_count :: u32
  fr_planes :: "wd_frame_drm_plane list"

record world =
  wo_heap :: buffer_heap
  wo_fds :: "int list"

definition lowest_free :: "int list \<Rightarrow> int" where
  "lowest_free fds = hd (filter (\<lambda>n. n \<notin> set fds) (map int [0..<Suc (length fds)]))"

definition wd_frame_dup_cloexec :: "bool \<Rightarrow> int list \<Rightarrow> int \<Rightarrow> int \<times> int list" where
  "wd_frame_dup_cloexec dup_ok fds fd =
     (if fd < 0 then (-1, fds)
      else if \<not> dup_ok \<or> fd \<notin> set fds then (-1, fds)
      else (lowest_free fds, lowest_free fds # fds))"

definition os_close :: "int list \<Rightarrow> int \<Rightarrow> int list option" where
  "os_close fds fd = (if fd \<in> set fds then Some (remove1 fd fds) else None)"

definition wd_frame_init :: wd_frame where
  "wd_frame_init =
     \<lparr>fr_storage = WD_FRAME_STORAGE_NONE, fr_width = 0, fr_height = 0, fr_fourcc = 0, fr_pts_usec = 0,
      fr_buffer = None, fr_offset = 0, fr_stride_bytes = 0, fr_plane_count = 0,
      fr_planes = replicate WD_FRAME_MAX_PLANES \<lparr>dp_fd = -1, dp_stride = 0, dp_offset = 0, dp_modifier = 0\<rparr>\<rparr>"

fun close_planes :: "wd_frame_drm_plane list \<Rightarrow> int list \<Rightarrow> int list option" where
  "close_planes [] fds = Some fds"
| "close_planes (p # ps) fds =
     (if dp_fd p \<ge> 0 then do { fds \<leftarrow> os_close fds (dp_fd p); close_planes ps fds } else close_planes ps fds)"

definition wd_frame_reset :: "world \<Rightarrow> wd_frame \<Rightarrow> (world \<times> wd_frame) option" where
  "wd_frame_reset w frame =
     (if fr_storage frame = WD_FRAME_STORAGE_CPU_XRGB8888 then
        do { h \<leftarrow> wd_buffer_release (fr_buffer frame) (wo_heap w); Some (w\<lparr>wo_heap := h\<rparr>, wd_frame_init) }
      else if fr_storage frame = WD_FRAME_STORAGE_DRM_PRIME then
        do { fds \<leftarrow> close_planes (take (min (unat (fr_plane_count frame)) WD_FRAME_MAX_PLANES) (fr_planes frame)) (wo_fds w);
             Some (w\<lparr>wo_fds := fds\<rparr>, wd_frame_init) }
      else Some (w, wd_frame_init))"

definition wd_frame_cpu_range_valid :: "buffer_heap \<Rightarrow> nat option \<Rightarrow> nat \<Rightarrow> u32 \<Rightarrow> u32 \<Rightarrow> u32 \<Rightarrow> bool option" where
  "wd_frame_cpu_range_valid h buffer offset width height stride_bytes =
     (let row_bytes = unat width * 4 in
      case buffer of None \<Rightarrow> Some False
      | Some b \<Rightarrow>
          if width = 0 \<or> height = 0 \<or> row_bytes > unat stride_bytes then Some False
          else if height > 1 \<and> unat (height - 1) > (SIZE_MAX - row_bytes) div unat stride_bytes then Some False
          else
            let bytes = unat (height - 1) * unat stride_bytes + row_bytes in
            do { buf \<leftarrow> bh_buffers h b;
                 Some (offset \<le> wd_buffer_size (Some buf) \<and> bytes \<le> wd_buffer_size (Some buf) - offset) })"

definition wd_frame_set_cpu_xrgb8888 ::
    "world \<Rightarrow> wd_frame \<Rightarrow> nat option \<Rightarrow> nat \<Rightarrow> u32 \<Rightarrow> u32 \<Rightarrow> u32 \<Rightarrow> u32 \<Rightarrow> u64 \<Rightarrow> (bool \<times> world \<times> wd_frame) option" where
  "wd_frame_set_cpu_xrgb8888 w frame buffer offset width height stride_bytes fourcc pts_usec =
     do { ok \<leftarrow> wd_frame_cpu_range_valid (wo_heap w) buffer offset width height stride_bytes;
          if \<not> ok then Some (False, w, frame)
          else
            do { (retained, h) \<leftarrow> wd_buffer_retain buffer (wo_heap w);
                 if retained = None then Some (False, w, frame)
                 else
                   do { (w, frame) \<leftarrow> wd_frame_reset (w\<lparr>wo_heap := h\<rparr>) frame;
                        Some (True, w,
                          frame\<lparr>fr_storage := WD_FRAME_STORAGE_CPU_XRGB8888, fr_width := width, fr_height := height,
                                fr_fourcc := fourcc, fr_pts_usec := pts_usec, fr_buffer := retained,
                                fr_offset := offset, fr_stride_bytes := stride_bytes\<rparr>) } } }"

text \<open>The loop of \<open>wd_frame_set_drm_prime_dup\<close>; \<open>dup_ok i\<close> is the outcome of the \<open>i\<close>th duplication.\<close>

function dup_planes ::
    "(nat \<Rightarrow> bool) \<Rightarrow> world \<Rightarrow> wd_frame \<Rightarrow> wd_frame_drm_plane list \<Rightarrow> nat \<Rightarrow> nat \<Rightarrow> (bool \<times> world \<times> wd_frame) option" where
  "dup_planes dup_ok w temporary planes i plane_count =
     (if i < plane_count then
        (case rd planes i of None \<Rightarrow> None
         | Some p \<Rightarrow>
             if dp_fd p < 0 \<or> dp_stride p = 0 then
               do { (w, temporary) \<leftarrow> wd_frame_reset w temporary; Some (False, w, temporary) }
             else
               let (fd, fds) = wd_frame_dup_cloexec (dup_ok i) (wo_fds w) (dp_fd p);
                   w = w\<lparr>wo_fds := fds\<rparr>
               in case wr_elem (fr_planes temporary) i (p\<lparr>dp_fd := fd\<rparr>) of None \<Rightarrow> None
                  | Some ps \<Rightarrow>
                      let temporary = temporary\<lparr>fr_planes := ps\<rparr>
                      in if fd < 0 then do { (w, temporary) \<leftarrow> wd_frame_reset w temporary; Some (False, w, temporary) }
                         else dup_planes dup_ok w temporary planes (i + 1) plane_count)
      else Some (True, w, temporary))"
  by pat_completeness auto
termination by (relation "measure (\<lambda>(d, w, t, p, i, n). n - i)") auto

declare dup_planes.simps [simp del]

definition wd_frame_set_drm_prime_dup ::
    "(nat \<Rightarrow> bool) \<Rightarrow> world \<Rightarrow> wd_frame \<Rightarrow> u32 \<Rightarrow> u32 \<Rightarrow> u32 \<Rightarrow> u64 \<Rightarrow> wd_frame_drm_plane list option \<Rightarrow> u32 \<Rightarrow>
     (bool \<times> world \<times> wd_frame) option" where
  "wd_frame_set_drm_prime_dup dup_ok w frame width height fourcc pts_usec planes plane_count =
     (case planes of None \<Rightarrow> Some (False, w, frame)
      | Some ps \<Rightarrow>
          if width = 0 \<or> height = 0 \<or> plane_count = 0 \<or> unat plane_count > WD_FRAME_MAX_PLANES then Some (False, w, frame)
          else
            do { (ok, w, temporary) \<leftarrow>
                   dup_planes dup_ok w
                     (wd_frame_init\<lparr>fr_storage := WD_FRAME_STORAGE_DRM_PRIME, fr_width := width, fr_height := height,
                                    fr_fourcc := fourcc, fr_pts_usec := pts_usec, fr_plane_count := plane_count\<rparr>)
                     ps 0 (unat plane_count);
                 if \<not> ok then Some (False, w, frame)
                 else do { (w, _) \<leftarrow> wd_frame_reset w frame; Some (True, w, temporary) } })"

definition wd_frame_valid :: "buffer_heap \<Rightarrow> wd_frame \<Rightarrow> bool option" where
  "wd_frame_valid h frame =
     (if fr_width frame = 0 \<or> fr_height frame = 0 then Some False
      else if fr_storage frame = WD_FRAME_STORAGE_CPU_XRGB8888 then
        wd_frame_cpu_range_valid h (fr_buffer frame) (fr_offset frame) (fr_width frame) (fr_height frame) (fr_stride_bytes frame)
      else if fr_storage frame = WD_FRAME_STORAGE_DRM_PRIME then
        Some (if fr_plane_count frame = 0 \<or> unat (fr_plane_count frame) > WD_FRAME_MAX_PLANES then False
              else \<not> list_ex (\<lambda>p. dp_fd p < 0 \<or> dp_stride p = 0) (take (unat (fr_plane_count frame)) (fr_planes frame)))
      else Some False)"

text \<open>\<open>same\<close> is the comparison of the two pointers.\<close>

definition wd_frame_clone :: "(nat \<Rightarrow> bool) \<Rightarrow> world \<Rightarrow> bool \<Rightarrow> wd_frame \<Rightarrow> wd_frame \<Rightarrow> (bool \<times> world \<times> wd_frame) option" where
  "wd_frame_clone dup_ok w same destination source =
     (if same then Some (False, w, destination)
      else
        do { ok \<leftarrow> wd_frame_valid (wo_heap w) source;
             if \<not> ok then Some (False, w, destination)
             else if fr_storage source = WD_FRAME_STORAGE_CPU_XRGB8888 then
               wd_frame_set_cpu_xrgb8888 w destination (fr_buffer source) (fr_offset source) (fr_width source)
                 (fr_height source) (fr_stride_bytes source) (fr_fourcc source) (fr_pts_usec source)
             else
               wd_frame_set_drm_prime_dup dup_ok w destination (fr_width source) (fr_height source) (fr_fourcc source)
                 (fr_pts_usec source) (Some (fr_planes source)) (fr_plane_count source) })"

text \<open>The bytes from the first pixel on.\<close>

definition wd_frame_cpu_data :: "buffer_heap \<Rightarrow> wd_frame \<Rightarrow> bytes option option" where
  "wd_frame_cpu_data h frame =
     (if fr_storage frame \<noteq> WD_FRAME_STORAGE_CPU_XRGB8888 then Some None
      else
        do { ok \<leftarrow> wd_frame_valid h frame;
             if \<not> ok then Some None
             else
               do { b \<leftarrow> fr_buffer frame; buf \<leftarrow> bh_buffers h b;
                    Some (map_option (drop (fr_offset frame)) (wd_buffer_data (Some buf))) } })"

section \<open>What a frame owns\<close>

definition frame_fds :: "wd_frame \<Rightarrow> int multiset" where
  "frame_fds f =
     (if fr_storage f = WD_FRAME_STORAGE_DRM_PRIME
      then mset (filter (\<lambda>fd. 0 \<le> fd) (map dp_fd (take (min (unat (fr_plane_count f)) WD_FRAME_MAX_PLANES) (fr_planes f))))
      else {#})"

definition frame_refs :: "wd_frame \<Rightarrow> nat \<Rightarrow> nat" where
  "frame_refs f b = (if fr_storage f = WD_FRAME_STORAGE_CPU_XRGB8888 \<and> fr_buffer f = Some b then 1 else 0)"

definition frame_ok :: "wd_frame \<Rightarrow> bool" where
  "frame_ok f \<longleftrightarrow> (fr_storage f = WD_FRAME_STORAGE_CPU_XRGB8888 \<longrightarrow> fr_buffer f \<noteq> None) \<and>
     (fr_storage f = WD_FRAME_STORAGE_DRM_PRIME \<longrightarrow> length (fr_planes f) = WD_FRAME_MAX_PLANES)"

fun counts :: "wd_buffer option \<Rightarrow> nat \<Rightarrow> bool" where
  "counts None n \<longleftrightarrow> n = 0"
| "counts (Some buf) n \<longleftrightarrow> unat (wb_refs buf) = n \<and> 0 < n"

text \<open>\<open>R b\<close> references to each buffer exist, and exactly the descriptors of \<open>F\<close> are open.\<close>

definition world_inv :: "world \<Rightarrow> (nat \<Rightarrow> nat) \<Rightarrow> int multiset \<Rightarrow> bool" where
  "world_inv w R F \<longleftrightarrow>
     (\<forall>b. counts (bh_buffers (wo_heap w) b) (R b)) \<and>
     distinct (wo_fds w) \<and> mset (wo_fds w) = F"

lemma frame_init_owns [simp]: "frame_fds wd_frame_init = {#}" "frame_refs wd_frame_init b = 0" "frame_ok wd_frame_init"
  by (simp_all add: frame_fds_def frame_refs_def frame_ok_def wd_frame_init_def)

lemma world_inv_heap: "world_inv w R F \<Longrightarrow> 0 < R b \<Longrightarrow> \<exists>buf. bh_buffers (wo_heap w) b = Some buf \<and> unat (wb_refs buf) = R b"
  by (cases "bh_buffers (wo_heap w) b") (auto simp: world_inv_def dest!: spec [of _ b])

lemma release_world_inv:
  assumes "world_inv w (\<lambda>x. R x + (if x = b then 1 else 0)) F"
  shows "\<exists>h. wd_buffer_release (Some b) (wo_heap w) = Some h \<and> world_inv (w\<lparr>wo_heap := h\<rparr>) R F"
proof -
  from world_inv_heap [OF assms, of b] obtain buf where
    buf: "bh_buffers (wo_heap w) b = Some buf" "unat (wb_refs buf) = R b + 1" by auto
  have at: "counts (bh_buffers (wo_heap w) x) (R x)" if "x \<noteq> b" for x
    using assms that by (auto simp: world_inv_def dest!: spec [of _ x])
  show ?thesis
  proof (cases "wb_refs buf = 1")
    case True
    then have "R b = 0" using buf(2) by simp
    then show ?thesis using True buf assms at by (auto simp: wd_buffer_release_def world_inv_def)
  next
    case False
    then have "R b \<noteq> 0" using buf(2) by (auto simp: unat_eq_iff)
    moreover have "unat (wb_refs buf - 1) = R b" using buf(2) by (subst unat_sub_exact) simp_all
    ultimately show ?thesis using False buf assms at by (auto simp: wd_buffer_release_def world_inv_def)
  qed
qed

lemma retain_world_inv:
  assumes "world_inv w R F" "0 < R b"
  shows "\<exists>h r. wd_buffer_retain (Some b) (wo_heap w) = Some (r, h) \<and>
    (r = None \<and> h = wo_heap w \<or> r = Some b \<and> world_inv (w\<lparr>wo_heap := h\<rparr>) (\<lambda>x. R x + (if x = b then 1 else 0)) F)"
proof -
  from world_inv_heap [OF assms] obtain buf where
    buf: "bh_buffers (wo_heap w) b = Some buf" "unat (wb_refs buf) = R b" by auto
  show ?thesis
  proof (cases "retain_next (wb_refs buf)")
    case None
    then show ?thesis using buf by (simp add: wd_buffer_retain_def)
  next
    case (Some n)
    have "counts (bh_buffers (wo_heap w) x) (R x)" for x
      using assms by (auto simp: world_inv_def)
    then show ?thesis using Some buf assms retain_next_Some [OF Some] by (auto simp: wd_buffer_retain_def world_inv_def)
  qed
qed

lemma close_planes_ok:
  "\<lbrakk>distinct fds; mset fds = F + mset (filter (\<lambda>fd. 0 \<le> fd) (map dp_fd ps))\<rbrakk> \<Longrightarrow>
   \<exists>fds'. close_planes ps fds = Some fds' \<and> distinct fds' \<and> mset fds' = F"
proof (induction ps arbitrary: fds)
  case (Cons p ps)
  show ?case
  proof (cases "0 \<le> dp_fd p")
    case True
    then have m: "mset fds = add_mset (dp_fd p) (F + mset (filter (\<lambda>fd. 0 \<le> fd) (map dp_fd ps)))" using Cons.prems(2) by simp
    then have "dp_fd p \<in># mset fds" by simp
    moreover have "mset (remove1 (dp_fd p) fds) = F + mset (filter (\<lambda>fd. 0 \<le> fd) (map dp_fd ps))" using m by simp
    ultimately show ?thesis using True Cons.IH [of "remove1 (dp_fd p) fds"] Cons.prems(1) by (simp add: os_close_def)
  next
    case False
    then show ?thesis using Cons by simp
  qed
qed simp

lemma reset_world_inv:
  assumes "frame_ok f" "world_inv w (\<lambda>b. R b + frame_refs f b) (F + frame_fds f)"
  shows "\<exists>w'. wd_frame_reset w f = Some (w', wd_frame_init) \<and> world_inv w' R F"
proof (cases "fr_storage f")
  case WD_FRAME_STORAGE_NONE
  then show ?thesis using assms by (simp add: wd_frame_reset_def frame_refs_def frame_fds_def)
next
  case WD_FRAME_STORAGE_CPU_XRGB8888
  with assms(1) obtain b where b: "fr_buffer f = Some b" by (auto simp: frame_ok_def)
  have "(\<lambda>x. R x + frame_refs f x) = (\<lambda>x. R x + (if x = b then 1 else 0))"
    using WD_FRAME_STORAGE_CPU_XRGB8888 b by (auto simp: frame_refs_def fun_eq_iff)
  with release_world_inv [of w R b F] assms(2) WD_FRAME_STORAGE_CPU_XRGB8888 b show ?thesis
    by (auto simp: wd_frame_reset_def frame_fds_def)
next
  case WD_FRAME_STORAGE_DRM_PRIME
  then have "(\<lambda>x. R x + frame_refs f x) = R" by (simp add: frame_refs_def)
  then show ?thesis using assms(2) WD_FRAME_STORAGE_DRM_PRIME
      close_planes_ok [of "wo_fds w" F "take (min (unat (fr_plane_count f)) 4) (fr_planes f)"]
    by (auto simp: wd_frame_reset_def frame_fds_def world_inv_def)
qed

lemma lowest_free: "lowest_free fds \<notin> set fds" "0 \<le> lowest_free fds"
proof -
  let ?c = "map int [0..<Suc (length fds)]"
  have "\<not> set ?c \<subseteq> set fds"
  proof
    assume s: "set ?c \<subseteq> set fds"
    have "distinct ?c" unfolding distinct_map by (auto intro: inj_onI simp del: upt_Suc)
    then have "card (set ?c) = Suc (length fds)" by (subst distinct_card) simp_all
    moreover have "card (set ?c) \<le> card (set fds)" using s by (rule card_mono [OF finite_set])
    ultimately show False using card_length [of fds] by linarith
  qed
  then have "filter (\<lambda>n. n \<notin> set fds) ?c \<noteq> []" by (auto simp: filter_empty_conv)
  then have "lowest_free fds \<in> set (filter (\<lambda>n. n \<notin> set fds) ?c)" unfolding lowest_free_def by (rule hd_in_set)
  then show "lowest_free fds \<notin> set fds" "0 \<le> lowest_free fds" by (auto simp del: upt_Suc)
qed

text \<open>The temporary frame of \<open>set_drm_prime_dup\<close> owns the descriptors duplicated so far.\<close>

definition partial_planes :: "wd_frame \<Rightarrow> nat \<Rightarrow> nat \<Rightarrow> bool" where
  "partial_planes f i n \<longleftrightarrow>
     fr_storage f = WD_FRAME_STORAGE_DRM_PRIME \<and> unat (fr_plane_count f) = n \<and> n \<le> 4 \<and> length (fr_planes f) = 4 \<and>
     (\<forall>j. i \<le> j \<and> j < 4 \<longrightarrow> dp_fd (fr_planes f ! j) = -1)"

lemma partial_frame_ok: "partial_planes f i n \<Longrightarrow> frame_ok f"
  by (simp add: partial_planes_def frame_ok_def)

lemma partial_refs: "partial_planes f i n \<Longrightarrow> frame_refs f b = 0"
  by (simp add: partial_planes_def frame_refs_def)

lemma partial_update:
  assumes "partial_planes f i n" "i < n" "f' = f\<lparr>fr_planes := (fr_planes f)[i := p]\<rparr>"
  shows "partial_planes f' (Suc i) n"
    "frame_fds f' = (if 0 \<le> dp_fd p then add_mset (dp_fd p) (frame_fds f) else frame_fds f)"
proof -
  from assms show "partial_planes f' (Suc i) n" by (auto simp: partial_planes_def)
  have i: "i < length (take n (fr_planes f))" using assms by (simp add: partial_planes_def)
  let ?ps = "take n (fr_planes f)"
  have u: "?ps[i := p] = take i ?ps @ p # drop (Suc i) ?ps" using i by (rule upd_conv_take_nth_drop)
  have s: "?ps = take i ?ps @ ?ps ! i # drop (Suc i) ?ps" using i by (rule id_take_nth_drop)
  have n: "\<not> 0 \<le> dp_fd (?ps ! i)" using assms by (simp add: partial_planes_def)
  let ?g = "\<lambda>ps. mset (filter (\<lambda>fd. 0 \<le> fd) (map dp_fd ps))"
  have "?g ?ps = ?g (take i ?ps) + ?g (drop (Suc i) ?ps)" using n by (subst s) simp
  then have "?g (?ps[i := p]) = (if 0 \<le> dp_fd p then add_mset (dp_fd p) (?g ?ps) else ?g ?ps)" unfolding u by simp
  then show "frame_fds f' = (if 0 \<le> dp_fd p then add_mset (dp_fd p) (frame_fds f) else frame_fds f)"
    using assms by (simp add: frame_fds_def partial_planes_def take_update_swap min_absorb1)
qed

lemma dup_world_inv:
  assumes "world_inv w R F" "wd_frame_dup_cloexec ok (wo_fds w) fd = (fd', fds)"
  shows "world_inv (w\<lparr>wo_fds := fds\<rparr>) R (if 0 \<le> fd' then add_mset fd' F else F)"
  using assms lowest_free [of "wo_fds w"] by (auto simp: wd_frame_dup_cloexec_def world_inv_def split: if_splits)

lemma dup_planes_ok:
  "\<lbrakk>partial_planes f i n; i \<le> n; n \<le> length ps; world_inv w R (F + frame_fds f)\<rbrakk> \<Longrightarrow>
   \<exists>ok w' f'. dup_planes dup_ok w f ps i n = Some (ok, w', f') \<and>
     (if ok then partial_planes f' n n \<and> world_inv w' R (F + frame_fds f') else world_inv w' R F)"
proof (induction dup_ok w f ps i n rule: dup_planes.induct)
  case (1 dup_ok w f ps i n)
  show ?case
  proof (cases "i < n")
    case False
    then show ?thesis using "1.prems" by (auto simp: dup_planes.simps [of dup_ok w f ps])
  next
    case True
    have rp: "rd ps i = Some (ps ! i)" using True "1.prems" by simp
    note reset = reset_world_inv [of _ _ R F]
    show ?thesis
    proof (cases "dp_fd (ps ! i) < 0 \<or> dp_stride (ps ! i) = 0")
      case bad: True
      from "1.prems" have "world_inv w (\<lambda>b. R b + frame_refs f b) (F + frame_fds f)" by (simp add: partial_refs)
      from reset [OF partial_frame_ok [OF "1.prems"(1)] this] show ?thesis using True rp bad
        by (auto simp: dup_planes.simps [of dup_ok w f ps])
    next
      case good: False
      obtain fd fds where d: "wd_frame_dup_cloexec (dup_ok i) (wo_fds w) (dp_fd (ps ! i)) = (fd, fds)" by force
      let ?w = "w\<lparr>wo_fds := fds\<rparr>" and ?p = "(ps ! i)\<lparr>dp_fd := fd\<rparr>"
      let ?f = "f\<lparr>fr_planes := (fr_planes f)[i := ?p]\<rparr>"
      have wr: "wr_elem (fr_planes f) i ?p = Some ((fr_planes f)[i := ?p])"
        using True "1.prems" by (intro wr_in) (simp add: partial_planes_def)
      note pu = partial_update [OF "1.prems"(1) True refl, of ?p]
      have wi: "world_inv ?w R (F + frame_fds ?f)"
        using dup_world_inv [OF "1.prems"(4) d] pu(2) by (auto split: if_splits)
      note step = dup_planes.simps [of dup_ok w f ps i n]
      show ?thesis
      proof (cases "fd < 0")
        case neg: True
        from wi have "world_inv ?w (\<lambda>b. R b + frame_refs ?f b) (F + frame_fds ?f)" using pu(1) by (simp add: partial_refs)
        from reset [OF partial_frame_ok [OF pu(1)] this] show ?thesis using True rp good d wr neg
          by (auto simp: step)
      next
        case pos: False
        have "dup_planes dup_ok w f ps i n = dup_planes dup_ok ?w ?f ps (i + 1) n"
          using True rp good d wr pos by (simp add: step)
        with "1.IH" [OF True rp good d [symmetric] refl refl wr refl pos] pu(1) wi True "1.prems"(3) show ?thesis by simp
      qed
    qed
  qed
qed

text \<open>The setters: on success the frame owns what it holds, on failure nothing has changed hands.\<close>

definition moved :: "(nat \<Rightarrow> nat) \<Rightarrow> int multiset \<Rightarrow> wd_frame \<Rightarrow> (bool \<times> world \<times> wd_frame) option \<Rightarrow> bool" where
  "moved R F f out \<longleftrightarrow>
     (\<exists>ok w' f'. out = Some (ok, w', f') \<and> frame_ok f' \<and> (\<not> ok \<longrightarrow> f' = f) \<and>
        world_inv w' (\<lambda>b. R b + frame_refs f' b) (F + frame_fds f'))"

lemma movedI_same: "\<lbrakk>out = Some (False, w', f); frame_ok f; world_inv w' (\<lambda>b. R b + frame_refs f b) (F + frame_fds f)\<rbrakk> \<Longrightarrow> moved R F f out"
  by (auto simp: moved_def)

lemma set_drm_moved:
  assumes f: "frame_ok f" "world_inv w (\<lambda>b. R b + frame_refs f b) (F + frame_fds f)"
    and ps: "\<And>l. ps = Some l \<Longrightarrow> unat n \<le> length l"
  shows "moved R F f (wd_frame_set_drm_prime_dup dup_ok w f width height fourcc pts ps n)"
proof (cases "ps = None \<or> width = 0 \<or> height = 0 \<or> n = 0 \<or> unat n > 4")
  case True
  then show ?thesis using f
    by (intro movedI_same [of _ w]) (auto simp: wd_frame_set_drm_prime_dup_def split: option.splits)
next
  case False
  then obtain l where l: "ps = Some l" by auto
  let ?t = "wd_frame_init\<lparr>fr_storage := WD_FRAME_STORAGE_DRM_PRIME, fr_width := width, fr_height := height,
    fr_fourcc := fourcc, fr_pts_usec := pts, fr_plane_count := n\<rparr>"
  have pt: "partial_planes ?t 0 (unat n)" using False by (auto simp: partial_planes_def wd_frame_init_def)
  have own: "frame_fds ?t = {#}" by (simp add: frame_fds_def wd_frame_init_def filter_empty_conv)
  from dup_planes_ok [OF pt _ ps [OF l], of w "\<lambda>b. R b + frame_refs f b" "F + frame_fds f" dup_ok] f(2) own obtain ok w' t' where
    d: "dup_planes dup_ok w ?t l 0 (unat n) = Some (ok, w', t')"
      "if ok then partial_planes t' (unat n) (unat n) \<and> world_inv w' (\<lambda>b. R b + frame_refs f b) (F + frame_fds f + frame_fds t')
       else world_inv w' (\<lambda>b. R b + frame_refs f b) (F + frame_fds f)" by auto
  note def = wd_frame_set_drm_prime_dup_def
  show ?thesis
  proof (cases ok)
    case False
    then show ?thesis using d f(1) l \<open>\<not> (ps = None \<or> _)\<close> by (intro movedI_same [of _ w']) (auto simp: def)
  next
    case True
    then have "world_inv w' (\<lambda>b. R b + frame_refs f b) ((F + frame_fds t') + frame_fds f)" using d(2) by (simp add: ac_simps)
    from reset_world_inv [OF f(1) this] obtain w2 where
      w2: "wd_frame_reset w' f = Some (w2, wd_frame_init)" "world_inv w2 R (F + frame_fds t')" by auto
    have pp: "partial_planes t' (unat n) (unat n)" using d(2) True by simp
    have "wd_frame_set_drm_prime_dup dup_ok w f width height fourcc pts ps n = Some (True, w2, t')"
      using d(1) w2(1) True l \<open>\<not> (ps = None \<or> _)\<close> by (simp add: def)
    then show ?thesis using w2(2) partial_frame_ok [OF pp] partial_refs [OF pp]
      unfolding moved_def by (intro exI [of _ True] exI [of _ w2] exI [of _ t']) simp
  qed
qed

lemma range_valid_some:
  assumes "\<And>x. b = Some x \<Longrightarrow> bh_buffers h x \<noteq> None"
  shows "\<exists>r. wd_frame_cpu_range_valid h b offset width height stride = Some r \<and> (r \<longrightarrow> b \<noteq> None)"
  using assms by (cases b) (auto simp: wd_frame_cpu_range_valid_def Let_def)

lemma set_cpu_moved:
  assumes f: "frame_ok f" "world_inv w (\<lambda>b. R b + frame_refs f b) (F + frame_fds f)"
    and b: "\<And>x. buf = Some x \<Longrightarrow> 0 < R x + frame_refs f x"
  shows "moved R F f (wd_frame_set_cpu_xrgb8888 w f buf offset width height stride fourcc pts)"
proof -
  note def = wd_frame_set_cpu_xrgb8888_def
  have "bh_buffers (wo_heap w) x \<noteq> None" if "buf = Some x" for x using world_inv_heap [OF f(2) b [OF that]] by auto
  from range_valid_some [OF this] obtain r where
    r: "wd_frame_cpu_range_valid (wo_heap w) buf offset width height stride = Some r" "r \<longrightarrow> buf \<noteq> None" by blast
  show ?thesis
  proof (cases r)
    case False
    then show ?thesis using r f by (intro movedI_same [of _ w]) (auto simp: def)
  next
    case True
    then obtain x where x: "buf = Some x" using r(2) by auto
    from retain_world_inv [OF f(2), of x] b [OF x] obtain h res where
      h: "wd_buffer_retain (Some x) (wo_heap w) = Some (res, h)"
        "res = None \<and> h = wo_heap w \<or> res = Some x \<and>
           world_inv (w\<lparr>wo_heap := h\<rparr>) (\<lambda>y. R y + frame_refs f y + (if y = x then 1 else 0)) (F + frame_fds f)" by auto
    show ?thesis
    proof (cases res)
      case None
      then show ?thesis using True r f x h by (intro movedI_same [of _ w]) (auto simp: def)
    next
      case (Some y)
      with h(2) have "world_inv (w\<lparr>wo_heap := h\<rparr>) (\<lambda>y. (R y + (if y = x then 1 else 0)) + frame_refs f y) (F + frame_fds f)"
        by (simp add: ac_simps)
      from reset_world_inv [OF f(1) this] obtain w2 where w2: "wd_frame_reset (w\<lparr>wo_heap := h\<rparr>) f = Some (w2, wd_frame_init)"
        "world_inv w2 (\<lambda>y. R y + (if y = x then 1 else 0)) F" by auto
      let ?f = "wd_frame_init\<lparr>fr_storage := WD_FRAME_STORAGE_CPU_XRGB8888, fr_width := width, fr_height := height,
        fr_fourcc := fourcc, fr_pts_usec := pts, fr_buffer := Some x, fr_offset := offset, fr_stride_bytes := stride\<rparr>"
      have "wd_frame_set_cpu_xrgb8888 w f buf offset width height stride fourcc pts = Some (True, w2, ?f)"
        using True r x h w2 Some by (auto simp: def)
      moreover have "frame_ok ?f" "frame_fds ?f = {#}" "frame_refs ?f y = (if y = x then 1 else 0)" for y
        by (auto simp: frame_ok_def frame_fds_def frame_refs_def)
      ultimately show ?thesis using w2(2) by (auto simp: moved_def)
    qed
  qed
qed

lemma clone_moved:
  assumes f: "frame_ok f" "world_inv w (\<lambda>b. R b + frame_refs f b) (F + frame_fds f)"
    and s: "frame_ok s" "\<And>x. frame_refs s x \<le> R x + frame_refs f x"
  shows "moved R F f (wd_frame_clone dup_ok w same f s)"
proof -
  have live: "0 < R x + frame_refs f x" if "fr_storage s = WD_FRAME_STORAGE_CPU_XRGB8888" "fr_buffer s = Some x" for x
  proof -
    have "frame_refs s x = 1" using that by (simp add: frame_refs_def)
    then show ?thesis using s(2) [of x] by linarith
  qed
  have "\<exists>ok. wd_frame_valid (wo_heap w) s = Some ok \<and>
      (ok \<longrightarrow> fr_storage s = WD_FRAME_STORAGE_CPU_XRGB8888 \<or> fr_storage s = WD_FRAME_STORAGE_DRM_PRIME \<and> unat (fr_plane_count s) \<le> 4)"
  proof (cases "fr_storage s = WD_FRAME_STORAGE_CPU_XRGB8888")
    case True
    have "bh_buffers (wo_heap w) x \<noteq> None" if "fr_buffer s = Some x" for x
      using world_inv_heap [OF f(2) live [OF True that]] by auto
    from range_valid_some [of "fr_buffer s" "wo_heap w" "fr_offset s" "fr_width s" "fr_height s" "fr_stride_bytes s"] this True
    show ?thesis by (auto simp: wd_frame_valid_def)
  qed (auto simp: wd_frame_valid_def)
  then obtain ok where ok: "wd_frame_valid (wo_heap w) s = Some ok"
    "ok \<longrightarrow> fr_storage s = WD_FRAME_STORAGE_CPU_XRGB8888 \<or> fr_storage s = WD_FRAME_STORAGE_DRM_PRIME \<and> unat (fr_plane_count s) \<le> 4" by blast
  show ?thesis
  proof (cases "same \<or> \<not> ok")
    case True
    then show ?thesis using f ok by (intro movedI_same [of _ w]) (auto simp: wd_frame_clone_def)
  next
    case go: False
    show ?thesis
    proof (cases "fr_storage s = WD_FRAME_STORAGE_CPU_XRGB8888")
      case True
      then show ?thesis using go ok set_cpu_moved [OF f, of "fr_buffer s"] live by (simp add: wd_frame_clone_def)
    next
      case False
      then have "unat (fr_plane_count s) \<le> length (fr_planes s)" using go ok s(1) by (auto simp: frame_ok_def)
      then show ?thesis using False go ok set_drm_moved [OF f, of "Some (fr_planes s)"] by (simp add: wd_frame_clone_def)
    qed
  qed
qed

section \<open>Any sequence of operations\<close>

datatype frame_op =
    Reset nat
  | Set_cpu nat "nat option" nat u32 u32 u32 u32 u64
  | Set_drm nat "nat \<Rightarrow> bool" u32 u32 u32 u64 "wd_frame_drm_plane list option" u32
  | Clone nat "nat \<Rightarrow> bool" nat

fun frame_apply :: "frame_op \<Rightarrow> wd_frame list \<times> world \<Rightarrow> (wd_frame list \<times> world) option" where
  "frame_apply (Reset i) (fs, w) = do { (w, f) \<leftarrow> wd_frame_reset w (fs ! i); Some (fs[i := f], w) }"
| "frame_apply (Set_cpu i b offset width height stride fourcc pts) (fs, w) =
     do { (ok, w, f) \<leftarrow> wd_frame_set_cpu_xrgb8888 w (fs ! i) b offset width height stride fourcc pts; Some (fs[i := f], w) }"
| "frame_apply (Set_drm i dup_ok width height fourcc pts ps n) (fs, w) =
     do { (ok, w, f) \<leftarrow> wd_frame_set_drm_prime_dup dup_ok w (fs ! i) width height fourcc pts ps n; Some (fs[i := f], w) }"
| "frame_apply (Clone i dup_ok j) (fs, w) =
     do { (ok, w, f) \<leftarrow> wd_frame_clone dup_ok w (i = j) (fs ! i) (fs ! j); Some (fs[i := f], w) }"

fun frame_run :: "frame_op list \<Rightarrow> wd_frame list \<times> world \<Rightarrow> (wd_frame list \<times> world) option" where
  "frame_run [] s = Some s"
| "frame_run (x # xs) s = do { s \<leftarrow> frame_apply x s; frame_run xs s }"

text \<open>The caller of an operation owns a reference to the buffer it passes, and passes as many planes as it says.\<close>

fun op_ok :: "nat \<Rightarrow> (nat \<Rightarrow> nat) \<Rightarrow> frame_op \<Rightarrow> bool" where
  "op_ok n ext (Reset i) \<longleftrightarrow> i < n"
| "op_ok n ext (Set_cpu i b offset width height stride fourcc pts) \<longleftrightarrow> i < n \<and> (\<forall>x. b = Some x \<longrightarrow> 0 < ext x)"
| "op_ok n ext (Set_drm i dup_ok width height fourcc pts ps k) \<longleftrightarrow> i < n \<and> (\<forall>l. ps = Some l \<longrightarrow> unat k \<le> length l)"
| "op_ok n ext (Clone i dup_ok j) \<longleftrightarrow> i < n \<and> j < n"

definition all_refs :: "(nat \<Rightarrow> nat) \<Rightarrow> wd_frame list \<Rightarrow> nat \<Rightarrow> nat" where
  "all_refs ext fs b = ext b + sum_list (map (\<lambda>f. frame_refs f b) fs)"

definition all_fds :: "int multiset \<Rightarrow> wd_frame list \<Rightarrow> int multiset" where
  "all_fds ext fs = ext + sum_list (map frame_fds fs)"

definition frames_inv :: "(nat \<Rightarrow> nat) \<Rightarrow> int multiset \<Rightarrow> wd_frame list \<times> world \<Rightarrow> bool" where
  "frames_inv ext fds s \<longleftrightarrow>
     list_all frame_ok (fst s) \<and> world_inv (snd s) (all_refs ext (fst s)) (all_fds fds (fst s))"

lemma split_slot:
  assumes "i < length fs"
  shows "all_refs ext (fs[i := f]) = (\<lambda>b. all_refs ext (fs[i := wd_frame_init]) b + frame_refs f b)"
    "all_fds fds (fs[i := f]) = all_fds fds (fs[i := wd_frame_init]) + frame_fds f"
  using assms by (simp_all add: all_refs_def all_fds_def upd_conv_take_nth_drop fun_eq_iff ac_simps)

lemma frames_inv_slot:
  assumes "frames_inv ext fds (fs, w)" "i < length fs"
  shows "frame_ok (fs ! i)"
    "world_inv w (\<lambda>b. all_refs ext (fs[i := wd_frame_init]) b + frame_refs (fs ! i) b)
       (all_fds fds (fs[i := wd_frame_init]) + frame_fds (fs ! i))"
  using assms split_slot(1) [OF assms(2), of ext "fs ! i"] split_slot(2) [OF assms(2), of fds "fs ! i"] by (simp_all add: frames_inv_def list_all_length)

lemma frames_inv_update:
  assumes "frames_inv ext fds (fs, w)" "i < length fs" "frame_ok f"
    "world_inv w' (\<lambda>b. all_refs ext (fs[i := wd_frame_init]) b + frame_refs f b)
       (all_fds fds (fs[i := wd_frame_init]) + frame_fds f)"
  shows "frames_inv ext fds (fs[i := f], w')"
  using assms split_slot(1) [OF assms(2), of ext f] split_slot(2) [OF assms(2), of fds f] by (simp add: frames_inv_def list_all_length nth_list_update)

lemma frame_apply_ok:
  assumes "frames_inv ext fds (fs, w)" "op_ok (length fs) ext x"
  shows "\<exists>fs' w'. frame_apply x (fs, w) = Some (fs', w') \<and> length fs' = length fs \<and> frames_inv ext fds (fs', w')"
proof -
  have go: "\<exists>fs' w'. (do { (ok, w, f) \<leftarrow> out; Some (fs[i := f], w) }) = Some (fs', w') \<and> length fs' = length fs \<and> frames_inv ext fds (fs', w')"
    if "moved (all_refs ext (fs[i := wd_frame_init])) (all_fds fds (fs[i := wd_frame_init])) (fs ! i) out" "i < length fs" for out i
  proof -
    from that(1) obtain ok w' f' where o: "out = Some (ok, w', f')" "frame_ok f'"
      "world_inv w' (\<lambda>b. all_refs ext (fs[i := wd_frame_init]) b + frame_refs f' b)
         (all_fds fds (fs[i := wd_frame_init]) + frame_fds f')" unfolding moved_def by blast
    show ?thesis using o(1) frames_inv_update [OF assms(1) that(2) o(2,3)] by simp
  qed
  show ?thesis
  proof (cases x)
    case (Reset i)
    with assms(2) have i: "i < length fs" by simp
    from reset_world_inv [OF frames_inv_slot [OF assms(1) i]] obtain w' where
      "wd_frame_reset w (fs ! i) = Some (w', wd_frame_init)"
      "world_inv w' (all_refs ext (fs[i := wd_frame_init])) (all_fds fds (fs[i := wd_frame_init]))" by blast
    then show ?thesis using Reset frames_inv_update [OF assms(1) i, of wd_frame_init w'] by simp
  next
    case (Set_cpu i b offset width height stride fourcc pts)
    with assms(2) have i: "i < length fs" and b: "\<And>x. b = Some x \<Longrightarrow> 0 < ext x" by auto
    have "0 < all_refs ext (fs[i := wd_frame_init]) x + frame_refs (fs ! i) x" if "b = Some x" for x
      using b [OF that] by (simp add: all_refs_def)
    from go [OF set_cpu_moved [OF frames_inv_slot [OF assms(1) i] this] i] show ?thesis using Set_cpu by simp
  next
    case (Set_drm i dup_ok width height fourcc pts ps k)
    with assms(2) have i: "i < length fs" and l: "\<And>l. ps = Some l \<Longrightarrow> unat k \<le> length l" by auto
    from go [OF set_drm_moved [OF frames_inv_slot [OF assms(1) i] l] i] show ?thesis using Set_drm by simp
  next
    case (Clone i dup_ok j)
    with assms(2) have i: "i < length fs" and j: "j < length fs" by auto
    have "frame_refs (fs ! j) b \<le> all_refs ext fs b" for b
      using member_le_sum_list [of "frame_refs (fs ! j) b" "map (\<lambda>f. frame_refs f b) fs"] j by (simp add: all_refs_def)
    then have "frame_refs (fs ! j) b \<le> all_refs ext (fs[i := wd_frame_init]) b + frame_refs (fs ! i) b" for b
      using split_slot(1) [OF i, of ext "fs ! i"] by (metis list_update_id)
    from go [OF clone_moved [OF frames_inv_slot [OF assms(1) i] frames_inv_slot(1) [OF assms(1) j] this] i] show ?thesis
      using Clone by simp
  qed
qed

lemma frame_run_ok:
  "\<lbrakk>frames_inv ext fds (fs, w); list_all (op_ok (length fs) ext) xs\<rbrakk> \<Longrightarrow>
   \<exists>fs' w'. frame_run xs (fs, w) = Some (fs', w') \<and> length fs' = length fs \<and> frames_inv ext fds (fs', w')"
proof (induction xs arbitrary: fs w)
  case (Cons x xs)
  from frame_apply_ok [OF Cons.prems(1), of x] Cons.prems(2) obtain fs1 w1 where
    "frame_apply x (fs, w) = Some (fs1, w1)" "length fs1 = length fs" "frames_inv ext fds (fs1, w1)" by auto
  with Cons.IH [of fs1 w1] Cons.prems(2) show ?case by simp
qed simp

lemma frame_run_append: "frame_run (xs @ ys) s = do { s \<leftarrow> frame_run xs s; frame_run ys s }"
  by (induction xs arbitrary: s) (auto split: Option.bind_splits)

lemma reset_all_ok:
  assumes "frames_inv ext fds (fs, w)" "n \<le> length fs"
  shows "\<exists>w'. frame_run (map Reset [0..<n]) (fs, w) = Some (replicate n wd_frame_init @ drop n fs, w')
     \<and> frames_inv ext fds (replicate n wd_frame_init @ drop n fs, w')"
  using assms(2)
proof (induction n)
  case 0
  then show ?case using assms(1) by simp
next
  case (Suc n)
  let ?fs = "replicate n wd_frame_init @ drop n fs"
  from Suc obtain w1 where w1: "frame_run (map Reset [0..<n]) (fs, w) = Some (?fs, w1)" "frames_inv ext fds (?fs, w1)" by auto
  have n: "n < length ?fs" using Suc.prems by simp
  from reset_world_inv [OF frames_inv_slot [OF w1(2) n]] obtain w2 where
    w2: "wd_frame_reset w1 (?fs ! n) = Some (w2, wd_frame_init)"
      "world_inv w2 (all_refs ext (?fs[n := wd_frame_init])) (all_fds fds (?fs[n := wd_frame_init]))" by blast
  have "?fs[n := wd_frame_init] = replicate (Suc n) wd_frame_init @ drop (Suc n) fs"
    using Suc.prems by (simp add: list_update_append Cons_nth_drop_Suc [symmetric] replicate_append_same del: replicate_Suc)
      (simp add: replicate_app_Cons_same)
  then show ?case using w1(1) w2 frames_inv_update [OF w1(2) n, of wd_frame_init w2]
    by (simp add: frame_run_append del: replicate_Suc)
qed

section \<open>The bytes of a frame\<close>

text \<open>The range check is exact, and it admits only frames whose every pixel lies in the buffer.\<close>

lemma cpu_range_valid_iff:
  assumes "bh_buffers h b = Some buf" "wb_size buf \<le> SIZE_MAX" "width \<noteq> 0" "height \<noteq> 0"
  shows "wd_frame_cpu_range_valid h (Some b) offset width height stride = Some True \<longleftrightarrow>
     unat width * 4 \<le> unat stride \<and> offset + unat (height - 1) * unat stride + unat width * 4 \<le> wb_size buf"
proof (cases "unat width * 4 > unat stride")
  case False
  have w: "0 < unat width" using assms(3) by (simp add: unat_gt_0)
  then have st: "0 < unat stride" using False by simp
  let ?row = "unat width * 4" and ?n = "unat (height - 1) * unat stride"
  have row: "?row \<le> SIZE_MAX" using False unat_u32_lt [of stride] by simp
  have guard: "unat (height - 1) > (SIZE_MAX - ?row) div unat stride \<longleftrightarrow> \<not> ?n \<le> SIZE_MAX - ?row"
    by (simp only: not_le [symmetric] less_eq_div_iff_mult_less_eq [OF st])
  have one: "?n = 0" if "\<not> height > 1"
  proof -
    have "unat height = 1" using that assms(4) by (simp add: word_less_nat_alt unat_eq_iff [of height])
    then have "height = 1" by (simp add: unat_eq_iff)
    then show ?thesis by simp
  qed
  define n row where "n = ?n" and "row = ?row"
  have "wd_frame_cpu_range_valid h (Some b) offset width height stride =
      (if height > 1 \<and> \<not> n \<le> SIZE_MAX - row then Some False
       else Some (offset \<le> wb_size buf \<and> n + row \<le> wb_size buf - offset))"
    using assms(1,3,4) False guard by (simp add: wd_frame_cpu_range_valid_def Let_def wd_buffer_size_def n_def row_def)
  moreover have "\<not> height > 1 \<Longrightarrow> n = 0" "row \<le> SIZE_MAX" "row \<le> unat stride" using one row False by (simp_all add: n_def row_def)
  ultimately show ?thesis unfolding n_def [symmetric] row_def [symmetric] using assms(2) by auto
qed (use assms in \<open>simp add: wd_frame_cpu_range_valid_def\<close>)

lemma cpu_pixel_in_buffer:
  assumes "bh_buffers h b = Some buf" "wb_size buf \<le> SIZE_MAX" "width \<noteq> 0" "height \<noteq> 0"
    and "wd_frame_cpu_range_valid h (Some b) offset width height stride = Some True"
    and "y < unat height" "x < unat width * 4"
  shows "offset + y * unat stride + x < wb_size buf"
proof -
  have "unat (height - 1) = unat height - 1" using assms(6) by (subst unat_sub_exact) simp_all
  then have "y * unat stride \<le> unat (height - 1) * unat stride" using assms(6) by (intro mult_right_mono) simp_all
  moreover have "offset + unat (height - 1) * unat stride + unat width * 4 \<le> wb_size buf"
    using cpu_range_valid_iff [OF assms(1-4), of offset stride] assms(5) by simp
  ultimately show ?thesis using assms(7) by linarith
qed

section \<open>Properties\<close>

text \<open>
  C10: Frames neither leak nor free twice. Start with empty frames, with buffers referenced only
  from outside and with the descriptors open outside. For every sequence of resets, setters
  and clones, with every outcome of duplication and every argument: no freed buffer is
  used, no descriptor is closed twice, the count of each buffer is the number of outside
  references plus the number of frames that hold it, and the open descriptors are the
  outside ones and those of the frames, each once. Resetting all frames brings back the
  initial counts and descriptors.
\<close>

theorem frames_do_not_leak:
  assumes "world_inv w ext fds" "list_all (op_ok n ext) xs"
  shows "\<exists>fs' w' w''. frame_run xs (replicate n wd_frame_init, w) = Some (fs', w') \<and>
     world_inv w' (\<lambda>b. ext b + sum_list (map (\<lambda>f. frame_refs f b) fs')) (fds + sum_list (map frame_fds fs')) \<and>
     frame_run (map Reset [0..<n]) (fs', w') = Some (replicate n wd_frame_init, w'') \<and> world_inv w'' ext fds"
proof -
  have "sum_list (replicate n {#}) = ({#} :: int multiset)" by (induction n) auto
  then have zero: "all_refs ext (replicate n wd_frame_init) = ext" "all_fds fds (replicate n wd_frame_init) = fds"
    by (simp_all add: all_refs_def all_fds_def fun_eq_iff sum_list_replicate)
  then have "frames_inv ext fds (replicate n wd_frame_init, w)"
    using assms(1) by (simp add: frames_inv_def list_all_length)
  from frame_run_ok [OF this, of xs] assms(2) obtain fs' w' where
    r: "frame_run xs (replicate n wd_frame_init, w) = Some (fs', w')" "length fs' = n" "frames_inv ext fds (fs', w')" by auto
  from reset_all_ok [OF r(3), of n] r(2) obtain w'' where
    r': "frame_run (map Reset [0..<n]) (fs', w') = Some (replicate n wd_frame_init, w'')"
      "frames_inv ext fds (replicate n wd_frame_init, w'')" by auto
  have "world_inv w' (all_refs ext fs') (all_fds fds fs')" "world_inv w'' ext fds"
    using r(3) r'(2) zero by (simp_all add: frames_inv_def)
  then show ?thesis using r(1) r'(1) by (auto simp: all_refs_def [abs_def] all_fds_def)
qed

theorem frames_do_not_leak_witness:
  "\<exists>fs' w' w''. frame_run
      [Set_drm 0 (\<lambda>_. True) 8 8 1 0 (Some [\<lparr>dp_fd = 5, dp_stride = 32, dp_offset = 0, dp_modifier = 0\<rparr>]) 1,
       Clone 1 (\<lambda>_. False) 0, Set_cpu 1 (Some 4) 0 2 2 8 1 7, Clone 0 (\<lambda>_. True) 1]
      (replicate 2 wd_frame_init,
       \<lparr>wo_heap = \<lparr>bh_buffers =
           [4 \<mapsto> \<lparr>wb_refs = 1, wb_data = None, wb_size = 16, wb_capacity = 16, wb_release = None, wb_inline_storage = True\<rparr>],
           bh_next = 5, bh_released = []\<rparr>, wo_fds = [0, 5]\<rparr>) = Some (fs', w') \<and>
     frame_run (map Reset [0..<2]) (fs', w') = Some (replicate 2 wd_frame_init, w'') \<and>
     world_inv w'' (\<lambda>b. if b = 4 then 1 else 0) {#0, 5#}"
proof -
  let ?w = "\<lparr>wo_heap = \<lparr>bh_buffers =
       [4 \<mapsto> \<lparr>wb_refs = 1, wb_data = None, wb_size = 16, wb_capacity = 16, wb_release = None, wb_inline_storage = True\<rparr>],
       bh_next = 5, bh_released = []\<rparr>, wo_fds = [0, 5]\<rparr>"
  let ?ext = "\<lambda>b :: nat. if b = 4 then 1 else 0 :: nat"
  have "world_inv ?w ?ext {#0, 5#}" by (auto simp: world_inv_def)
  moreover have "list_all (op_ok 2 ?ext)
      [Set_drm 0 (\<lambda>_. True) 8 8 1 0 (Some [\<lparr>dp_fd = 5, dp_stride = 32, dp_offset = 0, dp_modifier = 0\<rparr>]) 1,
       Clone 1 (\<lambda>_. False) 0, Set_cpu 1 (Some 4) 0 2 2 8 1 7, Clone 0 (\<lambda>_. True) 1]" by simp
  ultimately show ?thesis using frames_do_not_leak [of ?w ?ext "{#0, 5#}" 2] by blast
qed

end
