(* ===== verification/WD_Client_Ownership.thy ===== *)
theory WD_Client_Ownership
  imports WD_Prelude
begin

text \<open>
  Who owns the picture of the client, tiles or video. A packed word holds a local epoch and the
  owner, changed by compare-and-swap loops of several threads
  (\<open>src/src/client/stream_ownership.c\<close>); \<open>src/src/client/content_order.cpp\<close> orders the content
  epochs of the server and advances the local epoch with them. The session of
  \<open>src/src/client/client_session.c\<close> owns the descriptors of the channels.
\<close>

section \<open>The packed word\<close>

datatype wd_client_content_owner = WD_CLIENT_CONTENT_OWNER_TILES | WD_CLIENT_CONTENT_OWNER_VIDEO

fun owner_bit :: "wd_client_content_owner \<Rightarrow> u64" where
  "owner_bit WD_CLIENT_CONTENT_OWNER_TILES = 0"
| "owner_bit WD_CLIENT_CONTENT_OWNER_VIDEO = 1"

definition bit_owner :: "u64 \<Rightarrow> wd_client_content_owner" where
  "bit_owner packed = (if packed AND 1 = 0 then WD_CLIENT_CONTENT_OWNER_TILES else WD_CLIENT_CONTENT_OWNER_VIDEO)"

record wd_client_content_ownership_snapshot =
  os_epoch :: u64
  os_owner :: wd_client_content_owner

definition wd_client_stream_ownership_pack :: "u64 \<Rightarrow> wd_client_content_owner \<Rightarrow> u64" where
  "wd_client_stream_ownership_pack epoch owner = push_bit 1 epoch OR owner_bit owner"

definition wd_client_stream_ownership_init :: u64 where "wd_client_stream_ownership_init = 2"

definition wd_client_stream_ownership_snapshot :: "u64 \<Rightarrow> wd_client_content_ownership_snapshot" where
  "wd_client_stream_ownership_snapshot packed = \<lparr>os_epoch = drop_bit 1 packed, os_owner = bit_owner packed\<rparr>"

definition wd_client_stream_ownership_is_current :: "u64 \<Rightarrow> u64 \<Rightarrow> wd_client_content_owner \<Rightarrow> bool" where
  "wd_client_stream_ownership_is_current packed epoch owner \<longleftrightarrow>
     (let current = wd_client_stream_ownership_snapshot packed in os_epoch current = epoch \<and> os_owner current = owner)"

text \<open>One pass of the loops on the loaded word: the epoch to return and, unless the loop ends at once, the word to swap in.\<close>

definition wd_client_stream_ownership_transition_to :: "wd_client_content_owner \<Rightarrow> u64 \<Rightarrow> u64 \<times> u64 option" where
  "wd_client_stream_ownership_transition_to owner current =
     (if bit_owner current = owner then (drop_bit 1 current, None)
      else let next_epoch = drop_bit 1 current + 1 in (next_epoch, Some (wd_client_stream_ownership_pack next_epoch owner)))"

definition wd_client_stream_ownership_advance :: "wd_client_content_owner \<Rightarrow> u64 \<Rightarrow> u64 \<times> u64 option" where
  "wd_client_stream_ownership_advance owner current =
     (let next_epoch = drop_bit 1 current + 1 in (next_epoch, Some (wd_client_stream_ownership_pack next_epoch owner)))"

definition wd_client_stream_ownership_begin_video_stream :: "u64 \<Rightarrow> u64 \<times> u64 option" where
  "wd_client_stream_ownership_begin_video_stream = wd_client_stream_ownership_transition_to WD_CLIENT_CONTENT_OWNER_VIDEO"

definition wd_client_stream_ownership_end_video_stream :: "u64 \<Rightarrow> u64 \<times> u64 option" where
  "wd_client_stream_ownership_end_video_stream = wd_client_stream_ownership_transition_to WD_CLIENT_CONTENT_OWNER_TILES"

definition wd_client_stream_ownership_reset_to_video :: "u64 \<Rightarrow> u64 \<times> u64 option" where
  "wd_client_stream_ownership_reset_to_video = wd_client_stream_ownership_advance WD_CLIENT_CONTENT_OWNER_VIDEO"

definition wd_client_stream_ownership_reset_to_tiles :: "u64 \<Rightarrow> u64 \<times> u64 option" where
  "wd_client_stream_ownership_reset_to_tiles = wd_client_stream_ownership_advance WD_CLIENT_CONTENT_OWNER_TILES"

section \<open>Compare-and-swap loops\<close>

text \<open>
  A word shared by threads, each of which may be inside a loop with the word it last loaded.
  \<open>body op v\<close> is a pass of the loop of operation \<open>op\<close>. The swap is weak, and a failed one loads
  the word again. \<open>ca_writes\<close> counts the successful swaps.
\<close>

record ('w, 'op) cas_sys =
  ca_word :: 'w
  ca_loops :: "nat \<rightharpoonup> 'op \<times> 'w"
  ca_writes :: nat

inductive cas_step :: "('op \<Rightarrow> 'w \<Rightarrow> 'r \<times> 'w option) \<Rightarrow> ('w, 'op) cas_sys \<Rightarrow> ('w, 'op) cas_sys \<Rightarrow> bool" for body where
  load: "ca_loops s t = None \<Longrightarrow> cas_step body s (s\<lparr>ca_loops := (ca_loops s)(t \<mapsto> (op, ca_word s))\<rparr>)"
| leave: "\<lbrakk>ca_loops s t = Some (op, v); body op v = (r, None)\<rbrakk> \<Longrightarrow>
     cas_step body s (s\<lparr>ca_loops := (ca_loops s)(t := None)\<rparr>)"
| swap: "\<lbrakk>ca_loops s t = Some (op, v); body op v = (r, Some w); ca_word s = v\<rbrakk> \<Longrightarrow>
     cas_step body s (s\<lparr>ca_word := w, ca_loops := (ca_loops s)(t := None), ca_writes := Suc (ca_writes s)\<rparr>)"
| fail: "\<lbrakk>ca_loops s t = Some (op, v); body op v = (r, Some w)\<rbrakk> \<Longrightarrow>
     cas_step body s (s\<lparr>ca_loops := (ca_loops s)(t \<mapsto> (op, ca_word s))\<rparr>)"

definition cas_start :: "'w \<Rightarrow> ('w, 'op) cas_sys" where
  "cas_start w = \<lparr>ca_word = w, ca_loops = Map.empty, ca_writes = 0\<rparr>"

abbreviation cas_steps :: "('op \<Rightarrow> 'w \<Rightarrow> 'r \<times> 'w option) \<Rightarrow> ('w, 'op) cas_sys \<Rightarrow> ('w, 'op) cas_sys \<Rightarrow> bool" where
  "cas_steps body \<equiv> (cas_step body)\<^sup>*\<^sup>*"

text \<open>
  A word that every successful swap moves to the next of a sequence of stamps: then the stamp of
  the word counts the swaps, whatever the threads do.
\<close>

locale stamped_word =
  fixes body :: "'op \<Rightarrow> 'w \<Rightarrow> 'r \<times> 'w option" and stamp :: "'w \<Rightarrow> nat" and limit :: nat
  assumes swap_stamp: "\<lbrakk>body op v = (r, Some w); stamp v < limit\<rbrakk> \<Longrightarrow> stamp w = Suc (stamp v)"
begin

lemma stamp_counts:
  assumes "cas_steps body s s'" "stamp (ca_word s) + (ca_writes s' - ca_writes s) \<le> limit"
  shows "ca_writes s \<le> ca_writes s' \<and> stamp (ca_word s') = stamp (ca_word s) + (ca_writes s' - ca_writes s)
     \<and> (ca_writes s' = ca_writes s \<longrightarrow> ca_word s' = ca_word s)"
  using assms
proof (induction rule: rtranclp_induct)
  case (step y z)
  from step.hyps(2) have yz: "ca_writes z = ca_writes y \<and> ca_word z = ca_word y \<or>
      ca_writes z = Suc (ca_writes y) \<and> (\<exists>op r. body op (ca_word y) = (r, Some (ca_word z)))"
    by (cases rule: cas_step.cases) auto
  then have "stamp (ca_word s) + (ca_writes y - ca_writes s) \<le> limit" using step.prems by auto
  from step.IH [OF this] have y: "ca_writes s \<le> ca_writes y" "stamp (ca_word y) = stamp (ca_word s) + (ca_writes y - ca_writes s)"
    "ca_writes y = ca_writes s \<longrightarrow> ca_word y = ca_word s" by auto
  from yz show ?case
  proof
    assume w: "ca_writes z = Suc (ca_writes y) \<and> (\<exists>op r. body op (ca_word y) = (r, Some (ca_word z)))"
    then have "stamp (ca_word y) < limit" using step.prems y by auto
    with w swap_stamp have "stamp (ca_word z) = Suc (stamp (ca_word y))" by blast
    then show ?thesis using w y by auto
  qed (use y in auto)
qed simp

text \<open>No stamp comes back: a word seen twice has not been written in between.\<close>

lemma no_return:
  assumes "cas_steps body s s'" "stamp (ca_word s) + (ca_writes s' - ca_writes s) \<le> limit" "stamp (ca_word s') = stamp (ca_word s)"
  shows "ca_writes s' = ca_writes s \<and> ca_word s' = ca_word s"
  using stamp_counts [OF assms(1,2)] assms(3) by auto

end

datatype ownership_op = Begin_video | End_video | Reset_to_video | Reset_to_tiles

fun ownership_body :: "ownership_op \<Rightarrow> u64 \<Rightarrow> u64 \<times> u64 option" where
  "ownership_body Begin_video = wd_client_stream_ownership_begin_video_stream"
| "ownership_body End_video = wd_client_stream_ownership_end_video_stream"
| "ownership_body Reset_to_video = wd_client_stream_ownership_reset_to_video"
| "ownership_body Reset_to_tiles = wd_client_stream_ownership_reset_to_tiles"

definition epoch_stamp :: "u64 \<Rightarrow> nat" where "epoch_stamp w = unat (drop_bit 1 w)"

lemma owner_bit_small: "drop_bit 1 (owner_bit ow) = 0" "even (owner_bit ow) \<longleftrightarrow> ow = WD_CLIENT_CONTENT_OWNER_TILES"
  by (cases ow; simp)+

lemma pack_epoch:
  assumes "unat e < 2 ^ 63"
  shows "drop_bit 1 (wd_client_stream_ownership_pack e ow) = e"
proof -
  have "unat (push_bit 1 e) = 2 * unat e"
    using assms by (simp add: push_bit_eq_mult unat_word_ariths)
  then have "drop_bit 1 (push_bit 1 e) = e"
    by (simp add: drop_bit_eq_div unat_eq_iff unat_div)
  then show ?thesis by (simp only: wd_client_stream_ownership_pack_def drop_bit_or owner_bit_small or.right_neutral)
qed

lemma pack_owner: "bit_owner (wd_client_stream_ownership_pack e ow) = ow"
proof -
  have "w AND 1 = 0 \<longleftrightarrow> even w" for w :: u64 by (simp add: and_one_eq even_iff_mod_2_eq_zero)
  then show ?thesis
    by (cases ow) (simp_all add: wd_client_stream_ownership_pack_def bit_owner_def even_or_iff)
qed

lemma advance_stamp:
  assumes "epoch_stamp v < 2 ^ 63 - 1"
  shows "epoch_stamp (wd_client_stream_ownership_pack (drop_bit 1 v + 1) ow) = Suc (epoch_stamp v)"
proof -
  have "unat (drop_bit 1 v + 1) = unat (drop_bit 1 v) + 1"
    using assms unat_add_exact [of "drop_bit 1 v" 1] by (simp add: epoch_stamp_def)
  moreover from this have "unat (drop_bit 1 v + 1) < 2 ^ 63" using assms by (simp add: epoch_stamp_def)
  ultimately show ?thesis unfolding epoch_stamp_def by (simp only: pack_epoch Suc_eq_plus1)
qed

lemmas ownership_ops_defs =
  wd_client_stream_ownership_begin_video_stream_def wd_client_stream_ownership_end_video_stream_def
  wd_client_stream_ownership_reset_to_video_def wd_client_stream_ownership_reset_to_tiles_def
  wd_client_stream_ownership_transition_to_def wd_client_stream_ownership_advance_def

interpretation ownership_word: stamped_word ownership_body epoch_stamp "2 ^ 63 - 1"
proof
  fix op v r w
  assume b: "ownership_body op v = (r, Some w)" "epoch_stamp v < 2 ^ 63 - 1"
  then obtain ow where "w = wd_client_stream_ownership_pack (drop_bit 1 v + 1) ow"
    by (cases op) (auto simp: ownership_ops_defs Let_def split: if_splits)
  with advance_stamp [OF b(2)] show "epoch_stamp w = Suc (epoch_stamp v)" by simp
qed

section \<open>Content epochs of the server\<close>

datatype ClientContentEpochDecision = Stale | Current | Advanced

text \<open>
  The part of \<open>ClientState\<close> that the two functions use. The tiles, generations, queued pictures
  and telemetry are opaque entries; the mutexes make each call atomic.
\<close>

record content_state =
  co_remote_epoch :: u64
  co_remote_owner :: wd_client_content_owner
  co_dirty_tiles :: "nat list"
  co_dirty_rect_count :: nat
  co_present_generation :: "nat list"
  co_video_queue :: "nat list"
  co_video_frame_dirty :: bool
  co_dirty_epoch :: u64
  co_word :: u64
  co_tile_telemetry :: "nat option list"
  co_video_last_rx :: u64
  co_video_last_decoded :: u64
  co_video_last_presented :: u64
  co_tile_epoch_presented :: u64
  co_video_epoch_presented :: u64

definition reset_pending_content_locked :: "content_state \<Rightarrow> wd_client_content_owner \<Rightarrow> content_state" where
  "reset_pending_content_locked s owner =
     (let (local_epoch, w) =
        (if owner = WD_CLIENT_CONTENT_OWNER_VIDEO then wd_client_stream_ownership_reset_to_video (co_word s)
         else wd_client_stream_ownership_reset_to_tiles (co_word s))
      in s\<lparr>co_dirty_tiles := [], co_dirty_rect_count := 0,
           co_present_generation := map (\<lambda>_. 0) (co_present_generation s), co_video_queue := [],
           co_video_frame_dirty := False,
           co_word := (case w of Some x \<Rightarrow> x | None \<Rightarrow> co_word s), co_dirty_epoch := local_epoch\<rparr>)"

definition reset_present_telemetry :: "content_state \<Rightarrow> content_state" where
  "reset_present_telemetry s = s\<lparr>co_tile_telemetry := map (\<lambda>_. None) (co_tile_telemetry s)\<rparr>"

definition restart_frame_ids :: "content_state \<Rightarrow> wd_client_content_owner \<Rightarrow> content_state" where
  "restart_frame_ids s owner =
     (if owner = WD_CLIENT_CONTENT_OWNER_VIDEO
      then s\<lparr>co_video_last_rx := 0, co_video_last_decoded := 0, co_video_last_presented := 0\<rparr> else s)"

definition client_accept_content_epoch ::
    "content_state \<Rightarrow> u64 \<Rightarrow> wd_client_content_owner \<Rightarrow> ClientContentEpochDecision \<times> content_state" where
  "client_accept_content_epoch s content_epoch owner =
     (if content_epoch = 0 then (Stale, s)
      else if content_epoch < co_remote_epoch s \<or> content_epoch = co_remote_epoch s \<and> owner \<noteq> co_remote_owner s then (Stale, s)
      else if content_epoch = co_remote_epoch s then (Current, s)
      else
        let s = reset_present_telemetry (reset_pending_content_locked s owner);
            s = s\<lparr>co_remote_epoch := content_epoch, co_remote_owner := owner\<rparr>
        in (Advanced, restart_frame_ids s owner))"

definition client_reset_content_epoch ::
    "content_state \<Rightarrow> u64 \<Rightarrow> wd_client_content_owner \<Rightarrow> bool \<times> content_state" where
  "client_reset_content_epoch s content_epoch owner =
     (if content_epoch = 0 then (False, s)
      else
        let s = s\<lparr>co_tile_epoch_presented := 0, co_video_epoch_presented := 0\<rparr>;
            s = reset_present_telemetry (reset_pending_content_locked s owner);
            s = s\<lparr>co_remote_epoch := content_epoch, co_remote_owner := owner\<rparr>
        in (True, restart_frame_ids s owner))"

fun accept_run ::
    "(u64 \<times> wd_client_content_owner) list \<Rightarrow> content_state \<Rightarrow> ClientContentEpochDecision list \<times> content_state" where
  "accept_run [] s = ([], s)"
| "accept_run ((e, ow) # xs) s =
     (case client_accept_content_epoch s e ow of (d, s) \<Rightarrow> case accept_run xs s of (ds, s) \<Rightarrow> (d # ds, s))"

lemma reset_pending_fields:
  "co_remote_epoch (reset_pending_content_locked s ow) = co_remote_epoch s"
  "co_word (reset_pending_content_locked s ow) = wd_client_stream_ownership_pack (drop_bit 1 (co_word s) + 1) ow"
  "co_dirty_epoch (reset_pending_content_locked s ow) = drop_bit 1 (co_word s) + 1"
  "co_dirty_tiles (reset_pending_content_locked s ow) = []"
  "co_video_queue (reset_pending_content_locked s ow) = []"
  by (cases ow; simp add: reset_pending_content_locked_def ownership_ops_defs Let_def)+

lemma accept_cases:
  assumes "client_accept_content_epoch s e ow = (d, s')"
  shows "d = Stale \<and> s' = s \<or> d = Current \<and> s' = s \<and> e = co_remote_epoch s \<and> ow = co_remote_owner s
    \<or> d = Advanced \<and> co_remote_epoch s < e \<and> co_remote_epoch s' = e \<and> co_remote_owner s' = ow
      \<and> co_word s' = wd_client_stream_ownership_pack (drop_bit 1 (co_word s) + 1) ow
      \<and> co_dirty_epoch s' = drop_bit 1 (co_word s) + 1 \<and> co_dirty_tiles s' = [] \<and> co_video_queue s' = []"
  using assms reset_pending_fields [of s ow]
  by (auto simp: client_accept_content_epoch_def Let_def restart_frame_ids_def reset_present_telemetry_def not_less
      split: if_splits)

lemma length_accept_run: "accept_run xs s = (ds, s') \<Longrightarrow> length ds = length xs"
  by (induction xs s arbitrary: ds s' rule: accept_run.induct) (auto split: prod.splits)

lemma accept_run_later:
  "\<lbrakk>accept_run xs s = (ds, s'); j < length xs; ds ! j \<noteq> Stale\<rbrakk> \<Longrightarrow>
   co_remote_epoch s \<le> fst (xs ! j) \<and> (fst (xs ! j) = co_remote_epoch s \<longrightarrow> snd (xs ! j) = co_remote_owner s \<and> ds ! j = Current)"
proof (induction xs s arbitrary: ds s' j rule: accept_run.induct)
  case (2 e ow xs s)
  obtain d s1 where a: "client_accept_content_epoch s e ow = (d, s1)" by force
  obtain ds1 s2 where r: "accept_run xs s1 = (ds1, s2)" by force
  have ds: "ds = d # ds1" using "2.prems"(1) a r by simp
  note c = accept_cases [OF a]
  show ?case
  proof (cases j)
    case 0
    then show ?thesis using c ds "2.prems"(3) by auto
  next
    case (Suc j')
    then have IH: "co_remote_epoch s1 \<le> fst (xs ! j')" "fst (xs ! j') = co_remote_epoch s1 \<longrightarrow> snd (xs ! j') = co_remote_owner s1 \<and> ds1 ! j' = Current"
      using "2.IH" [OF a [symmetric] r, of j'] "2.prems" ds by auto
    show ?thesis using c IH Suc ds by auto
  qed
qed simp

section \<open>The session\<close>

datatype wd_client_session_phase =
    WD_CLIENT_SESSION_IDLE | WD_CLIENT_SESSION_CONNECTING | WD_CLIENT_SESSION_CONNECTED | WD_CLIENT_SESSION_STOPPING

record wd_client_session =
  cs_control_fd :: int
  cs_input_fd :: int
  cs_selection_fd :: int
  cs_video_fd :: int
  cs_audio_fd :: int
  cs_udp_fd :: int
  cs_phase :: wd_client_session_phase

definition wd_client_session_init :: wd_client_session where
  "wd_client_session_init =
     \<lparr>cs_control_fd = -1, cs_input_fd = -1, cs_selection_fd = -1, cs_video_fd = -1, cs_audio_fd = -1, cs_udp_fd = -1,
      cs_phase = WD_CLIENT_SESSION_IDLE\<rparr>"

definition wd_client_session_fds_closed :: "wd_client_session \<Rightarrow> bool" where
  "wd_client_session_fds_closed s \<longleftrightarrow>
     cs_control_fd s < 0 \<and> cs_input_fd s < 0 \<and> cs_selection_fd s < 0 \<and> cs_video_fd s < 0 \<and> cs_audio_fd s < 0 \<and> cs_udp_fd s < 0"

definition wd_client_session_begin_connect :: "wd_client_session \<Rightarrow> bool \<times> wd_client_session" where
  "wd_client_session_begin_connect s =
     (if cs_phase s \<noteq> WD_CLIENT_SESSION_IDLE \<or> \<not> wd_client_session_fds_closed s then (False, s)
      else (True, s\<lparr>cs_phase := WD_CLIENT_SESSION_CONNECTING\<rparr>))"

definition wd_client_session_mark_connected :: "wd_client_session \<Rightarrow> wd_client_session" where
  "wd_client_session_mark_connected s =
     (if cs_phase s = WD_CLIENT_SESSION_CONNECTING then s\<lparr>cs_phase := WD_CLIENT_SESSION_CONNECTED\<rparr> else s)"

definition wd_client_session_begin_shutdown :: "wd_client_session \<Rightarrow> bool \<times> wd_client_session" where
  "wd_client_session_begin_shutdown s =
     (if cs_phase s = WD_CLIENT_SESSION_STOPPING then (False, s) else (True, s\<lparr>cs_phase := WD_CLIENT_SESSION_STOPPING\<rparr>))"

text \<open>The descriptor after the call, and the descriptors passed to \<open>close\<close> or \<open>shutdown\<close>.\<close>

definition wd_client_session_close_fd :: "int \<Rightarrow> int \<times> int list" where
  "wd_client_session_close_fd fd = (if fd \<ge> 0 then (-1, [fd]) else (fd, []))"

definition wd_client_session_shutdown_fd :: "int \<Rightarrow> int list" where
  "wd_client_session_shutdown_fd fd = (if fd \<ge> 0 then [fd] else [])"

definition session_fds :: "wd_client_session \<Rightarrow> int list" where
  "session_fds s = [cs_control_fd s, cs_input_fd s, cs_selection_fd s, cs_video_fd s, cs_audio_fd s, cs_udp_fd s]"

definition wd_client_session_shutdown_open_fds :: "wd_client_session \<Rightarrow> int list" where
  "wd_client_session_shutdown_open_fds s = concat (map wd_client_session_shutdown_fd (session_fds s))"

definition wd_client_session_close_open_fds :: "wd_client_session \<Rightarrow> wd_client_session \<times> int list" where
  "wd_client_session_close_open_fds s =
     (let c = wd_client_session_close_fd in
      (s\<lparr>cs_control_fd := fst (c (cs_control_fd s)), cs_input_fd := fst (c (cs_input_fd s)),
         cs_selection_fd := fst (c (cs_selection_fd s)), cs_video_fd := fst (c (cs_video_fd s)),
         cs_audio_fd := fst (c (cs_audio_fd s)), cs_udp_fd := fst (c (cs_udp_fd s)), cs_phase := WD_CLIENT_SESSION_IDLE\<rparr>,
       concat (map (snd \<circ> c) (session_fds s))))"

lemma close_fd_simps [simp]:
  "fst (wd_client_session_close_fd fd) < 0" "\<not> 0 \<le> fst (wd_client_session_close_fd fd)" "snd (wd_client_session_close_fd fd) = filter (\<lambda>fd. 0 \<le> fd) [fd]"
  "fd < 0 \<Longrightarrow> fst (wd_client_session_close_fd fd) = fd"
  by (auto simp: wd_client_session_close_fd_def)

text \<open>Closing closes each open descriptor once and leaves a session that can connect again.\<close>

lemma close_open_fds_ok:
  assumes "wd_client_session_close_open_fds s = (s', closed)"
  shows "closed = filter (\<lambda>fd. 0 \<le> fd) (session_fds s)" "wd_client_session_fds_closed s'"
    "fst (wd_client_session_begin_connect s')" "wd_client_session_close_open_fds s' = (s', [])"
proof -
  note defs = wd_client_session_close_open_fds_def session_fds_def Let_def
  from assms show c: "closed = filter (\<lambda>fd. 0 \<le> fd) (session_fds s)" by (auto simp: defs)
  from assms show n: "wd_client_session_fds_closed s'" by (auto simp: defs wd_client_session_fds_closed_def)
  from assms n show "fst (wd_client_session_begin_connect s')" by (auto simp: defs wd_client_session_begin_connect_def)
  from assms show "wd_client_session_close_open_fds s' = (s', [])" by (auto simp: defs)
qed

section \<open>Properties\<close>

text \<open>
  C39: A snapshot of the content ownership, once overtaken, never looks current again. Threads
  run the compare-and-swap loops in any interleaving, with any spurious failures. If a snapshot
  is taken in one state and \<open>is_current\<close> accepts its epoch and owner in a later state, then the
  word has not been written in between, provided there were at most \<open>2\<^sup>6\<^sup>3 - 2\<close> writes
  altogether, so that the 63-bit epoch does not wrap around.
\<close>

theorem ownership_snapshot_never_returns:
  assumes "cas_steps ownership_body (cas_start wd_client_stream_ownership_init) s" "cas_steps ownership_body s s'"
    and "ca_writes s' \<le> 2 ^ 63 - 2"
    and "snap = wd_client_stream_ownership_snapshot (ca_word s)"
    and "wd_client_stream_ownership_is_current (ca_word s') (os_epoch snap) (os_owner snap)"
  shows "ca_writes s' = ca_writes s \<and> ca_word s' = ca_word s"
proof -
  have init: "epoch_stamp (ca_word (cas_start wd_client_stream_ownership_init :: (u64, ownership_op) cas_sys)) = 1"
    "ca_writes (cas_start wd_client_stream_ownership_init :: (u64, ownership_op) cas_sys) = 0"
    by (simp_all add: cas_start_def wd_client_stream_ownership_init_def epoch_stamp_def drop_bit_eq_div)
  have mono: "ca_writes s \<le> ca_writes s'" using assms(2)
    by (induction rule: rtranclp_induct) (auto elim!: cas_step.cases)
  from ownership_word.stamp_counts [OF assms(1)] init mono assms(3) have st: "epoch_stamp (ca_word s) = 1 + ca_writes s" by auto
  show ?thesis
  proof (rule ownership_word.no_return [OF assms(2)])
    show "epoch_stamp (ca_word s) + (ca_writes s' - ca_writes s) \<le> 2 ^ 63 - 1" using st mono assms(3) by auto
    show "epoch_stamp (ca_word s') = epoch_stamp (ca_word s)"
      using assms(4,5)
      by (simp add: wd_client_stream_ownership_is_current_def wd_client_stream_ownership_snapshot_def epoch_stamp_def Let_def)
  qed
qed

text \<open>
  C40: Content epochs are accepted in order. In every sequence of calls of
  \<open>client_accept_content_epoch\<close>, of the tile and the video thread in any order, the accepted
  epochs never decrease, an epoch has one owner, and a repetition of an accepted epoch is \<open>Current\<close>.
\<close>

theorem content_epochs_in_order:
  assumes "accept_run xs s = (ds, s')" "i < j" "j < length xs" "ds ! i \<noteq> Stale" "ds ! j \<noteq> Stale"
  shows "fst (xs ! i) \<le> fst (xs ! j) \<and> (fst (xs ! i) = fst (xs ! j) \<longrightarrow> snd (xs ! i) = snd (xs ! j) \<and> ds ! j = Current)"
  using assms
proof (induction xs s arbitrary: ds s' i j rule: accept_run.induct)
  case (2 e ow xs s)
  obtain d s1 where a: "client_accept_content_epoch s e ow = (d, s1)" by force
  obtain ds1 s2 where r: "accept_run xs s1 = (ds1, s2)" by force
  have ds: "ds = d # ds1" using "2.prems"(1) a r by simp
  from "2.prems"(2) obtain j' where j: "j = Suc j'" by (cases j) auto
  show ?case
  proof (cases i)
    case 0
    then have "co_remote_epoch s1 = e \<and> co_remote_owner s1 = ow" using accept_cases [OF a] ds "2.prems"(4) by auto
    with accept_run_later [OF r, of j'] show ?thesis using 0 j ds "2.prems"(3,5) by auto
  next
    case (Suc i')
    then show ?thesis using "2.IH" [OF a [symmetric] r, of i' j'] j ds "2.prems" by simp
  qed
qed simp

theorem content_epochs_in_order_witness:
  "\<exists>ds s'. accept_run [(3, WD_CLIENT_CONTENT_OWNER_VIDEO), (2, WD_CLIENT_CONTENT_OWNER_TILES), (3, WD_CLIENT_CONTENT_OWNER_VIDEO)]
       \<lparr>co_remote_epoch = 1, co_remote_owner = WD_CLIENT_CONTENT_OWNER_TILES, co_dirty_tiles = [4], co_dirty_rect_count = 1,
        co_present_generation = [9], co_video_queue = [], co_video_frame_dirty = False, co_dirty_epoch = 1, co_word = 2,
        co_tile_telemetry = [None], co_video_last_rx = 0, co_video_last_decoded = 0, co_video_last_presented = 0,
        co_tile_epoch_presented = 0, co_video_epoch_presented = 0\<rparr> = (ds, s') \<and> ds ! 0 \<noteq> Stale \<and> ds ! 2 = Current"
proof -
  let ?xs = "[(3, WD_CLIENT_CONTENT_OWNER_VIDEO), (2, WD_CLIENT_CONTENT_OWNER_TILES), (3, WD_CLIENT_CONTENT_OWNER_VIDEO)]"
  let ?s = "\<lparr>co_remote_epoch = 1, co_remote_owner = WD_CLIENT_CONTENT_OWNER_TILES, co_dirty_tiles = [4], co_dirty_rect_count = 1,
        co_present_generation = [9], co_video_queue = [], co_video_frame_dirty = False, co_dirty_epoch = 1, co_word = 2,
        co_tile_telemetry = [None], co_video_last_rx = 0, co_video_last_decoded = 0, co_video_last_presented = 0,
        co_tile_epoch_presented = 0, co_video_epoch_presented = 0\<rparr>"
  obtain ds s' where r: "accept_run ?xs ?s = (ds, s')" by force
  then have "fst (accept_run ?xs ?s) = ds" by simp
  moreover have "fst (accept_run ?xs ?s) = [Advanced, Stale, Current]" by code_simp
  ultimately have "ds = [Advanced, Stale, Current]" by simp
  with content_epochs_in_order [OF r, of 0 2] r show ?thesis by auto
qed

theorem ownership_snapshot_never_returns_witness:
  "\<exists>s s'. cas_steps ownership_body (cas_start wd_client_stream_ownership_init) s \<and> cas_steps ownership_body s s' \<and> s \<noteq> s'
     \<and> wd_client_stream_ownership_is_current (ca_word s') (os_epoch (wd_client_stream_ownership_snapshot (ca_word s)))
         (os_owner (wd_client_stream_ownership_snapshot (ca_word s))) \<and> ca_word s' = ca_word s"
proof -
  let ?s0 = "cas_start wd_client_stream_ownership_init :: (u64, ownership_op) cas_sys"
  let ?s1 = "?s0\<lparr>ca_loops := [0 \<mapsto> (Begin_video, ca_word ?s0)]\<rparr>"
  have "cas_step ownership_body ?s0 ?s1"
    using cas_step.load [of ?s0 0 ownership_body Begin_video] by (simp add: cas_start_def)
  then have st: "cas_steps ownership_body ?s0 ?s1" by (rule r_into_rtranclp)
  have cur: "wd_client_stream_ownership_is_current (ca_word ?s1) (os_epoch (wd_client_stream_ownership_snapshot (ca_word ?s0)))
         (os_owner (wd_client_stream_ownership_snapshot (ca_word ?s0)))"
    by (simp add: wd_client_stream_ownership_is_current_def Let_def)
  have "ca_writes ?s1 \<le> 2 ^ 63 - 2" by (simp add: cas_start_def)
  note same = ownership_snapshot_never_returns [OF rtranclp.rtrancl_refl st this refl cur]
  have "ca_loops ?s1 0 \<noteq> ca_loops ?s0 0" by (simp add: cas_start_def)
  then have "?s0 \<noteq> ?s1" by metis
  with same cur st show ?thesis by (intro exI [of _ ?s0] exI [of _ ?s1]) blast
qed

end
