(* ===== verification/WD_Client_Video.thy ===== *)
theory WD_Client_Video
  imports WD_Net WD_Validate WD_Bitstream WD_Client_Ownership
begin

text \<open>
  The path of a video packet in the client, from the receiving thread to the decoder:
  \<open>enqueue_video_message\<close> and the decode worker of \<open>src/src/client/client_net.cpp\<close>, with the
  policies they call (\<open>video_packet_validation.c\<close>, \<open>video_decode_queue_policy.c\<close>,
  \<open>video_transition.c\<close>) and the content order of \<open>WD_Client_Ownership\<close>.

  The decoder is a parameter: what it does with a packet is the outcome record \<open>decode_env\<close>,
  and what it is told is the log \<open>cv_log\<close>. The statistics counters other than the last
  presented frame are left out. \<open>handle_video_frame\<close> holds the decoder lock twice, so it is
  two steps here, between which other threads may reset the decoder.
\<close>

section \<open>Validation of a packet\<close>

datatype wd_client_video_packet_validation_result =
    WD_CLIENT_VIDEO_PACKET_VALID
  | WD_CLIENT_VIDEO_PACKET_INVALID_PAYLOAD
  | WD_CLIENT_VIDEO_PACKET_INVALID_IDENTITY
  | WD_CLIENT_VIDEO_PACKET_INVALID_GEOMETRY

record wd_client_video_packet_expectation =
  pe_session_id :: u8
  pe_connection_token :: u64
  pe_width :: u16
  pe_height :: u16
  pe_codec :: u32

abbreviation (input) WD_MAX_VIDEO_CODED_WIDTH :: u16 where "WD_MAX_VIDEO_CODED_WIDTH \<equiv> 4096"
abbreviation (input) WD_MAX_VIDEO_CODED_HEIGHT :: u16 where "WD_MAX_VIDEO_CODED_HEIGHT \<equiv> 2176"

text \<open>The result and the value left in \<open>control_frame\<close>.\<close>

definition wd_client_video_packet_validate ::
    "wd_video_frame_payload_header \<Rightarrow> u32 \<Rightarrow> wd_client_video_packet_expectation \<Rightarrow>
     wd_client_video_packet_validation_result \<times> bool" where
  "wd_client_video_packet_validate header payload_size expected =
     (if vf_codec header \<noteq> WD_VIDEO_CODEC_H265 \<and> vf_codec header \<noteq> WD_VIDEO_CODEC_H264 \<and> vf_codec header \<noteq> WD_VIDEO_CODEC_AV1
         \<or> \<not> wd_video_frame_payload_size_is_valid (Some header) payload_size
      then (WD_CLIENT_VIDEO_PACKET_INVALID_PAYLOAD, False)
      else
        let control = vf_flags header AND (WD_VIDEO_FRAME_END_OF_STREAM OR WD_VIDEO_FRAME_RESIZE) \<noteq> 0 in
        if vf_data_size header = 0 \<and> \<not> control then (WD_CLIENT_VIDEO_PACKET_INVALID_PAYLOAD, False)
        else if vf_session_id header \<noteq> pe_session_id expected \<or> vf_connection_token header \<noteq> pe_connection_token expected
        then (WD_CLIENT_VIDEO_PACKET_INVALID_IDENTITY, False)
        else if vf_codec header \<noteq> pe_codec expected then (WD_CLIENT_VIDEO_PACKET_INVALID_PAYLOAD, False)
        else if vf_coded_width header > WD_MAX_VIDEO_CODED_WIDTH \<or> vf_coded_height header > WD_MAX_VIDEO_CODED_HEIGHT
        then (WD_CLIENT_VIDEO_PACKET_INVALID_GEOMETRY, False)
        else if \<not> control \<and> (vf_width header \<noteq> pe_width expected \<or> vf_height header \<noteq> pe_height expected
                              \<or> vf_coded_width header < vf_width header \<or> vf_coded_height header < vf_height header)
        then (WD_CLIENT_VIDEO_PACKET_INVALID_GEOMETRY, False)
        else (WD_CLIENT_VIDEO_PACKET_VALID, control))"

section \<open>The decode queue policy\<close>

datatype wd_client_video_decode_queue_action =
    WD_CLIENT_VIDEO_DECODE_QUEUE_ENQUEUE
  | WD_CLIENT_VIDEO_DECODE_QUEUE_DROP_UNTIL_KEYFRAME
  | WD_CLIENT_VIDEO_DECODE_QUEUE_RECOVER_OVERFLOW

record wd_client_video_decode_queue_plan =
  qp_action :: wd_client_video_decode_queue_action
  qp_clear_queue :: bool
  qp_wait_for_keyframe :: bool
  qp_reset_decoder_before :: bool

definition wd_client_video_decode_queue_plan_compute ::
    "u32 \<Rightarrow> u32 \<Rightarrow> bool \<Rightarrow> bool \<Rightarrow> bool \<Rightarrow> wd_client_video_decode_queue_plan" where
  "wd_client_video_decode_queue_plan_compute queued_packets capacity waiting_for_keyframe keyframe control_frame =
     (let plan = \<lparr>qp_action = WD_CLIENT_VIDEO_DECODE_QUEUE_ENQUEUE, qp_clear_queue = False,
                  qp_wait_for_keyframe = waiting_for_keyframe, qp_reset_decoder_before = False\<rparr>
      in
      if capacity = 0 then
        plan\<lparr>qp_action := WD_CLIENT_VIDEO_DECODE_QUEUE_RECOVER_OVERFLOW, qp_clear_queue := (queued_packets \<noteq> 0),
             qp_wait_for_keyframe := True\<rparr>
      else if control_frame then plan\<lparr>qp_clear_queue := True, qp_wait_for_keyframe := True\<rparr>
      else if keyframe then
        plan\<lparr>qp_clear_queue := True, qp_wait_for_keyframe := False, qp_reset_decoder_before := waiting_for_keyframe\<rparr>
      else if waiting_for_keyframe then plan\<lparr>qp_action := WD_CLIENT_VIDEO_DECODE_QUEUE_DROP_UNTIL_KEYFRAME\<rparr>
      else if queued_packets \<ge> capacity then
        plan\<lparr>qp_action := WD_CLIENT_VIDEO_DECODE_QUEUE_RECOVER_OVERFLOW, qp_clear_queue := True, qp_wait_for_keyframe := True\<rparr>
      else plan)"

section \<open>Phases\<close>

datatype wd_client_video_phase =
    WD_CLIENT_VIDEO_PHASE_TILES | WD_CLIENT_VIDEO_PHASE_AWAITING_KEYFRAME | WD_CLIENT_VIDEO_PHASE_VIDEO

record wd_client_video_transition_decision =
  td_next_phase :: wd_client_video_phase
  td_reset_decoder :: bool
  td_accept_payload :: bool

text \<open>The check for a phase outside the enumeration never applies to the datatype.\<close>

definition wd_client_video_transition_decide ::
    "wd_client_video_phase \<Rightarrow> bool \<Rightarrow> bool \<Rightarrow> bool \<Rightarrow> bool \<Rightarrow> bool \<Rightarrow> wd_client_video_transition_decision" where
  "wd_client_video_transition_decide phase content_epoch_advanced end_of_stream resize keyframe has_payload =
     (let decision = \<lparr>td_next_phase = WD_CLIENT_VIDEO_PHASE_TILES, td_reset_decoder = False, td_accept_payload = False\<rparr> in
      if resize then
        decision\<lparr>td_next_phase := WD_CLIENT_VIDEO_PHASE_AWAITING_KEYFRAME, td_reset_decoder := (phase = WD_CLIENT_VIDEO_PHASE_VIDEO)\<rparr>
      else if end_of_stream then
        decision\<lparr>td_next_phase := WD_CLIENT_VIDEO_PHASE_TILES, td_reset_decoder := (phase \<noteq> WD_CLIENT_VIDEO_PHASE_TILES)\<rparr>
      else
        let decision = (if content_epoch_advanced
                        then decision\<lparr>td_reset_decoder := (phase \<noteq> WD_CLIENT_VIDEO_PHASE_AWAITING_KEYFRAME)\<rparr> else decision);
            phase = (if content_epoch_advanced then WD_CLIENT_VIDEO_PHASE_AWAITING_KEYFRAME else phase)
        in
        if \<not> has_payload then decision\<lparr>td_next_phase := phase\<rparr>
        else if phase \<noteq> WD_CLIENT_VIDEO_PHASE_VIDEO \<and> \<not> keyframe
        then decision\<lparr>td_next_phase := WD_CLIENT_VIDEO_PHASE_AWAITING_KEYFRAME\<rparr>
        else decision\<lparr>td_next_phase := WD_CLIENT_VIDEO_PHASE_VIDEO, td_accept_payload := True\<rparr>)"

section \<open>State\<close>

text \<open>
  A queued packet owns the buffer of its message: \<open>mp_buffer\<close> is the allocated block, with the
  padding behind the payload, and \<open>mp_buffer_size\<close> what \<open>wd_buffer_size\<close> returns for it.
\<close>

record client_media_packet =
  mp_message_type :: u16
  mp_buffer :: bytes
  mp_buffer_size :: nat
  mp_payload_size :: u32
  mp_reset_video_decoder_before :: bool
  mp_queued_ns :: u64

datatype decoder_call = Decoder_reset | Decoder_decode wd_video_frame_payload_header bytes

text \<open>A packet that \<open>handle_video_frame\<close> has accepted and not yet given to the decoder.\<close>

record pending_video =
  pv_header :: wd_video_frame_payload_header
  pv_data :: bytes
  pv_expect_fresh_keyframe :: bool

text \<open>The outcomes of the decoder and of publishing each decoded picture, for one packet.\<close>

record decode_env =
  de_configured :: bool
  de_decoded :: bool
  de_hwdecode_failed_auto :: bool
  de_reconfigured :: bool
  de_redecoded :: bool
  de_published :: "bool list"

record client_video =
  cv_expected :: wd_client_video_packet_expectation
  cv_content :: content_state
  cv_phase :: wd_client_video_phase
  cv_needs_keyframe :: bool
  cv_queue :: "client_media_packet list"
  cv_wait_keyframe :: bool
  cv_running :: bool
  cv_unavailable :: bool
  cv_pending :: "pending_video option"
  cv_log :: "decoder_call list"
  cv_feedback :: "u32 list"

abbreviation (input) WD_VIDEO_FEEDBACK_NEEDS_KEYFRAME :: u32 where "WD_VIDEO_FEEDBACK_NEEDS_KEYFRAME \<equiv> 1"
abbreviation (input) WD_VIDEO_FEEDBACK_DECODE_OVERLOAD :: u32 where "WD_VIDEO_FEEDBACK_DECODE_OVERLOAD \<equiv> 2"
abbreviation (input) WD_VIDEO_FEEDBACK_DECODE_FAILURE :: u32 where "WD_VIDEO_FEEDBACK_DECODE_FAILURE \<equiv> 4"
abbreviation (input) WD_VIDEO_FEEDBACK_PUBLISH_FAILURE :: u32 where "WD_VIDEO_FEEDBACK_PUBLISH_FAILURE \<equiv> 8"
abbreviation (input) CLIENT_VIDEO_DECODE_QUEUE_CAPACITY :: nat where "CLIENT_VIDEO_DECODE_QUEUE_CAPACITY \<equiv> 4"

section \<open>The receiving thread\<close>

definition video_packet_flags :: "wd_tcp_message \<Rightarrow> u16" where
  "video_packet_flags msg =
     (if tm_payload_size msg < 51 then 0
      else case tm_payload msg of None \<Rightarrow> 0 | Some bs \<Rightarrow> vf_flags (video_frame_header_decode bs))"

definition is_keyframe :: "u16 \<Rightarrow> bool" where
  "is_keyframe flags \<longleftrightarrow> flags AND WD_VIDEO_FRAME_KEYFRAME \<noteq> 0"

definition is_control :: "u16 \<Rightarrow> bool" where
  "is_control flags \<longleftrightarrow> flags AND (WD_VIDEO_FRAME_END_OF_STREAM OR WD_VIDEO_FRAME_RESIZE) \<noteq> 0"

text \<open>The check of a key frame that would end the wait, made before the queue is touched.\<close>

definition queued_keyframe_valid :: "wd_tcp_message \<Rightarrow> bool" where
  "queued_keyframe_valid msg \<longleftrightarrow>
     (case tm_payload msg of
        None \<Rightarrow> False
      | Some bs \<Rightarrow>
          tm_payload_size msg \<ge> 51 \<and>
          (let header = video_frame_header_decode bs in
           wd_video_frame_payload_size_is_valid (Some header) (tm_payload_size msg) \<and>
           wd_client_video_keyframe_validate (vf_codec header) (Some (drop 51 bs)) (vf_data_size header)
             = Some WD_CLIENT_VIDEO_KEYFRAME_VALID))"

text \<open>Returns the result and the new state; \<open>now\<close> is the clock read for \<open>queued_ns\<close>.\<close>

definition enqueue_video_message :: "u64 \<Rightarrow> wd_tcp_message \<Rightarrow> client_video \<Rightarrow> bool \<times> client_video" where
  "enqueue_video_message now msg st =
     (if \<not> cv_running st then (False, st)
      else
        let flags = video_packet_flags msg; keyframe = is_keyframe flags; control = is_control flags;
            depth = of_nat (min (length (cv_queue st)) 65535) :: u32
        in
        if cv_wait_keyframe st \<and> keyframe \<and> \<not> control \<and> \<not> queued_keyframe_valid msg
        then (True, st\<lparr>cv_feedback := cv_feedback st @ [WD_VIDEO_FEEDBACK_NEEDS_KEYFRAME]\<rparr>)
        else
          let plan = wd_client_video_decode_queue_plan_compute depth (of_nat CLIENT_VIDEO_DECODE_QUEUE_CAPACITY)
                       (cv_wait_keyframe st) keyframe control;
              st = (if qp_clear_queue plan then st\<lparr>cv_queue := []\<rparr> else st);
              st = st\<lparr>cv_wait_keyframe := qp_wait_for_keyframe plan\<rparr>
          in
          case qp_action plan of
            WD_CLIENT_VIDEO_DECODE_QUEUE_DROP_UNTIL_KEYFRAME \<Rightarrow> (True, st)
          | WD_CLIENT_VIDEO_DECODE_QUEUE_RECOVER_OVERFLOW \<Rightarrow>
              (True, st\<lparr>cv_feedback :=
                 cv_feedback st @ [WD_VIDEO_FEEDBACK_NEEDS_KEYFRAME OR WD_VIDEO_FEEDBACK_DECODE_OVERLOAD]\<rparr>)
          | WD_CLIENT_VIDEO_DECODE_QUEUE_ENQUEUE \<Rightarrow>
              case wd_tcp_message_take_buffer msg of
                (None, _) \<Rightarrow> (False, st)
              | (Some b, _) \<Rightarrow>
                  (True, st\<lparr>cv_queue := cv_queue st @
                     [\<lparr>mp_message_type = tm_message_type msg, mp_buffer = b,
                       mp_buffer_size = unat (tm_payload_size msg), mp_payload_size = tm_payload_size msg,
                       mp_reset_video_decoder_before = qp_reset_decoder_before plan, mp_queued_ns = now\<rparr>]\<rparr>))"

definition pop_media_packet :: "client_video \<Rightarrow> (client_media_packet \<times> client_video) option" where
  "pop_media_packet st =
     (if \<not> cv_running st then None
      else case cv_queue st of [] \<Rightarrow> None | p # ps \<Rightarrow> Some (p, st\<lparr>cv_queue := ps\<rparr>))"

definition request_client_media_workers_stop :: "client_video \<Rightarrow> client_video" where
  "request_client_media_workers_stop st = st\<lparr>cv_running := False, cv_queue := [], cv_wait_keyframe := False\<rparr>"

definition clear_video_decode_queue :: "client_video \<Rightarrow> client_video" where
  "clear_video_decode_queue st = st\<lparr>cv_queue := [], cv_wait_keyframe := False\<rparr>"

section \<open>The decode worker\<close>

definition client_video_decoder_reset :: "client_video \<Rightarrow> client_video" where
  "client_video_decoder_reset st = st\<lparr>cv_log := cv_log st @ [Decoder_reset]\<rparr>"

definition client_video_decoder_decode :: "wd_video_frame_payload_header \<Rightarrow> bytes \<Rightarrow> client_video \<Rightarrow> client_video" where
  "client_video_decoder_decode header data st = st\<lparr>cv_log := cv_log st @ [Decoder_decode header data]\<rparr>"

definition reset_video_decoder :: "wd_client_video_phase \<Rightarrow> client_video \<Rightarrow> client_video" where
  "reset_video_decoder next_phase st =
     (client_video_decoder_reset st)
       \<lparr>cv_needs_keyframe := (next_phase \<noteq> WD_CLIENT_VIDEO_PHASE_VIDEO), cv_phase := next_phase\<rparr>"

definition video_payload_to_packet ::
    "client_media_packet \<Rightarrow> client_video \<Rightarrow> client_video \<times> (wd_video_frame_payload_header \<times> bytes) option" where
  "video_payload_to_packet p st =
     (if mp_buffer_size p < unat (mp_payload_size p) \<or> mp_payload_size p < 51 then (st, None)
      else
        let header = video_frame_header_decode (mp_buffer p) in
        case wd_client_video_packet_validate header (mp_payload_size p) (cv_expected st) of
          (WD_CLIENT_VIDEO_PACKET_VALID, _) \<Rightarrow>
            (st, map_option (\<lambda>off. (header, drop off (mp_buffer p)))
                   (wd_video_frame_payload_data (Some (mp_buffer p)) (mp_payload_size p)))
        | (WD_CLIENT_VIDEO_PACKET_INVALID_GEOMETRY, _) \<Rightarrow>
            (reset_video_decoder WD_CLIENT_VIDEO_PHASE_AWAITING_KEYFRAME st, None)
        | _ \<Rightarrow> (st, None))"

text \<open>
  The part of \<open>handle_video_frame\<close> under the first lock: returns the decision and whether a
  fresh key frame is expected.
\<close>

definition video_transition_locked ::
    "wd_video_frame_payload_header \<Rightarrow> bool \<Rightarrow> client_video \<Rightarrow>
     wd_client_video_transition_decision \<times> bool \<times> client_video" where
  "video_transition_locked header advanced st =
     (let transition = wd_client_video_transition_decide (cv_phase st) advanced
            (vf_flags header AND WD_VIDEO_FRAME_END_OF_STREAM \<noteq> 0) (vf_flags header AND WD_VIDEO_FRAME_RESIZE \<noteq> 0)
            (is_keyframe (vf_flags header)) (vf_data_size header \<noteq> 0);
          expect = cv_needs_keyframe st \<or> cv_phase st \<noteq> WD_CLIENT_VIDEO_PHASE_VIDEO \<or> td_reset_decoder transition;
          st = (if td_reset_decoder transition then client_video_decoder_reset st else st)
      in (transition, expect,
          st\<lparr>cv_phase := td_next_phase transition,
             cv_needs_keyframe := (td_next_phase transition \<noteq> WD_CLIENT_VIDEO_PHASE_VIDEO)\<rparr>))"

text \<open>\<open>handle_video_frame\<close> up to the second lock.\<close>

definition handle_video_begin :: "client_media_packet \<Rightarrow> client_video \<Rightarrow> client_video" where
  "handle_video_begin p st =
     (case video_payload_to_packet p st of
        (st, None) \<Rightarrow> st
      | (st, Some (header, data)) \<Rightarrow>
          let end_of_stream = (vf_flags header AND WD_VIDEO_FRAME_END_OF_STREAM \<noteq> 0);
              content_owner = (if end_of_stream then WD_CLIENT_CONTENT_OWNER_TILES else WD_CLIENT_CONTENT_OWNER_VIDEO);
              (decision, content) = client_accept_content_epoch (cv_content st) (vf_content_epoch header) content_owner;
              st = st\<lparr>cv_content := content\<rparr>
          in
          if decision = Stale then st
          else
            let (transition, expect, st) =
                  video_transition_locked header (decision = Advanced \<and> content_owner = WD_CLIENT_CONTENT_OWNER_VIDEO) st;
                st = (if end_of_stream then st\<lparr>cv_unavailable := True\<rparr> else st);
                last_presented = co_video_last_presented (cv_content st)
            in
            if \<not> td_accept_payload transition then st
            else
              let restart = (last_presented \<noteq> 0 \<and> vf_frame_id header \<le> last_presented) in
              if restart \<and> \<not> is_keyframe (vf_flags header) then st
              else
                let st = (if restart then reset_video_decoder WD_CLIENT_VIDEO_PHASE_AWAITING_KEYFRAME st else st) in
                st\<lparr>cv_content := (cv_content st)\<lparr>co_video_last_rx := vf_frame_id header\<rparr>,
                   cv_pending := Some \<lparr>pv_header = header, pv_data = data, pv_expect_fresh_keyframe = expect\<rparr>\<rparr>)"

definition fail_video :: "u32 \<Rightarrow> client_video \<Rightarrow> client_video" where
  "fail_video flags st =
     (let st = reset_video_decoder WD_CLIENT_VIDEO_PHASE_AWAITING_KEYFRAME st
      in st\<lparr>cv_feedback := cv_feedback st @ [flags]\<rparr>)"

text \<open>The decoder called on a packet, with the retry in software, and the loop that publishes pictures.\<close>

definition decode_with_retry :: "decode_env \<Rightarrow> pending_video \<Rightarrow> client_video \<Rightarrow> bool \<times> client_video" where
  "decode_with_retry env v st =
     (let st = client_video_decoder_decode (pv_header v) (pv_data v) st in
      if \<not> de_decoded env \<and> de_hwdecode_failed_auto env then
        let st = client_video_decoder_reset st in
        if is_keyframe (vf_flags (pv_header v)) \<and> de_reconfigured env
        then (de_redecoded env, client_video_decoder_decode (pv_header v) (pv_data v) st)
        else (False, st)
      else (de_decoded env, st))"

fun publish_frames :: "bool list \<Rightarrow> bool \<Rightarrow> client_video \<Rightarrow> client_video" where
  "publish_frames [] published_frame st =
     (if \<not> published_frame then st else st\<lparr>cv_needs_keyframe := False, cv_phase := WD_CLIENT_VIDEO_PHASE_VIDEO\<rparr>)"
| "publish_frames (ok # oks) published_frame st =
     (if \<not> ok then fail_video (WD_VIDEO_FEEDBACK_NEEDS_KEYFRAME OR WD_VIDEO_FEEDBACK_PUBLISH_FAILURE) st
      else publish_frames oks True st)"

text \<open>\<open>handle_video_frame\<close> under the second lock.\<close>

definition handle_video_decode :: "decode_env \<Rightarrow> pending_video \<Rightarrow> client_video \<Rightarrow> client_video" where
  "handle_video_decode env v st =
     (let header = pv_header v; keyframe = is_keyframe (vf_flags header) in
      if cv_needs_keyframe st \<and> \<not> keyframe then st
      else if pv_expect_fresh_keyframe v \<and> keyframe \<and>
        wd_client_video_keyframe_validate (vf_codec header) (Some (pv_data v)) (vf_data_size header)
          \<noteq> Some WD_CLIENT_VIDEO_KEYFRAME_VALID
      then fail_video WD_VIDEO_FEEDBACK_NEEDS_KEYFRAME st
      else if \<not> de_configured env then
        st\<lparr>cv_needs_keyframe := True, cv_phase := WD_CLIENT_VIDEO_PHASE_AWAITING_KEYFRAME,
           cv_feedback := cv_feedback st @ [WD_VIDEO_FEEDBACK_NEEDS_KEYFRAME OR WD_VIDEO_FEEDBACK_DECODE_FAILURE]\<rparr>
      else
        case decode_with_retry env v st of
          (False, st) \<Rightarrow> fail_video (WD_VIDEO_FEEDBACK_NEEDS_KEYFRAME OR WD_VIDEO_FEEDBACK_DECODE_FAILURE) st
        | (True, st) \<Rightarrow> publish_frames (de_published env) False st)"

text \<open>One turn of the worker's loop up to the second lock.\<close>

definition client_video_decode_worker :: "client_video \<Rightarrow> client_video" where
  "client_video_decode_worker st =
     (case pop_media_packet st of
        None \<Rightarrow> st
      | Some (p, st) \<Rightarrow>
          let st = (if mp_reset_video_decoder_before p
                    then reset_video_decoder WD_CLIENT_VIDEO_PHASE_AWAITING_KEYFRAME st else st)
          in handle_video_begin p st)"

section \<open>The other threads\<close>

definition discard_pending_video_frame :: "client_video \<Rightarrow> client_video" where
  "discard_pending_video_frame st =
     (let co = cv_content st; (tile_epoch, w) = wd_client_stream_ownership_end_video_stream (co_word co);
          co = co\<lparr>co_word := (case w of Some x \<Rightarrow> x | None \<Rightarrow> co_word co), co_video_queue := [], co_video_frame_dirty := False\<rparr>;
          co = (if co_dirty_tiles co \<noteq> [] then co\<lparr>co_dirty_epoch := tile_epoch\<rparr> else co)
      in st\<lparr>cv_content := co\<rparr>)"

definition close_video_receive_channel :: "client_video \<Rightarrow> client_video" where
  "close_video_receive_channel st =
     (discard_pending_video_frame (reset_video_decoder WD_CLIENT_VIDEO_PHASE_TILES (clear_video_decode_queue st)))
       \<lparr>cv_unavailable := True\<rparr>"

text \<open>
  What the threads do, one atomic part at a time: a message is received, the worker takes a
  packet, the worker calls the decoder, a server configuration arrives that resets the decoder,
  the render thread applies it, a tile message is accepted, a picture is presented, the channel is closed, the
  workers are told to stop.
\<close>

datatype video_event =
    Receive_message u64 wd_tcp_message
  | Worker_takes
  | Worker_decodes decode_env
  | Config_update
  | Config_applied wd_client_video_packet_expectation
  | Tile_epoch u64
  | Presented u64
  | Channel_closed
  | Workers_stop

fun video_step :: "video_event \<Rightarrow> client_video \<Rightarrow> client_video" where
  "video_step (Receive_message now msg) st = snd (enqueue_video_message now msg st)"
| "video_step Worker_takes st = (case cv_pending st of None \<Rightarrow> client_video_decode_worker st | Some _ \<Rightarrow> st)"
| "video_step (Worker_decodes env) st =
     (case cv_pending st of None \<Rightarrow> st | Some v \<Rightarrow> handle_video_decode env v (st\<lparr>cv_pending := None\<rparr>))"
| "video_step Config_update st = reset_video_decoder WD_CLIENT_VIDEO_PHASE_AWAITING_KEYFRAME st"
| "video_step (Config_applied e) st = st\<lparr>cv_expected := e\<rparr>"
| "video_step (Tile_epoch e) st =
     st\<lparr>cv_content := snd (client_accept_content_epoch (cv_content st) e WD_CLIENT_CONTENT_OWNER_TILES)\<rparr>"
| "video_step (Presented i) st = st\<lparr>cv_content := (cv_content st)\<lparr>co_video_last_presented := i\<rparr>\<rparr>"
| "video_step Channel_closed st = close_video_receive_channel st"
| "video_step Workers_stop st = request_client_media_workers_stop st"

definition client_video_start :: "wd_client_video_packet_expectation \<Rightarrow> content_state \<Rightarrow> client_video" where
  "client_video_start e content =
     \<lparr>cv_expected = e, cv_content = content, cv_phase = WD_CLIENT_VIDEO_PHASE_TILES, cv_needs_keyframe = True,
      cv_queue = [], cv_wait_keyframe = False, cv_running = True, cv_unavailable = False, cv_pending = None,
      cv_log = [], cv_feedback = []\<rparr>"

abbreviation video_run :: "video_event list \<Rightarrow> client_video \<Rightarrow> client_video" where
  "video_run evs st \<equiv> fold video_step evs st"

section \<open>The decoder starts with a key frame\<close>

definition fresh :: "decoder_call list \<Rightarrow> bool" where
  "fresh cs \<longleftrightarrow> cs = [] \<or> last cs = Decoder_reset"

text \<open>Every packet decoded first after a reset, or first of all, is flagged as a key frame.\<close>

definition starts_with_keyframes :: "decoder_call list \<Rightarrow> bool" where
  "starts_with_keyframes cs \<longleftrightarrow>
     (\<forall>i<length cs. \<forall>h d. cs ! i = Decoder_decode h d \<and> fresh (take i cs) \<longrightarrow> is_keyframe (vf_flags h))"

lemma fresh_simps [simp]: "fresh []" "fresh (cs @ [Decoder_reset])" "\<not> fresh (cs @ [Decoder_decode h d])"
  by (simp_all add: fresh_def)

lemma starts_with_keyframes_nil [simp]: "starts_with_keyframes []"
  by (simp add: starts_with_keyframes_def)

lemma starts_with_keyframes_snoc:
  "starts_with_keyframes (cs @ [c]) \<longleftrightarrow>
     starts_with_keyframes cs \<and> (\<forall>h d. c = Decoder_decode h d \<and> fresh cs \<longrightarrow> is_keyframe (vf_flags h))"
  by (auto simp: starts_with_keyframes_def nth_append less_Suc_eq)

definition decoder_inv :: "client_video \<Rightarrow> bool" where
  "decoder_inv st \<longleftrightarrow>
     starts_with_keyframes (cv_log st) \<and> (cv_needs_keyframe st \<longleftrightarrow> cv_phase st \<noteq> WD_CLIENT_VIDEO_PHASE_VIDEO) \<and>
     (fresh (cv_log st) \<and> \<not> cv_needs_keyframe st \<longrightarrow>
        (\<exists>v. cv_pending st = Some v \<and> is_keyframe (vf_flags (pv_header v))))"

lemma reset_video_decoder_inv:
  "decoder_inv st \<Longrightarrow> ph \<noteq> WD_CLIENT_VIDEO_PHASE_VIDEO \<Longrightarrow> decoder_inv (reset_video_decoder ph st)"
  by (simp add: decoder_inv_def reset_video_decoder_def client_video_decoder_reset_def starts_with_keyframes_snoc)

lemma reset_video_decoder_pending [simp]: "cv_pending (reset_video_decoder ph st) = cv_pending st"
  by (simp add: reset_video_decoder_def client_video_decoder_reset_def)

lemma fail_video_inv: "starts_with_keyframes (cv_log st) \<Longrightarrow> decoder_inv (fail_video f st)"
  by (simp add: decoder_inv_def fail_video_def Let_def reset_video_decoder_def client_video_decoder_reset_def
      starts_with_keyframes_snoc)

lemma video_payload_to_packet_inv:
  "\<lbrakk>video_payload_to_packet p st = (st', r); decoder_inv st\<rbrakk> \<Longrightarrow> decoder_inv st' \<and> cv_pending st' = cv_pending st"
  by (auto simp: video_payload_to_packet_def Let_def reset_video_decoder_inv split: if_splits prod.splits
      wd_client_video_packet_validation_result.splits)

text \<open>After the first lock either the payload is refused, or it is a key frame, or the decoder is already running.\<close>

lemma video_transition_locked_inv:
  assumes t: "video_transition_locked h adv st = (t, ex, st')" and i: "decoder_inv st" and p: "cv_pending st = None"
  shows "starts_with_keyframes (cv_log st')" "cv_needs_keyframe st' \<longleftrightarrow> cv_phase st' \<noteq> WD_CLIENT_VIDEO_PHASE_VIDEO"
    "cv_pending st' = None" "\<not> td_accept_payload t \<Longrightarrow> fresh (cv_log st') \<Longrightarrow> cv_needs_keyframe st'"
    "\<not> is_keyframe (vf_flags h) \<Longrightarrow> fresh (cv_log st') \<Longrightarrow> cv_needs_keyframe st'"
  using t i p
  by (auto simp: video_transition_locked_def wd_client_video_transition_decide_def Let_def decoder_inv_def
      client_video_decoder_reset_def starts_with_keyframes_snoc split: if_splits)

lemma decoder_inv_frame [simp]:
  "decoder_inv (st\<lparr>cv_content := c\<rparr>) = decoder_inv st" "decoder_inv (st\<lparr>cv_unavailable := u\<rparr>) = decoder_inv st"
  "decoder_inv (st\<lparr>cv_queue := q\<rparr>) = decoder_inv st" "decoder_inv (st\<lparr>cv_wait_keyframe := w\<rparr>) = decoder_inv st"
  "decoder_inv (st\<lparr>cv_running := r\<rparr>) = decoder_inv st" "decoder_inv (st\<lparr>cv_feedback := f\<rparr>) = decoder_inv st"
  "decoder_inv (st\<lparr>cv_expected := e\<rparr>) = decoder_inv st"
  by (simp_all add: decoder_inv_def)

lemma handle_video_begin_inv:
  assumes i: "decoder_inv st" and p: "cv_pending st = None"
  shows "decoder_inv (handle_video_begin pkt st)"
proof -
  obtain st1 r where v: "video_payload_to_packet pkt st = (st1, r)" by force
  have st1: "decoder_inv st1" "cv_pending st1 = None" using video_payload_to_packet_inv [OF v i] p by auto
  show ?thesis
  proof (cases r)
    case None
    then show ?thesis using v st1 by (simp add: handle_video_begin_def)
  next
    case (Some hd)
    obtain h d where hd: "hd = (h, d)" by force
    let ?ow = "if vf_flags h AND 8 \<noteq> 0 then WD_CLIENT_CONTENT_OWNER_TILES else WD_CLIENT_CONTENT_OWNER_VIDEO"
    obtain dec co where a: "client_accept_content_epoch (cv_content st1) (vf_content_epoch h) ?ow = (dec, co)" by force
    let ?st2 = "st1\<lparr>cv_content := co\<rparr>"
    obtain t ex st3 where t: "video_transition_locked h (dec = Advanced \<and> ?ow = WD_CLIENT_CONTENT_OWNER_VIDEO) ?st2 = (t, ex, st3)"
      by (metis prod_cases3)
    note tl = video_transition_locked_inv [OF t]
    show ?thesis using v st1 Some hd a t tl
      by (auto simp: handle_video_begin_def Let_def decoder_inv_def reset_video_decoder_def client_video_decoder_reset_def
          starts_with_keyframes_snoc)
  qed
qed

lemma decode_with_retry_log:
  assumes "decode_with_retry env v st = (ok, st')" "starts_with_keyframes (cv_log st)"
    "fresh (cv_log st) \<Longrightarrow> is_keyframe (vf_flags (pv_header v))"
  shows "starts_with_keyframes (cv_log st')" "ok \<Longrightarrow> \<not> fresh (cv_log st')"
    "cv_needs_keyframe st' = cv_needs_keyframe st" "cv_phase st' = cv_phase st"
  using assms
  by (auto simp: decode_with_retry_def Let_def client_video_decoder_decode_def client_video_decoder_reset_def
      starts_with_keyframes_snoc simp del: append_assoc split: if_splits)

lemma decoder_inv_running:
  "\<lbrakk>starts_with_keyframes (cv_log st); \<not> fresh (cv_log st);
    cv_needs_keyframe st \<longleftrightarrow> cv_phase st \<noteq> WD_CLIENT_VIDEO_PHASE_VIDEO\<rbrakk> \<Longrightarrow> decoder_inv st"
  by (simp add: decoder_inv_def)

lemma decoder_inv_waiting:
  "\<lbrakk>starts_with_keyframes (cv_log st); cv_needs_keyframe st; cv_phase st \<noteq> WD_CLIENT_VIDEO_PHASE_VIDEO\<rbrakk> \<Longrightarrow> decoder_inv st"
  by (simp add: decoder_inv_def)

lemma publish_frames_inv:
  "\<lbrakk>starts_with_keyframes (cv_log st); \<not> fresh (cv_log st);
    cv_needs_keyframe st \<longleftrightarrow> cv_phase st \<noteq> WD_CLIENT_VIDEO_PHASE_VIDEO\<rbrakk> \<Longrightarrow> decoder_inv (publish_frames oks pub st)"
  by (induction oks pub st rule: publish_frames.induct) (auto simp: fail_video_inv intro!: decoder_inv_running)

lemma handle_video_decode_inv:
  assumes i: "decoder_inv st" and p: "cv_pending st = Some v"
  shows "decoder_inv (handle_video_decode env v (st\<lparr>cv_pending := None\<rparr>))"
proof -
  let ?st = "st\<lparr>cv_pending := None\<rparr>"
  have k: "is_keyframe (vf_flags (pv_header v))" if "fresh (cv_log st)" "\<not> cv_needs_keyframe st"
    using i p that by (auto simp: decoder_inv_def)
  have s: "starts_with_keyframes (cv_log ?st)" and n: "cv_needs_keyframe ?st \<longleftrightarrow> cv_phase ?st \<noteq> WD_CLIENT_VIDEO_PHASE_VIDEO"
    using i by (auto simp: decoder_inv_def)
  obtain ok st' where d: "decode_with_retry env v ?st = (ok, st')" by force
  note dl = decode_with_retry_log [OF d s]
  show ?thesis
  proof (cases "cv_needs_keyframe st \<and> \<not> is_keyframe (vf_flags (pv_header v))")
    case True
    then show ?thesis using s n by (simp add: handle_video_decode_def Let_def decoder_inv_def)
  next
    case False
    then have fr: "fresh (cv_log ?st) \<Longrightarrow> is_keyframe (vf_flags (pv_header v))" using k by auto
    have "decoder_inv (fail_video f ?st)" "decoder_inv (fail_video f st')" for f using s dl(1) [OF fr] by (auto intro: fail_video_inv)
    moreover have "decoder_inv (publish_frames oks pub st')" if ok for oks pub
      using publish_frames_inv [of st'] dl [OF fr] n that by simp
    moreover have "decoder_inv (?st\<lparr>cv_needs_keyframe := True, cv_phase := WD_CLIENT_VIDEO_PHASE_AWAITING_KEYFRAME\<rparr>)"
      using s by (simp add: decoder_inv_waiting)
    ultimately show ?thesis using False d by (cases ok) (auto simp: handle_video_decode_def Let_def)
  qed
qed

lemma enqueue_video_message_inv: "decoder_inv st \<Longrightarrow> decoder_inv (snd (enqueue_video_message now msg st))"
  by (auto simp: enqueue_video_message_def Let_def split: wd_client_video_decode_queue_action.splits prod.splits option.splits)

lemma client_video_decode_worker_inv:
  assumes i: "decoder_inv st" and p: "cv_pending st = None"
  shows "decoder_inv (client_video_decode_worker st)"
proof (cases "pop_media_packet st")
  case None
  then show ?thesis using i by (simp add: client_video_decode_worker_def)
next
  case (Some r)
  then obtain pkt ps where "r = (pkt, st\<lparr>cv_queue := ps\<rparr>)" by (auto simp: pop_media_packet_def split: if_splits list.splits)
  then show ?thesis using i p Some
    by (auto simp: client_video_decode_worker_def Let_def intro!: handle_video_begin_inv reset_video_decoder_inv)
qed

lemma video_step_inv: "decoder_inv st \<Longrightarrow> decoder_inv (video_step ev st)"
proof (induction ev st rule: video_step.induct)
  case (2 st)
  then show ?case by (auto simp: client_video_decode_worker_inv split: option.splits)
next
  case (3 env st)
  then show ?case by (auto simp: handle_video_decode_inv split: option.splits)
next
  case (8 st)
  then show ?case
    by (simp add: close_video_receive_channel_def discard_pending_video_frame_def Let_def clear_video_decode_queue_def
        reset_video_decoder_inv split: prod.splits)
qed (simp_all add: enqueue_video_message_inv reset_video_decoder_inv request_client_media_workers_stop_def)

lemma video_run_inv: "decoder_inv st \<Longrightarrow> decoder_inv (video_run evs st)"
  by (induction evs arbitrary: st) (simp_all add: video_step_inv)


section \<open>The packets the worker takes\<close>

fun taken :: "video_event list \<Rightarrow> client_video \<Rightarrow> client_media_packet list" where
  "taken [] st = []"
| "taken (ev # evs) st =
     (if ev = Worker_takes \<and> cv_pending st = None
      then (case pop_media_packet st of None \<Rightarrow> [] | Some (p, _) \<Rightarrow> [p]) else []) @ taken evs (video_step ev st)"

fun received :: "video_event list \<Rightarrow> (u64 \<times> wd_tcp_message) list" where
  "received [] = []"
| "received (Receive_message now msg # evs) = (now, msg) # received evs"
| "received (_ # evs) = received evs"

text \<open>The packet that holds the payload of a message received at a given time.\<close>

definition carries :: "client_media_packet \<Rightarrow> u64 \<times> wd_tcp_message \<Rightarrow> bool" where
  "carries p m \<longleftrightarrow> mp_queued_ns p = fst m \<and> tm_payload (snd m) = Some (mp_buffer p) \<and> tm_payload_size (snd m) = mp_payload_size p"

definition is_delta :: "client_media_packet \<Rightarrow> bool" where
  "is_delta p \<longleftrightarrow> mp_payload_size p < 51 \<or>
     \<not> is_keyframe (vf_flags (video_frame_header_decode (mp_buffer p))) \<and>
     \<not> is_control (vf_flags (video_frame_header_decode (mp_buffer p)))"

text \<open>A delta packet directly follows, in the order of arrival, the packet before it.\<close>

definition gap_free :: "(u64 \<times> wd_tcp_message) list \<Rightarrow> client_media_packet list \<Rightarrow> bool" where
  "gap_free ms ps \<longleftrightarrow>
     (\<forall>i. Suc i < length ps \<and> is_delta (ps ! Suc i) \<longrightarrow>
        (\<exists>k. Suc k < length ms \<and> carries (ps ! i) (ms ! k) \<and> carries (ps ! Suc i) (ms ! Suc k)))"

fun stays_open :: "video_event \<Rightarrow> bool" where
  "stays_open (Receive_message now msg) \<longleftrightarrow> tm_payload msg \<noteq> None"
| "stays_open Channel_closed \<longleftrightarrow> False"
| "stays_open Workers_stop \<longleftrightarrow> False"
| "stays_open _ \<longleftrightarrow> True"

lemma gap_free_nil [simp]: "gap_free ms []" by (simp add: gap_free_def)

lemma gap_free_more_messages: "gap_free ms ps \<Longrightarrow> gap_free (ms @ [m]) ps"
  unfolding gap_free_def by (metis Suc_lessD append_Cons length_append_singleton less_SucI nth_append)

lemma gap_free_snoc:
  assumes "gap_free ms ps" "is_delta p \<Longrightarrow> ps \<noteq> [] \<Longrightarrow> ms \<noteq> [] \<and> carries (last ps) (last ms) \<and> carries p m"
  shows "gap_free (ms @ [m]) (ps @ [p])"
  unfolding gap_free_def
proof (intro allI impI, elim conjE)
  fix i assume i: "Suc i < length (ps @ [p])" "is_delta ((ps @ [p]) ! Suc i)"
  show "\<exists>k. Suc k < length (ms @ [m]) \<and> carries ((ps @ [p]) ! i) ((ms @ [m]) ! k) \<and> carries ((ps @ [p]) ! Suc i) ((ms @ [m]) ! Suc k)"
  proof (cases "Suc i < length ps")
    case True
    then show ?thesis using gap_free_more_messages [OF assms(1), of m] i by (auto simp: gap_free_def nth_append)
  next
    case False
    then have e: "Suc i = length ps" "ps \<noteq> []" using i by auto
    then have "ms \<noteq> [] \<and> carries (last ps) (last ms) \<and> carries p m" using assms(2) i by (simp add: nth_append)
    moreover have "(ps @ [p]) ! i = last ps" using e by (metis last_conv_nth lessI nth_append diff_Suc_1)
    ultimately show ?thesis using e
      by (intro exI [of _ "length ms - 1"]) (auto simp: nth_append last_conv_nth)
  qed
qed

lemma gap_free_prefix: "gap_free ms (ps @ qs) \<Longrightarrow> gap_free ms ps"
  unfolding gap_free_def by (metis Suc_lessD length_append nth_append trans_less_add1)

definition queue_inv :: "(u64 \<times> wd_tcp_message) list \<Rightarrow> client_media_packet list \<Rightarrow> client_video \<Rightarrow> bool" where
  "queue_inv ms ps st \<longleftrightarrow>
     cv_running st \<and> length (cv_queue st) \<le> 4 \<and> gap_free ms (ps @ cv_queue st) \<and> (ms = [] \<longrightarrow> ps @ cv_queue st = []) \<and>
     (\<not> cv_wait_keyframe st \<and> ms \<noteq> [] \<longrightarrow> ps @ cv_queue st \<noteq> [] \<and> carries (last (ps @ cv_queue st)) (last ms))"

text \<open>What \<open>enqueue_video_message\<close> does to the queue, case by case.\<close>

lemma enqueue_cases:
  fixes st :: client_video and now :: u64
  assumes "cv_running st" "length (cv_queue st) \<le> 4" "tm_payload msg = Some b"
  defines "st' \<equiv> snd (enqueue_video_message now msg st)"
  shows "cv_running st' \<and>
     (cv_wait_keyframe st' \<and> (cv_queue st' = cv_queue st \<or> cv_queue st' = [])
    \<or> (\<exists>p. carries p (now, msg) \<and> \<not> is_delta p \<and> cv_queue st' = [p])
    \<or> (\<exists>p. carries p (now, msg) \<and> \<not> cv_wait_keyframe st \<and> \<not> cv_wait_keyframe st' \<and> length (cv_queue st) < 4 \<and>
         cv_queue st' = cv_queue st @ [p]))"
proof -
  let ?fl = "video_packet_flags msg"
  let ?p = "\<lambda>r. \<lparr>mp_message_type = tm_message_type msg, mp_buffer = b, mp_buffer_size = unat (tm_payload_size msg),
    mp_payload_size = tm_payload_size msg, mp_reset_video_decoder_before = r, mp_queued_ns = now\<rparr>"
  have c: "carries (?p r) (now, msg)" for r using assms(3) by (simp add: carries_def)
  have d: "is_delta (?p r) \<longleftrightarrow> \<not> is_keyframe ?fl \<and> \<not> is_control ?fl" for r
    using assms(3) by (auto simp: is_delta_def video_packet_flags_def is_keyframe_def is_control_def)
  have depth: "(4 :: u32) \<le> of_nat (min (length (cv_queue st)) 65535) \<longleftrightarrow> 4 \<le> length (cv_queue st)"
    using assms(2) by (auto simp: word_le_nat_alt unat_of_nat)
  show ?thesis unfolding st'_def using assms(1,3) c d depth
    by (auto simp: enqueue_video_message_def wd_client_video_decode_queue_plan_compute_def Let_def
        wd_tcp_message_take_buffer_def not_le)
qed

lemma enqueue_queue_inv:
  assumes i: "queue_inv ms ps st" and b: "tm_payload msg \<noteq> None"
  shows "queue_inv (ms @ [(now, msg)]) ps (snd (enqueue_video_message now msg st))"
proof -
  let ?st' = "snd (enqueue_video_message now msg st)"
  obtain b where b: "tm_payload msg = Some b" using b by blast
  note iv = i [unfolded queue_inv_def]
  have gp: "gap_free ms ps" using iv by (blast intro: gap_free_prefix)
  consider (dropped) "cv_wait_keyframe ?st'" "cv_queue ?st' = cv_queue st \<or> cv_queue ?st' = []"
    | (restart) p where "carries p (now, msg)" "\<not> is_delta p" "cv_queue ?st' = [p]"
    | (added) p where "carries p (now, msg)" "\<not> cv_wait_keyframe st" "\<not> cv_wait_keyframe ?st'" "length (cv_queue st) < 4"
        "cv_queue ?st' = cv_queue st @ [p]"
    using enqueue_cases [of st msg b now] iv b by blast
  moreover have r: "cv_running ?st'" using enqueue_cases [of st msg b now] iv b by blast
  ultimately show ?thesis
  proof cases
    case dropped
    then show ?thesis using iv gp r by (auto simp: queue_inv_def gap_free_more_messages)
  next
    case (restart p)
    then show ?thesis using gap_free_snoc [OF gp, of p "(now, msg)"] r by (auto simp: queue_inv_def)
  next
    case (added p)
    have "gap_free (ms @ [(now, msg)]) ((ps @ cv_queue st) @ [p])" using iv added by (intro gap_free_snoc) auto
    then show ?thesis using added r by (auto simp: queue_inv_def)
  qed
qed

text \<open>The worker and the other threads leave the queue alone, apart from the packet taken.\<close>

definition same_queue :: "client_video \<Rightarrow> client_video \<Rightarrow> bool" where
  "same_queue st st' \<longleftrightarrow> cv_queue st' = cv_queue st \<and> cv_wait_keyframe st' = cv_wait_keyframe st \<and> cv_running st' = cv_running st"

lemma same_queue_reset: "same_queue st (reset_video_decoder ph st)"
  by (simp add: same_queue_def reset_video_decoder_def client_video_decoder_reset_def)

lemma same_queue_trans: "same_queue a b \<Longrightarrow> same_queue b c \<Longrightarrow> same_queue a c" by (simp add: same_queue_def)

lemma same_queue_begin: "same_queue st (handle_video_begin p st)"
  by (auto simp: handle_video_begin_def video_payload_to_packet_def video_transition_locked_def Let_def same_queue_def
      reset_video_decoder_def client_video_decoder_reset_def
      split: prod.splits option.splits wd_client_video_packet_validation_result.splits if_splits)

lemma same_queue_publish: "same_queue st (publish_frames oks pub st)"
  by (induction oks pub st rule: publish_frames.induct)
    (auto simp: fail_video_def Let_def same_queue_def reset_video_decoder_def client_video_decoder_reset_def)

lemma same_queue_decode: "same_queue st (handle_video_decode env v (st\<lparr>cv_pending := None\<rparr>))"
proof -
  obtain ok st' where d: "decode_with_retry env v (st\<lparr>cv_pending := None\<rparr>) = (ok, st')" by force
  then have "same_queue st st'"
    by (auto simp: decode_with_retry_def Let_def client_video_decoder_decode_def client_video_decoder_reset_def same_queue_def
        split: if_splits)
  then show ?thesis using d same_queue_publish [of st']
    by (cases ok) (auto simp: handle_video_decode_def Let_def fail_video_def same_queue_def reset_video_decoder_def
        client_video_decoder_reset_def)
qed

lemma queue_inv_same: "queue_inv ms ps st \<Longrightarrow> same_queue st st' \<Longrightarrow> queue_inv ms ps st'"
  by (simp add: queue_inv_def same_queue_def)

lemma worker_queue_inv:
  assumes i: "queue_inv ms ps st"
  shows "queue_inv ms (ps @ (case pop_media_packet st of None \<Rightarrow> [] | Some (p, _) \<Rightarrow> [p])) (client_video_decode_worker st)"
proof (cases "pop_media_packet st")
  case None
  then show ?thesis using i by (simp add: client_video_decode_worker_def)
next
  case (Some r)
  then obtain p qs where r: "r = (p, st\<lparr>cv_queue := qs\<rparr>)" "cv_queue st = p # qs"
    by (auto simp: pop_media_packet_def split: if_splits list.splits)
  let ?st = "st\<lparr>cv_queue := qs\<rparr>"
  have "queue_inv ms (ps @ [p]) ?st" using i r by (auto simp: queue_inv_def)
  moreover have "same_queue ?st (client_video_decode_worker st)"
    using Some r same_queue_begin same_queue_trans [OF same_queue_reset same_queue_begin]
    by (simp add: client_video_decode_worker_def Let_def)
  ultimately show ?thesis using Some r queue_inv_same by fastforce
qed

fun quiet :: "video_event \<Rightarrow> bool" where
  "quiet (Receive_message now msg) \<longleftrightarrow> False"
| "quiet Worker_takes \<longleftrightarrow> False"
| "quiet ev \<longleftrightarrow> stays_open ev"

lemma quiet_step: "quiet ev \<Longrightarrow> same_queue st (video_step ev st) \<and> received (ev # evs) = received evs"
  using same_queue_decode same_queue_reset by (cases ev) (auto simp: same_queue_def split: option.splits)

lemma video_run_queue_inv:
  "\<lbrakk>queue_inv ms ps st; list_all stays_open evs\<rbrakk> \<Longrightarrow>
   queue_inv (ms @ received evs) (ps @ taken evs st) (video_run evs st)"
proof (induction evs arbitrary: ms ps st)
  case (Cons ev evs)
  show ?case
  proof (cases ev)
    case (Receive_message now msg)
    then have "queue_inv (ms @ [(now, msg)]) ps (video_step ev st)" using Cons.prems enqueue_queue_inv by simp
    from Cons.IH [OF this] show ?thesis using Cons.prems Receive_message by simp
  next
    case Worker_takes
    show ?thesis
    proof (cases "cv_pending st")
      case None
      from Cons.IH [OF worker_queue_inv [OF Cons.prems(1)]] show ?thesis using Cons.prems Worker_takes None by simp
    next
      case (Some v)
      then show ?thesis using Cons.IH Cons.prems Worker_takes by simp
    qed
  qed (use Cons.IH [OF queue_inv_same [OF Cons.prems(1)]] quiet_step [of ev st evs] Cons.prems in auto)
qed simp

text \<open>
  C8: While the video channel is open, the packets that the decode worker takes have no gap a
  decoder could notice: a delta packet that it takes carries the message received immediately
  after the message of the packet taken before it. At most four packets wait at any moment.
\<close>

theorem worker_takes_without_gaps:
  assumes "list_all stays_open evs"
  shows "gap_free (received evs) (taken evs (client_video_start e content)) \<and>
         length (cv_queue (video_run evs (client_video_start e content))) \<le> 4"
proof -
  have "queue_inv [] [] (client_video_start e content)" by (simp add: queue_inv_def client_video_start_def)
  from video_run_queue_inv [OF this assms] show ?thesis unfolding queue_inv_def by (auto intro: gap_free_prefix)
qed

definition sample_header :: "u16 \<Rightarrow> u64 \<Rightarrow> u32 \<Rightarrow> wd_video_frame_payload_header" where
  "sample_header flags frame_id n =
     \<lparr>vf_session_id = 1, vf_connection_token = 7, vf_content_epoch = 2, vf_codec = WD_VIDEO_CODEC_H264, vf_flags = flags,
      vf_frame_id = frame_id, vf_pts_usec = 0, vf_width = 64, vf_height = 64, vf_coded_width = 64, vf_coded_height = 64,
      vf_data_size = n\<rparr>"

definition sample_message :: "u16 \<Rightarrow> u64 \<Rightarrow> bytes \<Rightarrow> wd_tcp_message" where
  "sample_message flags frame_id data =
     \<lparr>tm_message_type = 30, tm_payload = Some (video_frame_header_encode (sample_header flags frame_id (of_nat (length data))) @ data),
      tm_payload_size = of_nat (51 + length data)\<rparr>"

definition sample_keyframe :: bytes where
  "sample_keyframe = [0, 0, 0, 1, 0x67, 9, 0, 0, 1, 0x68, 9, 0, 0, 1, 0x65, 9]"

definition sample_expected :: wd_client_video_packet_expectation where
  "sample_expected =
     \<lparr>pe_session_id = 1, pe_connection_token = 7, pe_width = 64, pe_height = 64, pe_codec = WD_VIDEO_CODEC_H264\<rparr>"

definition sample_start :: client_video where
  "sample_start = client_video_start sample_expected
     \<lparr>co_remote_epoch = 1, co_remote_owner = WD_CLIENT_CONTENT_OWNER_TILES, co_dirty_tiles = [], co_dirty_rect_count = 0,
      co_present_generation = [], co_video_queue = [], co_video_frame_dirty = False, co_dirty_epoch = 1, co_word = 2,
      co_tile_telemetry = [], co_video_last_rx = 0, co_video_last_decoded = 0, co_video_last_presented = 0,
      co_tile_epoch_presented = 0, co_video_epoch_presented = 0\<rparr>"

definition sample_decoded :: decode_env where
  "sample_decoded =
     \<lparr>de_configured = True, de_decoded = True, de_hwdecode_failed_auto = False, de_reconfigured = False, de_redecoded = False,
      de_published = [True]\<rparr>"

definition sample_events :: "video_event list" where
  "sample_events =
     [Receive_message 1 (sample_message 2 1 sample_keyframe), Receive_message 2 (sample_message 0 2 [5]), Worker_takes,
      Worker_decodes sample_decoded, Worker_takes]"

lemma sample_keyframe_valid:
  "wd_client_video_keyframe_validate 2 (Some sample_keyframe) 16 = Some WD_CLIENT_VIDEO_KEYFRAME_VALID"
  "wd_client_video_keyframe_validate 2 (Some [5]) 1 \<noteq> Some WD_CLIENT_VIDEO_KEYFRAME_VALID"
  by code_simp+

lemma length_sample_keyframe: "length sample_keyframe = 16" by (simp add: sample_keyframe_def)

lemma sample_size_valid:
  "wd_video_frame_payload_size_is_valid (Some (sample_header 2 1 16)) 67"
  "wd_video_frame_payload_size_is_valid (Some (sample_header 2 1 1)) 52"
  "wd_video_frame_payload_size_is_valid (Some (sample_header 0 2 1)) 52"
  by (simp_all add: wd_video_frame_payload_size_is_valid_def sample_header_def)

lemmas sample_simps =
  sample_message_def sample_keyframe_valid length_sample_keyframe sample_size_valid video_frame_header.dec_enc
  video_frame_header.length_enc video_packet_flags_def is_keyframe_def is_control_def

lemma sample_header_fields [simp]:
  "vf_session_id (sample_header f i n) = 1" "vf_connection_token (sample_header f i n) = 7"
  "vf_content_epoch (sample_header f i n) = 2" "vf_codec (sample_header f i n) = 2" "vf_flags (sample_header f i n) = f"
  "vf_frame_id (sample_header f i n) = i" "vf_width (sample_header f i n) = 64" "vf_height (sample_header f i n) = 64"
  "vf_coded_width (sample_header f i n) = 64" "vf_coded_height (sample_header f i n) = 64"
  "vf_data_size (sample_header f i n) = n"
  by (simp_all add: sample_header_def)

definition sample_packet :: "u16 \<Rightarrow> u64 \<Rightarrow> bytes \<Rightarrow> u64 \<Rightarrow> client_media_packet" where
  "sample_packet flags frame_id data now =
     \<lparr>mp_message_type = 30, mp_buffer = video_frame_header_encode (sample_header flags frame_id (of_nat (length data))) @ data,
      mp_buffer_size = unat (of_nat (51 + length data) :: u32), mp_payload_size = of_nat (51 + length data),
      mp_reset_video_decoder_before = False, mp_queued_ns = now\<rparr>"

lemma sample_enqueue:
  "\<lbrakk>cv_running st; \<not> cv_wait_keyframe st; fl = 0 \<or> fl = 2; length (cv_queue st) < 4; data = sample_keyframe \<or> data = [5]\<rbrakk> \<Longrightarrow>
   snd (enqueue_video_message now (sample_message fl i data) st) =
     st\<lparr>cv_queue := (if fl = 2 then [] else cv_queue st) @ [sample_packet fl i data now]\<rparr>"
  by (auto simp: enqueue_video_message_def wd_client_video_decode_queue_plan_compute_def Let_def sample_simps
      wd_tcp_message_take_buffer_def sample_packet_def word_le_nat_alt unat_of_nat)

lemma sample_to_packet:
  assumes "cv_expected st = sample_expected"
  shows "video_payload_to_packet (sample_packet 2 1 sample_keyframe now) st = (st, Some (sample_header 2 1 16, sample_keyframe))"
    "video_payload_to_packet (sample_packet 2 1 [5] now) st = (st, Some (sample_header 2 1 1, [5]))"
  using assms
  by (simp_all add: video_payload_to_packet_def wd_client_video_packet_validate_def wd_video_frame_payload_data_def
      sample_packet_def sample_expected_def sample_simps Let_def)

lemma sample_first_taken:
  assumes "cv_expected st = sample_expected" "co_remote_epoch (cv_content st) = 1" "cv_phase st = WD_CLIENT_VIDEO_PHASE_TILES"
  shows "handle_video_begin (sample_packet 2 1 sample_keyframe now) st =
     st\<lparr>cv_content := (snd (client_accept_content_epoch (cv_content st) 2 WD_CLIENT_CONTENT_OWNER_VIDEO))\<lparr>co_video_last_rx := 1\<rparr>,
         cv_log := cv_log st @ [Decoder_reset], cv_phase := WD_CLIENT_VIDEO_PHASE_VIDEO, cv_needs_keyframe := False,
        cv_pending := Some \<lparr>pv_header = sample_header 2 1 16, pv_data = sample_keyframe, pv_expect_fresh_keyframe = True\<rparr>\<rparr>"
  using assms
  by (cases st) (simp add: handle_video_begin_def sample_to_packet client_accept_content_epoch_def Let_def is_keyframe_def
      restart_frame_ids_def video_transition_locked_def wd_client_video_transition_decide_def client_video_decoder_reset_def)

lemma sample_restart_taken:
  assumes "cv_expected st = sample_expected" "co_remote_epoch (cv_content st) = 2"
    "co_remote_owner (cv_content st) = WD_CLIENT_CONTENT_OWNER_VIDEO" "co_video_last_presented (cv_content st) = 1"
    "cv_phase st = WD_CLIENT_VIDEO_PHASE_VIDEO" "\<not> cv_needs_keyframe st"
  shows "handle_video_begin (sample_packet 2 1 [5] now) st =
     st\<lparr>cv_content := (cv_content st)\<lparr>co_video_last_rx := 1\<rparr>, cv_log := cv_log st @ [Decoder_reset], cv_phase := WD_CLIENT_VIDEO_PHASE_AWAITING_KEYFRAME,
        cv_needs_keyframe := True,
        cv_pending := Some \<lparr>pv_header = sample_header 2 1 1, pv_data = [5], pv_expect_fresh_keyframe = False\<rparr>\<rparr>"
  using assms
  by (cases st) (simp add: handle_video_begin_def sample_to_packet client_accept_content_epoch_def Let_def is_keyframe_def
      video_transition_locked_def wd_client_video_transition_decide_def client_video_decoder_reset_def reset_video_decoder_def)

lemma sample_decode:
  assumes "is_keyframe (vf_flags (pv_header v))"
    "pv_expect_fresh_keyframe v \<longrightarrow> wd_client_video_keyframe_validate (vf_codec (pv_header v)) (Some (pv_data v))
       (vf_data_size (pv_header v)) = Some WD_CLIENT_VIDEO_KEYFRAME_VALID"
  shows "handle_video_decode sample_decoded v st =
     st\<lparr>cv_log := cv_log st @ [Decoder_decode (pv_header v) (pv_data v)], cv_needs_keyframe := False,
        cv_phase := WD_CLIENT_VIDEO_PHASE_VIDEO\<rparr>"
  using assms
  by (auto simp: handle_video_decode_def Let_def sample_decoded_def decode_with_retry_def client_video_decoder_decode_def)

lemma sample_start_fields [simp]:
  "cv_expected sample_start = sample_expected" "cv_queue sample_start = []" "cv_running sample_start"
  "\<not> cv_wait_keyframe sample_start" "cv_pending sample_start = None" "cv_log sample_start = []"
  "co_remote_epoch (cv_content sample_start) = 1" "cv_phase sample_start = WD_CLIENT_VIDEO_PHASE_TILES"
  by (simp_all add: sample_start_def client_video_start_def sample_expected_def)

lemmas sample_steps =
  sample_enqueue client_video_decode_worker_def pop_media_packet_def sample_first_taken sample_restart_taken sample_decode
  sample_keyframe_valid is_keyframe_def

lemma sample_packet_fields [simp]: "\<not> mp_reset_video_decoder_before (sample_packet fl i data now)"
  by (simp add: sample_packet_def)

text \<open>
  The path for a restarted sequence of frame numbers resets the decoder after it has been decided
  whether the key frame must be validated. In the run below the second packet is flagged as a
  key frame but holds no parameter sets; it is decoded right after a reset all the same.
\<close>

lemma restart_skips_validation:
  "cv_log (video_run
     [Receive_message 1 (sample_message 2 1 sample_keyframe), Worker_takes, Worker_decodes sample_decoded, Presented 1,
      Receive_message 2 (sample_message 2 1 [5]), Worker_takes, Worker_decodes sample_decoded] sample_start)
   = [Decoder_reset, Decoder_decode (sample_header 2 1 16) sample_keyframe, Decoder_reset, Decoder_decode (sample_header 2 1 1) [5]] \<and>
   wd_client_video_keyframe_validate WD_VIDEO_CODEC_H264 (Some [5]) 1 \<noteq> Some WD_CLIENT_VIDEO_KEYFRAME_VALID"
  by (simp add: sample_steps client_accept_content_epoch_def restart_frame_ids_def Let_def)

lemma sample_taken:
  "taken sample_events sample_start = [sample_packet 2 1 sample_keyframe 1, sample_packet 0 2 [5] 2]"
  by (simp add: sample_events_def sample_steps)

theorem worker_takes_without_gaps_witness:
  "taken sample_events sample_start = [sample_packet 2 1 sample_keyframe 1, sample_packet 0 2 [5] 2] \<and>
   is_delta (sample_packet 0 2 [5] 2) \<and> gap_free (received sample_events) (taken sample_events sample_start)"
proof -
  have "list_all stays_open sample_events" by (simp add: sample_events_def sample_message_def)
  moreover have "is_delta (sample_packet 0 2 [5] 2)"
    by (simp add: is_delta_def sample_packet_def sample_simps)
  ultimately show ?thesis using worker_takes_without_gaps sample_taken unfolding sample_start_def by blast
qed

end
