(* ===== verification/WD_Tile_Send.thy ===== *)
theory WD_Tile_Send
  imports WD_Tile WD_Wire "HOL-Library.Monad_Syntax"
begin

text \<open>
  How the server sends a tile: \<open>wd_stream_send_tile_payload_sized_locked\<close> of
  \<open>src/src/server/wd_stream.c\<close> with the payload target and the delivery status of
  \<open>src/src/server/wd_tile_policy.c\<close>. The payload is cut into datagrams that are handed to the
  asynchronous sender; the answer of the sender to each datagram is a parameter. \<open>None\<close> is an access
  outside a block. Statistics, the clock and the stream policy's congestion note are left out.
\<close>

section \<open>Payload target and packet count\<close>

abbreviation (input) WD_MIN_PROBED_UDP_PAYLOAD :: u16 where "WD_MIN_PROBED_UDP_PAYLOAD \<equiv> 512"
abbreviation (input) WD_UDP_PAYLOAD_TARGET :: u16 where "WD_UDP_PAYLOAD_TARGET \<equiv> 1400"
abbreviation (input) WD_UDP_TILE_PAYLOAD_MAX :: u16 where "WD_UDP_TILE_PAYLOAD_MAX \<equiv> 65463"
abbreviation (input) WD_WIRE_TILE_MAX_BASE_TILES :: nat where "WD_WIRE_TILE_MAX_BASE_TILES \<equiv> 32"

definition wd_tile_normalize_udp_payload_target :: "u16 \<Rightarrow> u16 \<Rightarrow> u16 \<Rightarrow> u16" where
  "wd_tile_normalize_udp_payload_target udp_payload_target default_target maximum_target =
     (if maximum_target = 0 then 0
      else
        let default_target = (if default_target = 0 \<or> default_target > maximum_target then maximum_target else default_target)
        in if udp_payload_target < WD_MIN_PROBED_UDP_PAYLOAD then default_target
           else if udp_payload_target > maximum_target then maximum_target else udp_payload_target)"

definition wd_tile_packet_count_for_payload :: "u32 \<Rightarrow> u16 \<Rightarrow> u16" where
  "wd_tile_packet_count_for_payload payload_size udp_payload_target =
     (if payload_size = 0 \<or> udp_payload_target = 0 then 0
      else let count = (payload_size + ucast udp_payload_target - 1) div ucast udp_payload_target
           in if count > 65535 then 0 else ucast count)"

section \<open>The delivery of a tile\<close>

record wd_tile_delivery_status =
  ds_pending :: u32
  ds_sealed :: bool
  ds_failed :: bool

definition wd_tile_delivery_status_add :: "wd_tile_delivery_status \<Rightarrow> wd_tile_delivery_status" where
  "wd_tile_delivery_status_add status = status\<lparr>ds_pending := ds_pending status + 1\<rparr>"

text \<open>\<open>Some failed\<close> is the result true with \<open>out_failed\<close>, \<open>None\<close> the result false.\<close>

definition wd_tile_delivery_status_ready :: "wd_tile_delivery_status \<Rightarrow> bool option" where
  "wd_tile_delivery_status_ready status =
     (if \<not> ds_sealed status \<or> ds_pending status \<noteq> 0 then None else Some (ds_failed status))"

definition wd_tile_delivery_status_complete :: "bool \<Rightarrow> wd_tile_delivery_status \<Rightarrow> bool option \<times> wd_tile_delivery_status" where
  "wd_tile_delivery_status_complete success status =
     (if ds_pending status = 0 then (None, status)
      else let status = status\<lparr>ds_pending := ds_pending status - 1, ds_failed := ds_failed status \<or> \<not> success\<rparr>
           in (wd_tile_delivery_status_ready status, status))"

definition wd_tile_delivery_status_seal :: "wd_tile_delivery_status \<Rightarrow> bool option \<times> wd_tile_delivery_status" where
  "wd_tile_delivery_status_seal status =
     (let status = status\<lparr>ds_sealed := True\<rparr> in (wd_tile_delivery_status_ready status, status))"

text \<open>\<open>Some failed\<close> stands for the call of \<open>wd_stream_finish_udp_tile_delivery\<close>.\<close>

definition wd_stream_seal_udp_tile_delivery :: "bool \<Rightarrow> wd_tile_delivery_status \<Rightarrow> bool option \<times> wd_tile_delivery_status" where
  "wd_stream_seal_udp_tile_delivery failed status =
     wd_tile_delivery_status_seal (status\<lparr>ds_failed := ds_failed status \<or> failed\<rparr>)"

definition wd_stream_udp_tile_packet_completion :: "bool \<Rightarrow> wd_tile_delivery_status \<Rightarrow> bool option \<times> wd_tile_delivery_status" where
  "wd_stream_udp_tile_packet_completion success status = wd_tile_delivery_status_complete success status"

section \<open>The datagrams of a tile\<close>

record tile_sender =
  sn_display_width :: u32
  sn_display_height :: u32
  sn_tile_width :: u16
  sn_tile_height :: u16
  sn_tiles_x :: u16
  sn_tiles_y :: u16
  sn_total_tiles :: u16
  sn_client_connected :: bool
  sn_session_id :: u8
  sn_connection_token :: u64
  sn_content_epoch :: u64
  sn_udp_payload_target :: u16
  sn_input_correlation_inflight_sequence :: u64

record tile_job =
  tj_tile_id :: u16
  tj_tile_width :: u16
  tj_tile_height :: u16
  tj_generation :: u64
  tj_input_sequence :: u64
  tj_payload :: "bytes option"
  tj_payload_size :: u32
  tj_compressed :: bool

record wd_udp_tile_send_result =
  sr_any_packet_sent :: bool
  sr_all_packets_sent :: bool
  sr_send_blocked :: bool
  sr_packets_sent :: u32
  sr_bytes_sent :: u32

datatype wd_async_udp_send_status = UDP_SEND_FAILED | UDP_SEND_QUEUED | UDP_SEND_SATURATED

fun collect_ids :: "u16 \<Rightarrow> nat \<Rightarrow> u16 list \<Rightarrow> u32 list \<Rightarrow> u16 list option" where
  "collect_ids n_tiles max_count out [] = Some out"
| "collect_ids n_tiles max_count out (base_id # ids) =
     (if base_id \<ge> ucast n_tiles \<or> length out \<ge> max_count then None
      else collect_ids n_tiles max_count (out @ [ucast base_id]) ids)"

definition wd_stream_collect_wire_tile_base_ids :: "tile_sender \<Rightarrow> u16 \<Rightarrow> u16 \<Rightarrow> u16 \<Rightarrow> nat \<Rightarrow> u16 list option" where
  "wd_stream_collect_wire_tile_base_ids sn tile tw th max_count =
     (if tw = 0 \<or> th = 0 \<or> sn_tile_width sn = 0 \<or> sn_tile_height sn = 0 then None
      else
        let tiles_x = wd_tiles_for_width_with_tile (sn_display_width sn) tw in
        if tiles_x = 0 then None
        else
          let x = wd_tile_start_x_for_tile tile tiles_x tw;
              y = wd_tile_start_y_for_tile tile tiles_x th;
              w = wd_tile_visible_width_for_tile (sn_display_width sn) tile tiles_x tw;
              h = wd_tile_visible_height_for_tile (sn_display_height sn) tile tiles_x th
          in
          if w = 0 \<or> h = 0 then None
          else
            let bx0 = x div ucast (sn_tile_width sn);
                by0 = y div ucast (sn_tile_height sn);
                bx1 = (x + w - 1) div ucast (sn_tile_width sn);
                by1 = (y + h - 1) div ucast (sn_tile_height sn);
                bx1 = (if bx1 \<ge> ucast (sn_tiles_x sn) then ucast (sn_tiles_x sn) - 1 else bx1);
                by1 = (if by1 \<ge> ucast (sn_tiles_y sn) then ucast (sn_tiles_y sn) - 1 else by1)
            in
            case collect_ids (sn_total_tiles sn) max_count []
                   (concat (map (\<lambda>b. map (\<lambda>a. of_nat b * ucast (sn_tiles_x sn) + of_nat a)
                      [unat bx0 ..< Suc (unat bx1)]) [unat by0 ..< Suc (unat by1)])) of
              None \<Rightarrow> None
            | Some out \<Rightarrow> if out \<noteq> [] then Some out else None)"

definition tile_packet_header ::
    "tile_sender \<Rightarrow> tile_job \<Rightarrow> u8 \<Rightarrow> u16 \<Rightarrow> u16 \<Rightarrow> nat \<Rightarrow> wd_udp_tile_packet_decoded" where
  "tile_packet_header sn job tile_size packet_count payload_size packet_id =
     (let first = packet_id = 0 \<and> tj_input_sequence job \<noteq> 0;
          flags = (if tj_compressed job then WD_UDP_TILE_FLAG_COMPRESSED else 0) OR
                  (if first then WD_UDP_TILE_FLAG_INPUT_SEQUENCE else 0)
      in \<lparr>ud_session_id = sn_session_id sn, ud_connection_token = sn_connection_token sn, ud_content_epoch = sn_content_epoch sn,
          ud_flags = flags, ud_tile_size = tile_size, ud_tile_pkt_id = of_nat packet_id, ud_tile_id = tj_tile_id job,
          ud_tile_pkt_count = ucast packet_count, ud_payload_size = payload_size,
          ud_tile_payload_size = ucast (tj_payload_size job), ud_tile_generation = tj_generation job,
          ud_input_sequence = (if first then tj_input_sequence job else 0),
          ud_header_size = wd_udp_tile_header_size_for_flags flags\<rparr>)"

record tile_sending =
  tx_datagrams :: "bytes list"
  tx_packets_sent :: u16
  tx_fatal :: bool
  tx_result :: wd_udp_tile_send_result
  tx_status :: wd_tile_delivery_status

text \<open>
  The loop over the packets. A packet that is not queued completes its place in the delivery at
  once, with the argument that the code computes from the sender's answer.
\<close>

fun send_tile_packets ::
    "tile_sender \<Rightarrow> tile_job \<Rightarrow> bytes \<Rightarrow> u16 \<Rightarrow> u16 \<Rightarrow> (nat \<Rightarrow> wd_async_udp_send_status) \<Rightarrow> nat list \<Rightarrow>
     tile_sending \<Rightarrow> tile_sending option" where
  "send_tile_packets sn job buf udp_payload_target packet_count async [] tx = Some tx"
| "send_tile_packets sn job buf udp_payload_target packet_count async (packet_id # ids) tx =
     (let offset = of_nat packet_id * ucast udp_payload_target :: u32;
          payload_size = ucast (if tj_payload_size job - offset > ucast udp_payload_target then ucast udp_payload_target
                                else tj_payload_size job - offset) :: u16
      in
      case wd_tile_size_code_for_dimensions (tj_tile_width job) (tj_tile_height job) of
        None \<Rightarrow> Some (tx\<lparr>tx_fatal := True\<rparr>)
      | Some tile_size \<Rightarrow> do {
          let header = tile_packet_header sn job tile_size packet_count payload_size packet_id;
          (ok, header_buf) \<leftarrow> wd_udp_tile_packet_encode_header (replicate 44 0) 44 header;
          if \<not> ok then Some (tx\<lparr>tx_fatal := True\<rparr>)
          else do {
            payload \<leftarrow> rd_range buf (unat offset) (unat payload_size);
            let datagram = take (unat (ud_header_size header)) header_buf @ payload;
            let packet_wire_size = ucast (ud_header_size header) + ucast payload_size;
            let status = wd_tile_delivery_status_add (tx_status tx);
            let result = tx_result tx;
            case async packet_id of
              UDP_SEND_SATURATED \<Rightarrow>
                Some (tx\<lparr>tx_status := snd (wd_tile_delivery_status_complete False status),
                         tx_result := result\<lparr>sr_send_blocked := True\<rparr>\<rparr>)
            | UDP_SEND_FAILED \<Rightarrow>
                Some (tx\<lparr>tx_status := snd (wd_tile_delivery_status_complete True status), tx_fatal := True\<rparr>)
            | UDP_SEND_QUEUED \<Rightarrow>
                send_tile_packets sn job buf udp_payload_target packet_count async ids
                  (tx\<lparr>tx_status := status, tx_datagrams := tx_datagrams tx @ [datagram],
                      tx_packets_sent := tx_packets_sent tx + 1,
                      tx_result := result\<lparr>sr_any_packet_sent := True, sr_packets_sent := ucast (tx_packets_sent tx + 1),
                                          sr_bytes_sent := sr_bytes_sent result + packet_wire_size\<rparr>\<rparr>)
          }
        })"

text \<open>
  The result of the function: its value, the result structure, the datagrams it queued, the delivery
  that stays pending (if any), whether it finished the delivery itself, and the summary mark.
\<close>

record tile_sent =
  to_ok :: bool
  to_result :: wd_udp_tile_send_result
  to_datagrams :: "bytes list"
  to_delivery :: "wd_tile_delivery_status option"
  to_finished :: "bool option"
  to_summary_dirty :: bool
  to_sender :: tile_sender

definition wd_stream_init_send_result :: wd_udp_tile_send_result where
  "wd_stream_init_send_result =
     \<lparr>sr_any_packet_sent = False, sr_all_packets_sent = False, sr_send_blocked = False, sr_packets_sent = 0, sr_bytes_sent = 0\<rparr>"

definition nothing_sent :: "tile_sender \<Rightarrow> bool \<Rightarrow> tile_sent" where
  "nothing_sent sn ok =
     \<lparr>to_ok = ok, to_result = wd_stream_init_send_result, to_datagrams = [], to_delivery = None, to_finished = None,
      to_summary_dirty = False, to_sender = sn\<rparr>"

definition start_sending :: tile_sending where
  "start_sending =
     \<lparr>tx_datagrams = [], tx_packets_sent = 0, tx_fatal = False, tx_result = wd_stream_init_send_result,
      tx_status = \<lparr>ds_pending = 0, ds_sealed = False, ds_failed = False\<rparr>\<rparr>"

definition finish_sending :: "tile_sender \<Rightarrow> tile_job \<Rightarrow> u16 \<Rightarrow> tile_sending \<Rightarrow> tile_sent" where
  "finish_sending sn job packet_count tx =
     (let incomplete = tx_fatal tx \<or> tx_packets_sent tx \<noteq> packet_count;
          (finished, status) = wd_stream_seal_udp_tile_delivery incomplete (tx_status tx);
          delivery = (if finished = None then Some status else None)
      in
      if tx_fatal tx
      then \<lparr>to_ok = False, to_result = tx_result tx, to_datagrams = tx_datagrams tx, to_delivery = delivery,
            to_finished = finished, to_summary_dirty = False, to_sender = sn\<rparr>
      else
        let all = (tx_packets_sent tx = packet_count)
        in \<lparr>to_ok = True, to_result = (tx_result tx)\<lparr>sr_all_packets_sent := all\<rparr>, to_datagrams = tx_datagrams tx,
            to_delivery = delivery, to_finished = finished,
            to_summary_dirty = (all \<and> tj_tile_width job = sn_tile_width sn \<and> tj_tile_height job = sn_tile_height sn),
            to_sender = sn\<rparr>)"

text \<open>\<open>allocated\<close> is whether \<open>calloc\<close> succeeds.\<close>

definition wd_stream_send_tile_payload_sized_locked ::
    "bool \<Rightarrow> (nat \<Rightarrow> wd_async_udp_send_status) \<Rightarrow> tile_sender \<Rightarrow> tile_job \<Rightarrow> tile_sent option" where
  "wd_stream_send_tile_payload_sized_locked allocated async sn job =
     (let packet_tiles_x = wd_tiles_for_width_with_tile (sn_display_width sn) (tj_tile_width job);
          packet_tiles_y = wd_tiles_for_height_with_tile (sn_display_height sn) (tj_tile_height job);
          packet_total_tiles = ucast packet_tiles_x * ucast packet_tiles_y :: u32
      in
      if tj_tile_width job = 0 \<or> tj_tile_height job = 0 \<or> packet_tiles_x = 0 \<or> packet_tiles_y = 0 \<or>
         ucast (tj_tile_id job) \<ge> packet_total_tiles \<or> packet_total_tiles > 65535
      then Some (nothing_sent sn False)
      else if \<not> sn_client_connected sn \<or> tj_payload_size job = 0 \<or> tj_payload job = None then Some (nothing_sent sn True)
      else
        let buf = the (tj_payload job) in
        if length buf < unat (tj_payload_size job) then Some (nothing_sent sn False)
        else if \<not> allocated \<or>
                wd_stream_collect_wire_tile_base_ids sn (tj_tile_id job) (tj_tile_width job) (tj_tile_height job)
                  WD_WIRE_TILE_MAX_BASE_TILES = None
        then Some (nothing_sent sn False)
        else
          let udp_payload_target =
                wd_tile_normalize_udp_payload_target (sn_udp_payload_target sn) WD_UDP_PAYLOAD_TARGET WD_UDP_TILE_PAYLOAD_MAX;
              packet_count = wd_tile_packet_count_for_payload (tj_payload_size job) udp_payload_target
          in
          if packet_count = 0 \<or> packet_count > 255 \<or> tj_payload_size job > 65535
          then Some ((nothing_sent sn False)\<lparr>to_finished := Some True\<rparr>)
          else
            let sn' = (if tj_input_sequence job \<noteq> 0 then sn\<lparr>sn_input_correlation_inflight_sequence := tj_input_sequence job\<rparr> else sn)
            in map_option (finish_sending sn' job packet_count)
                 (send_tile_packets sn' job buf udp_payload_target packet_count async [0 ..< unat packet_count] start_sending))"

section \<open>What is sent\<close>

lemma packet_count_exact:
  assumes "wd_tile_packet_count_for_payload sz t \<noteq> 0" "sz \<le> 65535"
  shows "0 < unat t" "0 < unat sz" "unat (wd_tile_packet_count_for_payload sz t) = (unat sz + unat t - 1) div unat t"
proof -
  have nz: "sz \<noteq> 0" "t \<noteq> 0" using assms(1) by (auto simp: wd_tile_packet_count_for_payload_def)
  then show p: "0 < unat t" "0 < unat sz" by (simp_all add: unat_gt_0)
  have s: "unat sz \<le> 65535" using assms(2) by (simp add: word_le_nat_alt)
  have a: "unat (sz + ucast t) = unat sz + unat t" using s unat_u16_lt [of t] by (subst unat_add_exact) auto
  then have b: "unat (sz + ucast t - 1) = unat sz + unat t - 1" using p by (subst unat_sub_exact) simp_all
  let ?c = "(sz + ucast t - 1) div ucast t"
  have c: "unat ?c = (unat sz + unat t - 1) div unat t" using b by (simp add: unat_div)
  have "\<not> ?c > 65535" using assms(1) nz by (auto simp: wd_tile_packet_count_for_payload_def Let_def)
  then have "unat (ucast ?c :: u16) = unat ?c" by (intro unat_ucast_small) (simp add: word_less_nat_alt)
  then show "unat (wd_tile_packet_count_for_payload sz t) = (unat sz + unat t - 1) div unat t"
    using c nz \<open>\<not> ?c > 65535\<close> by (simp add: wd_tile_packet_count_for_payload_def Let_def)
qed

text \<open>The fragment of a payload with a number, its header and its datagram.\<close>

definition fragment_bytes :: "nat \<Rightarrow> nat \<Rightarrow> bytes \<Rightarrow> nat \<Rightarrow> bytes" where
  "fragment_bytes t sz buf k = take (min t (sz - k * t)) (drop (k * t) buf)"

definition fragment_header :: "tile_sender \<Rightarrow> tile_job \<Rightarrow> u8 \<Rightarrow> u16 \<Rightarrow> u16 \<Rightarrow> nat \<Rightarrow> wd_udp_tile_packet_decoded" where
  "fragment_header sn job tile_size t n k =
     tile_packet_header sn job tile_size n (of_nat (min (unat t) (unat (tj_payload_size job) - k * unat t))) k"

definition fragment_datagram :: "tile_sender \<Rightarrow> tile_job \<Rightarrow> u8 \<Rightarrow> u16 \<Rightarrow> u16 \<Rightarrow> bytes \<Rightarrow> nat \<Rightarrow> bytes" where
  "fragment_datagram sn job tile_size t n buf k =
     udp_header_bytes (fragment_header sn job tile_size t n k) @ fragment_bytes (unat t) (unat (tj_payload_size job)) buf k"

lemma fragment_size_exact:
  assumes t: "0 < unat (t :: u16)" and k: "k * unat t < unat sz" and s: "unat (sz :: u32) \<le> 65535"
  defines "off \<equiv> of_nat k * ucast t :: u32"
  shows "unat off = k * unat t"
    "ucast (if sz - off > ucast t then ucast t else sz - off) = (of_nat (min (unat t) (unat sz - k * unat t)) :: u16)"
proof -
  have kt: "k * unat t < 65536" using k s by simp
  moreover have "k \<le> k * unat t" using t by simp
  ultimately have "k < 65536" by linarith
  then show o: "unat off = k * unat t" unfolding off_def using kt by (subst unat_mult_exact) simp_all
  have d: "unat (sz - off) = unat sz - k * unat t" using o k by (subst unat_sub_exact) simp_all
  have m: "(if sz - off > ucast t then ucast t else sz - off) = (of_nat (min (unat t) (unat sz - k * unat t)) :: u32)"
    using d s unat_u16_lt [of t] by (auto simp: unat_eq_iff word_less_nat_alt min_def)
  show "ucast (if sz - off > ucast t then ucast t else sz - off) = (of_nat (min (unat t) (unat sz - k * unat t)) :: u16)"
    unfolding m using s by (simp add: unat_eq_iff unat_ucast_mod)
qed

lemma header_of_buffer:
  assumes "udp_fields_ok h" "udp_normal h"
  shows "wd_udp_tile_packet_encode_header (replicate 44 0) 44 h =
      Some (True, udp_header_bytes h @ drop (length (udp_header_bytes h)) (replicate 44 0))"
    "length (udp_header_bytes h) = unat (ud_header_size h)"
proof -
  have "unat (wd_udp_tile_header_size_for_flags (ud_flags h)) \<le> 44" by (simp add: header_size_cases)
  then show "wd_udp_tile_packet_encode_header (replicate 44 0) 44 h =
      Some (True, udp_header_bytes h @ drop (length (udp_header_bytes h)) (replicate 44 0))"
    using assms(1) encode_header_iff [of 44 "replicate 44 0" h] by simp
  show "length (udp_header_bytes h) = unat (ud_header_size h)"
    using assms length_udp_header_bytes [of h] by (simp add: udp_normal_def)
qed

lemma header_refused: "\<not> udp_fields_ok h \<Longrightarrow> wd_udp_tile_packet_encode_header (replicate 44 0) 44 h = Some (False, replicate 44 0)"
  using encode_header_iff [of 44 "replicate 44 0" h] by simp

lemma fragment_header_normal [simp]: "udp_normal (fragment_header sn job tile_size t n k)"
  by (auto simp: fragment_header_def tile_packet_header_def udp_normal_def Let_def)

lemma fragment_fields:
  shows "ud_session_id (fragment_header sn job tile_size t n k) = sn_session_id sn"
    "ud_connection_token (fragment_header sn job tile_size t n k) = sn_connection_token sn"
    "ud_content_epoch (fragment_header sn job tile_size t n k) = sn_content_epoch sn"
    "ud_tile_size (fragment_header sn job tile_size t n k) = tile_size"
    "ud_tile_pkt_id (fragment_header sn job tile_size t n k) = of_nat k"
    "ud_tile_id (fragment_header sn job tile_size t n k) = tj_tile_id job"
    "ud_tile_pkt_count (fragment_header sn job tile_size t n k) = ucast n"
    "ud_payload_size (fragment_header sn job tile_size t n k) = of_nat (min (unat t) (unat (tj_payload_size job) - k * unat t))"
    "ud_tile_payload_size (fragment_header sn job tile_size t n k) = ucast (tj_payload_size job)"
    "ud_tile_generation (fragment_header sn job tile_size t n k) = tj_generation job"
    "ud_input_sequence (fragment_header sn job tile_size t n 0) = tj_input_sequence job"
    "wd_udp_tile_packet_is_compressed (Some (fragment_header sn job tile_size t n k)) = tj_compressed job"
  by (simp_all add: fragment_header_def tile_packet_header_def Let_def wd_udp_tile_packet_is_compressed_def)

lemma size_code_dims:
  "wd_tile_size_code_for_dimensions w h = Some c \<Longrightarrow> wd_tile_dimensions_for_size_code c = Some (w, h)"
  by (auto simp: wd_tile_size_code_for_dimensions_def wd_tile_dimensions_for_size_code_def split: if_splits)

text \<open>
  The loop queues the fragments in order up to the first that the sender does not take; the delivery
  waits for exactly the queued ones.
\<close>

lemma send_tile_packets_ok:
  assumes t: "0 < unat t" and s: "unat (tj_payload_size job) \<le> 65535" and buf: "unat (tj_payload_size job) \<le> length buf"
  shows "\<forall>k\<in>set ids. k * unat t < unat (tj_payload_size job) \<Longrightarrow>
    unat (ds_pending (tx_status tx)) + length ids < 4294967296 \<Longrightarrow>
    \<exists>tx' j. send_tile_packets sn job buf t n async ids tx = Some tx' \<and> j \<le> length ids \<and>
      tx_packets_sent tx' = tx_packets_sent tx + of_nat j \<and> ds_pending (tx_status tx') = ds_pending (tx_status tx) + of_nat j \<and>
      ds_sealed (tx_status tx') = ds_sealed (tx_status tx) \<and>
      (j = length ids \<longrightarrow> tx_fatal tx' = tx_fatal tx \<and> ds_failed (tx_status tx') = ds_failed (tx_status tx)) \<and>
      ((\<exists>c. wd_tile_size_code_for_dimensions (tj_tile_width job) (tj_tile_height job) = Some c \<and>
         (\<forall>k\<in>set ids. async k = UDP_SEND_QUEUED \<and> udp_fields_ok (fragment_header sn job c t n k))) \<longrightarrow> j = length ids) \<and>
      (j = 0 \<and> tx_datagrams tx' = tx_datagrams tx \<or>
       (\<exists>tile_size. wd_tile_size_code_for_dimensions (tj_tile_width job) (tj_tile_height job) = Some tile_size \<and>
          tx_datagrams tx' = tx_datagrams tx @ map (fragment_datagram sn job tile_size t n buf) (take j ids) \<and>
          (\<forall>k\<in>set (take j ids). udp_fields_ok (fragment_header sn job tile_size t n k))))"
proof (induction ids arbitrary: tx)
  case Nil
  then show ?case by (intro exI [of _ tx] exI [of _ 0]) simp
next
  case (Cons k ids)
  have k: "k * unat t < unat (tj_payload_size job)" using Cons.prems by simp
  note fs = fragment_size_exact [OF t k s]
  have pend: "unat (ds_pending (tx_status tx) + 1) = Suc (unat (ds_pending (tx_status tx)))"
    using Cons.prems(2) by (subst unat_add_exact) simp_all
  then have "ds_pending (tx_status tx) + 1 \<noteq> 0" by (metis Zero_not_Suc unat_0)
  note nz = this pend
  show ?case
  proof (cases "wd_tile_size_code_for_dimensions (tj_tile_width job) (tj_tile_height job)")
    case None
    then show ?thesis by (intro exI [of _ "tx\<lparr>tx_fatal := True\<rparr>"] exI [of _ 0]) simp
  next
    case (Some tile_size)
    let ?h = "fragment_header sn job tile_size t n k" and ?size = "unat (tj_payload_size job)"
    have u: "unat (of_nat (min (unat t) (?size - k * unat t)) :: u16) = min (unat t) (?size - k * unat t)" using s by simp
    have rd: "rd_range buf (k * unat t) (min (unat t) (?size - k * unat t)) = Some (fragment_bytes (unat t) ?size buf k)"
      using buf k by (auto simp: rd_range_def fragment_bytes_def)
    show ?thesis
    proof (cases "udp_fields_ok ?h")
      case False
      then show ?thesis using Some
        by (intro exI [of _ "tx\<lparr>tx_fatal := True\<rparr>"] exI [of _ 0])
          (simp add: fs Let_def fragment_header_def [symmetric] header_refused)
    next
      case ok: True
      note hb = header_of_buffer [OF ok fragment_header_normal]
      let ?tx = "tx\<lparr>tx_status := wd_tile_delivery_status_add (tx_status tx),
        tx_datagrams := tx_datagrams tx @ [fragment_datagram sn job tile_size t n buf k], tx_packets_sent := tx_packets_sent tx + 1,
        tx_result := (tx_result tx)\<lparr>sr_any_packet_sent := True, sr_packets_sent := ucast (tx_packets_sent tx + 1),
          sr_bytes_sent := sr_bytes_sent (tx_result tx) + (ucast (ud_header_size ?h) +
            ucast (of_nat (min (unat t) (?size - k * unat t)) :: u16))\<rparr>\<rparr>"
      have step: "send_tile_packets sn job buf t n async (k # ids) tx =
        (case async k of
           UDP_SEND_SATURATED \<Rightarrow> Some (tx\<lparr>tx_status := snd (wd_tile_delivery_status_complete False (wd_tile_delivery_status_add (tx_status tx))),
             tx_result := (tx_result tx)\<lparr>sr_send_blocked := True\<rparr>\<rparr>)
         | UDP_SEND_FAILED \<Rightarrow> Some (tx\<lparr>tx_status := snd (wd_tile_delivery_status_complete True (wd_tile_delivery_status_add (tx_status tx))),
             tx_fatal := True\<rparr>)
         | UDP_SEND_QUEUED \<Rightarrow> send_tile_packets sn job buf t n async ids ?tx)"
        using Some hb rd u
        by (simp add: fs Let_def fragment_header_def [symmetric] fragment_datagram_def cong: wd_async_udp_send_status.case_cong)
      show ?thesis
      proof (cases "async k")
        case UDP_SEND_QUEUED
        have "\<forall>k\<in>set ids. k * unat t < ?size" using Cons.prems by simp
        moreover have "unat (ds_pending (tx_status ?tx)) + length ids < 4294967296"
          using pend Cons.prems(2) by (simp add: wd_tile_delivery_status_add_def)
        ultimately obtain tx' j where
          x: "send_tile_packets sn job buf t n async ids ?tx = Some tx'" "j \<le> length ids"
            "tx_packets_sent tx' = tx_packets_sent ?tx + of_nat j" "ds_pending (tx_status tx') = ds_pending (tx_status ?tx) + of_nat j"
            "ds_sealed (tx_status tx') = ds_sealed (tx_status ?tx)"
            "j = length ids \<longrightarrow> tx_fatal tx' = tx_fatal ?tx \<and> ds_failed (tx_status tx') = ds_failed (tx_status ?tx)"
            "(\<exists>c. wd_tile_size_code_for_dimensions (tj_tile_width job) (tj_tile_height job) = Some c \<and>
               (\<forall>k\<in>set ids. async k = UDP_SEND_QUEUED \<and> udp_fields_ok (fragment_header sn job c t n k))) \<longrightarrow> j = length ids"
            "j = 0 \<and> tx_datagrams tx' = tx_datagrams ?tx \<or>
             (\<exists>tile_size. wd_tile_size_code_for_dimensions (tj_tile_width job) (tj_tile_height job) = Some tile_size \<and>
                tx_datagrams tx' = tx_datagrams ?tx @ map (fragment_datagram sn job tile_size t n buf) (take j ids) \<and>
                (\<forall>k\<in>set (take j ids). udp_fields_ok (fragment_header sn job tile_size t n k)))" using Cons.IH [of ?tx] by blast
        show ?thesis unfolding step UDP_SEND_QUEUED
          using x ok Some by (intro exI [of _ tx'] exI [of _ "Suc j"]) (auto simp: wd_tile_delivery_status_add_def)
      qed (unfold step, use nz in \<open>auto intro!: exI [of _ 0] simp: wd_tile_delivery_status_complete_def wd_tile_delivery_status_add_def Let_def\<close>)
    qed
  qed
qed

lemma fragment_inflight [simp]:
  "fragment_header (sn\<lparr>sn_input_correlation_inflight_sequence := q\<rparr>) job tile_size t n k = fragment_header sn job tile_size t n k"
  "fragment_datagram (sn\<lparr>sn_input_correlation_inflight_sequence := q\<rparr>) job tile_size t n buf k = fragment_datagram sn job tile_size t n buf k"
  by (simp_all add: fragment_header_def fragment_datagram_def tile_packet_header_def)

definition sender_target :: "tile_sender \<Rightarrow> u16" where
  "sender_target sn = wd_tile_normalize_udp_payload_target (sn_udp_payload_target sn) WD_UDP_PAYLOAD_TARGET WD_UDP_TILE_PAYLOAD_MAX"

text \<open>Whether a tile gets as far as the packet loop.\<close>

definition tile_ready :: "bool \<Rightarrow> tile_sender \<Rightarrow> tile_job \<Rightarrow> bytes \<Rightarrow> bool" where
  "tile_ready allocated sn job buf \<longleftrightarrow>
     (let tx = wd_tiles_for_width_with_tile (sn_display_width sn) (tj_tile_width job);
          ty = wd_tiles_for_height_with_tile (sn_display_height sn) (tj_tile_height job);
          n = wd_tile_packet_count_for_payload (tj_payload_size job) (sender_target sn)
      in tx \<noteq> 0 \<and> ty \<noteq> 0 \<and> unat (tj_tile_id job) < unat tx * unat ty \<and> unat tx * unat ty \<le> 65535 \<and>
         tj_payload job = Some buf \<and> unat (tj_payload_size job) \<le> length buf \<and>
         wd_stream_collect_wire_tile_base_ids sn (tj_tile_id job) (tj_tile_width job) (tj_tile_height job) WD_WIRE_TILE_MAX_BASE_TILES \<noteq> None \<and>
         allocated \<and> sn_client_connected sn \<and> n \<noteq> 0 \<and> unat n \<le> 255 \<and> unat (tj_payload_size job) \<le> 65535)"

lemma grid_nonzero: "wd_tiles_for_width_with_tile w t \<noteq> 0 \<Longrightarrow> t \<noteq> 0" "wd_tiles_for_height_with_tile w t \<noteq> 0 \<Longrightarrow> t \<noteq> 0"
  by (auto simp: wd_tiles_for_width_with_tile_def wd_tiles_for_height_with_tile_def split: if_splits)

lemma count_zero: "wd_tile_packet_count_for_payload 0 t = 0"
  by (simp add: wd_tile_packet_count_for_payload_def)

lemma send_ready:
  assumes "tile_ready allocated sn job buf"
  defines "sn' \<equiv> if tj_input_sequence job \<noteq> 0 then sn\<lparr>sn_input_correlation_inflight_sequence := tj_input_sequence job\<rparr> else sn"
    and "n \<equiv> wd_tile_packet_count_for_payload (tj_payload_size job) (sender_target sn)"
  shows "wd_stream_send_tile_payload_sized_locked allocated async sn job =
    map_option (finish_sending sn' job n) (send_tile_packets sn' job buf (sender_target sn) n async [0 ..< unat n] start_sending)"
proof -
  note r = assms(1) [unfolded tile_ready_def Let_def]
  have "tj_tile_width job \<noteq> 0" "tj_tile_height job \<noteq> 0" using r grid_nonzero by blast+
  moreover have "tj_payload_size job \<noteq> 0" using r count_zero by metis
  moreover have "\<not> n > 255" "n \<noteq> 0" "\<not> tj_payload_size job > 65535" using r by (auto simp: n_def word_less_nat_alt)
  moreover obtain ids where
    "wd_stream_collect_wire_tile_base_ids sn (tj_tile_id job) (tj_tile_width job) (tj_tile_height job) 32 = Some ids"
    using r by blast
  ultimately show ?thesis using r
    unfolding wd_stream_send_tile_payload_sized_locked_def Let_def sender_target_def [symmetric] n_def [symmetric] sn'_def [symmetric]
    by (simp add: word_le_nat_alt word_less_nat_alt unat_mult_u16 not_less)
qed

lemma early_returns:
  "\<lbrakk>A \<or> B \<or> C \<or> D \<or> E; P a; P b; P c; P e\<rbrakk> \<Longrightarrow>
   P (if A then a else if B then b else if C then a else if D then c else if E then e else x)"
  by auto

lemma send_not_ready:
  assumes "\<not> tile_ready allocated sn job (the (tj_payload job))"
  shows "\<exists>ok fin. wd_stream_send_tile_payload_sized_locked allocated async sn job = Some ((nothing_sent sn ok)\<lparr>to_finished := fin\<rparr>)"
proof -
  have n: "\<exists>ok' fin. Some (nothing_sent sn ok) = Some ((nothing_sent sn ok')\<lparr>to_finished := fin\<rparr>)" for ok
    by (intro exI [of _ ok] exI [of _ None]) (simp add: nothing_sent_def)
  show ?thesis unfolding wd_stream_send_tile_payload_sized_locked_def Let_def sender_target_def [symmetric]
  proof (rule early_returns, goal_cases)
    case 1
    show ?case using assms unfolding tile_ready_def Let_def
      by (cases "tj_payload job") (auto simp: word_le_nat_alt word_less_nat_alt unat_mult_u16 not_less)
  qed (use n in blast)+
qed

text \<open>The packet loop of a tile that gets there.\<close>

lemma start_sending_fields [simp]:
  "tx_datagrams start_sending = []" "tx_packets_sent start_sending = 0" "\<not> tx_fatal start_sending"
  "ds_pending (tx_status start_sending) = 0"
  by (simp_all add: start_sending_def)

lemma send_loop:
  assumes ready: "tile_ready allocated sn job buf"
  defines "t \<equiv> sender_target sn" and "n \<equiv> wd_tile_packet_count_for_payload (tj_payload_size job) (sender_target sn)"
  obtains tx j sn' where "wd_stream_send_tile_payload_sized_locked allocated async sn job = Some (finish_sending sn' job n tx)"
    "j \<le> unat n" "unat n \<le> 255" "0 < unat n" "tx_packets_sent tx = of_nat j" "ds_pending (tx_status tx) = of_nat j"
    "j = unat n \<Longrightarrow> \<not> tx_fatal tx"
    "\<And>c. \<lbrakk>wd_tile_size_code_for_dimensions (tj_tile_width job) (tj_tile_height job) = Some c;
      \<forall>k<unat n. async k = UDP_SEND_QUEUED \<and> udp_fields_ok (fragment_header sn job c t n k)\<rbrakk> \<Longrightarrow> j = unat n"
    "j = 0 \<and> tx_datagrams tx = [] \<or>
       (\<exists>tile_size. wd_tile_size_code_for_dimensions (tj_tile_width job) (tj_tile_height job) = Some tile_size \<and>
          tx_datagrams tx = map (fragment_datagram sn job tile_size t n buf) [0..<j] \<and>
          (\<forall>k<j. udp_fields_ok (fragment_header sn job tile_size t n k)))"
proof -
  let ?sn = "if tj_input_sequence job \<noteq> 0 then sn\<lparr>sn_input_correlation_inflight_sequence := tj_input_sequence job\<rparr> else sn"
  let ?ids = "[0..<unat n]"
  note r = ready [unfolded tile_ready_def Let_def]
  have nz: "n \<noteq> 0" "tj_payload_size job \<le> 65535" using r by (auto simp: n_def word_le_nat_alt)
  note c = packet_count_exact [OF nz [unfolded n_def], folded n_def t_def]
  have ks: "\<forall>k\<in>set ?ids. k * unat t < unat (tj_payload_size job)"
    using less_ceil_div_iff [OF c(1)] c(3) by auto
  have n255: "unat n \<le> 255" and sz: "unat (tj_payload_size job) \<le> 65535" "unat (tj_payload_size job) \<le> length buf"
    using r by (simp_all add: n_def)
  have fr: "fragment_datagram ?sn job = fragment_datagram sn job" "fragment_header ?sn job = fragment_header sn job"
    by (auto intro!: ext)
  have pend: "unat (ds_pending (tx_status start_sending)) + length ?ids < 4294967296" using n255 by simp
  obtain tx j where x: "send_tile_packets ?sn job buf t n async ?ids start_sending = Some tx" "j \<le> length ?ids"
      "tx_packets_sent tx = tx_packets_sent start_sending + of_nat j"
      "ds_pending (tx_status tx) = ds_pending (tx_status start_sending) + of_nat j"
      "j = length ?ids \<longrightarrow> tx_fatal tx = tx_fatal start_sending"
      "(\<exists>c. wd_tile_size_code_for_dimensions (tj_tile_width job) (tj_tile_height job) = Some c \<and>
         (\<forall>k\<in>set ?ids. async k = UDP_SEND_QUEUED \<and> udp_fields_ok (fragment_header sn job c t n k))) \<longrightarrow> j = length ?ids"
      "j = 0 \<and> tx_datagrams tx = tx_datagrams start_sending \<or>
       (\<exists>tile_size. wd_tile_size_code_for_dimensions (tj_tile_width job) (tj_tile_height job) = Some tile_size \<and>
          tx_datagrams tx = tx_datagrams start_sending @ map (fragment_datagram sn job tile_size t n buf) (take j ?ids) \<and>
          (\<forall>k\<in>set (take j ?ids). udp_fields_ok (fragment_header sn job tile_size t n k)))"
    using send_tile_packets_ok [OF c(1) sz ks pend, of ?sn n async, unfolded fr] by blast
  have all: "j = unat n" if "wd_tile_size_code_for_dimensions (tj_tile_width job) (tj_tile_height job) = Some c"
      "\<forall>k<unat n. async k = UDP_SEND_QUEUED \<and> udp_fields_ok (fragment_header sn job c t n k)" for c
    using x(6) that by auto
  have tk: "take j ?ids = [0..<j]" using x(2) by (simp add: take_upt)
  show thesis
  proof (rule that [of ?sn tx j])
    show "wd_stream_send_tile_payload_sized_locked allocated async sn job = Some (finish_sending ?sn job n tx)"
      using send_ready [OF ready, of async] x(1) by (simp add: n_def t_def)
    show "0 < unat n" using nz by (simp add: unat_gt_0)
  qed (use x all n255 in \<open>auto simp: tk\<close>)
qed

text \<open>
  A tile that was sent whole: the datagrams are all its fragments, and each has a header that the
  receiver decodes.
\<close>

lemma send_all:
  assumes s: "wd_stream_send_tile_payload_sized_locked allocated async sn job = Some out"
    and all: "to_ok out" "sr_all_packets_sent (to_result out)"
  defines "t \<equiv> sender_target sn" and "n \<equiv> wd_tile_packet_count_for_payload (tj_payload_size job) (sender_target sn)"
  obtains buf tile_size where "tile_ready allocated sn job buf"
    "wd_tile_size_code_for_dimensions (tj_tile_width job) (tj_tile_height job) = Some tile_size"
    "to_datagrams out = map (fragment_datagram sn job tile_size t n buf) [0 ..< unat n]"
    "\<And>k. k < unat n \<Longrightarrow> udp_fields_ok (fragment_header sn job tile_size t n k)"
proof (cases "tile_ready allocated sn job (the (tj_payload job))")
  case False
  then show thesis using send_not_ready [OF False, of async] s all by (auto simp: nothing_sent_def wd_stream_init_send_result_def)
next
  case ready: True
  obtain tx j sn' where x: "wd_stream_send_tile_payload_sized_locked allocated async sn job = Some (finish_sending sn' job n tx)"
      "j \<le> unat n" "unat n \<le> 255" "0 < unat n" "tx_packets_sent tx = of_nat j"
    "j = 0 \<and> tx_datagrams tx = [] \<or>
       (\<exists>tile_size. wd_tile_size_code_for_dimensions (tj_tile_width job) (tj_tile_height job) = Some tile_size \<and>
          tx_datagrams tx = map (fragment_datagram sn job tile_size t n (the (tj_payload job))) [0..<j] \<and>
          (\<forall>k<j. udp_fields_ok (fragment_header sn job tile_size t n k)))"
    unfolding t_def n_def by (rule send_loop [OF ready])
  have out: "tx_packets_sent tx = n" "to_datagrams out = tx_datagrams tx" using all x(1) s
    by (auto simp: finish_sending_def Let_def case_prod_beta split: if_splits)
  then have "j = unat n" using x(2,3,5) by (auto simp: unat_eq_iff)
  then show thesis using x(4,6) out(2) that [OF ready] by auto
qed

text \<open>A tile is sent whole if the sender takes every packet and the connection has its identifiers.\<close>

lemma fragment_fields_ok:
  assumes ready: "tile_ready allocated sn job buf"
    and code: "wd_tile_size_code_for_dimensions (tj_tile_width job) (tj_tile_height job) = Some tile_size"
    and nz: "sn_session_id sn \<noteq> 0" "sn_connection_token sn \<noteq> 0" "sn_content_epoch sn \<noteq> 0" "tj_generation job \<noteq> 0"
  defines "t \<equiv> sender_target sn" and "n \<equiv> wd_tile_packet_count_for_payload (tj_payload_size job) (sender_target sn)"
  assumes k: "k < unat n"
  shows "udp_fields_ok (fragment_header sn job tile_size t n k)"
proof -
  let ?h = "fragment_header sn job tile_size t n k" and ?sz = "unat (tj_payload_size job)"
  note r = ready [unfolded tile_ready_def Let_def]
  have n0: "n \<noteq> 0" "tj_payload_size job \<le> 65535" using r by (auto simp: n_def word_le_nat_alt)
  note c = packet_count_exact [OF n0 [unfolded n_def], folded n_def t_def]
  have s: "?sz \<le> 65535" "unat n \<le> 255" using r by (auto simp: n_def)
  have ksz: "k * unat t < ?sz" using less_ceil_div_iff [OF c(1)] c(3) k by simp
  have u: "unat (ud_tile_pkt_count ?h) = unat n" "unat (ud_tile_pkt_id ?h) = k" "unat (ud_tile_payload_size ?h) = ?sz"
    "unat (ud_payload_size ?h) = min (unat t) (?sz - k * unat t)"
    unfolding fragment_fields using s k by (simp_all add: unat_ucast_mod)
  then have "ud_tile_pkt_count ?h \<noteq> 0" "ud_tile_payload_size ?h \<noteq> 0" "ud_payload_size ?h \<noteq> 0" "ud_tile_pkt_id ?h < ud_tile_pkt_count ?h"
    "ud_payload_size ?h \<le> ud_tile_payload_size ?h"
    using k c ksz by (auto simp: word_less_nat_alt word_le_nat_alt)
  moreover have "ud_flags ?h AND NOT WD_UDP_TILE_FLAG_MASK = 0" "ud_flags ?h AND WD_UDP_TILE_FLAG_INPUT_SEQUENCE \<noteq> 0 \<longrightarrow>
      ud_tile_pkt_id ?h = 0 \<and> ud_input_sequence ?h \<noteq> 0"
    by (auto simp: fragment_header_def tile_packet_header_def Let_def split: if_splits)
  ultimately show ?thesis using nz size_code_dims [OF code] by (simp add: udp_fields_ok_def fragment_fields)
qed

lemma send_complete:
  assumes ready: "tile_ready allocated sn job buf"
    and code: "wd_tile_size_code_for_dimensions (tj_tile_width job) (tj_tile_height job) = Some tile_size"
    and nz: "sn_session_id sn \<noteq> 0" "sn_connection_token sn \<noteq> 0" "sn_content_epoch sn \<noteq> 0" "tj_generation job \<noteq> 0"
    and queued: "\<And>k. async k = UDP_SEND_QUEUED"
  shows "\<exists>out. wd_stream_send_tile_payload_sized_locked allocated async sn job = Some out \<and> to_ok out \<and> sr_all_packets_sent (to_result out) \<and>
    to_datagrams out = map (fragment_datagram sn job tile_size (sender_target sn)
      (wd_tile_packet_count_for_payload (tj_payload_size job) (sender_target sn)) buf)
      [0 ..< unat (wd_tile_packet_count_for_payload (tj_payload_size job) (sender_target sn))]"
proof -
  let ?t = "sender_target sn" and ?n = "wd_tile_packet_count_for_payload (tj_payload_size job) (sender_target sn)"
  obtain tx j sn' where x: "wd_stream_send_tile_payload_sized_locked allocated async sn job = Some (finish_sending sn' job ?n tx)"
      "j \<le> unat ?n" "unat ?n \<le> 255" "0 < unat ?n" "tx_packets_sent tx = of_nat j" "ds_pending (tx_status tx) = of_nat j" "j = unat ?n \<Longrightarrow> \<not> tx_fatal tx"
      "\<And>c. \<lbrakk>wd_tile_size_code_for_dimensions (tj_tile_width job) (tj_tile_height job) = Some c;
        \<forall>k<unat ?n. async k = UDP_SEND_QUEUED \<and> udp_fields_ok (fragment_header sn job c ?t ?n k)\<rbrakk> \<Longrightarrow> j = unat ?n"
      "j = 0 \<and> tx_datagrams tx = [] \<or>
        (\<exists>tile_size. wd_tile_size_code_for_dimensions (tj_tile_width job) (tj_tile_height job) = Some tile_size \<and>
          tx_datagrams tx = map (fragment_datagram sn job tile_size ?t ?n buf) [0..<j] \<and>
          (\<forall>k<j. udp_fields_ok (fragment_header sn job tile_size ?t ?n k)))"
    by (rule send_loop [OF ready, of async]) (rule that; blast)
  have j: "j = unat ?n" by (rule x(8) [OF code]) (use fragment_fields_ok [OF ready code nz] queued in blast)
  then have "\<not> tx_fatal tx" "tx_packets_sent tx = ?n" "tx_datagrams tx = map (fragment_datagram sn job tile_size ?t ?n buf) [0..<unat ?n]"
    using x code by auto
  then show ?thesis using x(1) by (simp add: finish_sending_def Let_def case_prod_beta)
qed

section \<open>Every delivery is finished once\<close>

fun packet_completions :: "bool list \<Rightarrow> wd_tile_delivery_status \<Rightarrow> bool option list" where
  "packet_completions [] status = []"
| "packet_completions (success # bs) status =
     (case wd_stream_udp_tile_packet_completion success status of (r, status) \<Rightarrow> r # packet_completions bs status)"

lemma completions_finish_once:
  "\<lbrakk>ds_sealed status; unat (ds_pending status) = length bs; bs \<noteq> []\<rbrakk> \<Longrightarrow>
   packet_completions bs status = replicate (length bs - 1) None @ [Some (ds_failed status \<or> False \<in> set bs)]"
proof (induction bs arbitrary: status)
  case (Cons b bs)
  have nz: "ds_pending status \<noteq> 0" and p: "unat (ds_pending status - 1) = length bs"
    using Cons.prems(2) unat_sub_exact [of 1 "ds_pending status"] by (auto simp: unat_eq_iff)
  let ?s = "status\<lparr>ds_pending := ds_pending status - 1, ds_failed := ds_failed status \<or> \<not> b\<rparr>"
  have c: "wd_stream_udp_tile_packet_completion b status = (wd_tile_delivery_status_ready ?s, ?s)"
    using nz by (simp add: wd_stream_udp_tile_packet_completion_def wd_tile_delivery_status_complete_def Let_def)
  show ?case
  proof (cases "bs = []")
    case True
    then show ?thesis using c p Cons.prems(1) by (auto simp: wd_tile_delivery_status_ready_def unat_eq_zero)
  next
    case False
    then have "wd_tile_delivery_status_ready ?s = None" using p by (auto simp: wd_tile_delivery_status_ready_def)
    then show ?thesis using c Cons.IH [of ?s] p False Cons.prems(1) by (cases bs) auto
  qed
qed simp

text \<open>
  The delivery that a tile leaves behind waits for its datagrams: the call finishes it itself
  if there are none, and otherwise the completion of the last datagram does.
\<close>

lemma delivery_finishes_once:
  assumes s: "wd_stream_send_tile_payload_sized_locked allocated async sn job = Some out"
    and bs: "length bs = length (to_datagrams out)"
  shows "case to_delivery out of
      None \<Rightarrow> to_datagrams out = []
    | Some status \<Rightarrow> to_finished out = None \<and>
        (\<exists>failed. packet_completions bs status = replicate (length bs - 1) None @ [Some failed] \<and> (False \<in> set bs \<longrightarrow> failed))"
proof (cases "tile_ready allocated sn job (the (tj_payload job))")
  case False
  then show ?thesis using send_not_ready [OF False, of async] s by (auto simp: nothing_sent_def)
next
  case ready: True
  let ?n = "wd_tile_packet_count_for_payload (tj_payload_size job) (sender_target sn)"
  obtain tx j sn' where x: "wd_stream_send_tile_payload_sized_locked allocated async sn job = Some (finish_sending sn' job ?n tx)"
      "j \<le> unat ?n" "unat ?n \<le> 255" "ds_pending (tx_status tx) = of_nat j" "length (tx_datagrams tx) = j"
    by (rule send_loop [OF ready, of async]) auto
  define sl where "sl = wd_stream_seal_udp_tile_delivery (tx_fatal tx \<or> tx_packets_sent tx \<noteq> ?n) (tx_status tx)"
  have d: "to_delivery out = (if fst sl = None then Some (snd sl) else None)" "to_finished out = fst sl"
      "to_datagrams out = tx_datagrams tx"
    using x(1) s by (auto simp: finish_sending_def Let_def case_prod_beta sl_def)
  have f: "fst sl = (if ds_pending (snd sl) \<noteq> 0 then None else Some (ds_failed (snd sl)))" "ds_sealed (snd sl)"
      "ds_pending (snd sl) = of_nat j"
    using x(4) by (simp_all add: sl_def wd_stream_seal_udp_tile_delivery_def wd_tile_delivery_status_seal_def
      wd_tile_delivery_status_ready_def Let_def)
  have u: "unat (ds_pending (snd sl)) = j" using f(3) x(2,3) by simp
  show ?thesis
  proof (cases "j = 0")
    case True
    then show ?thesis using d f x(5) by simp
  next
    case False
    then have "ds_pending (snd sl) \<noteq> 0" using u by (metis unat_0)
    then have "fst sl = None" using f(1) by simp
    moreover have "bs \<noteq> []" using False bs d(3) x(5) by auto
    moreover have "unat (ds_pending (snd sl)) = length bs" using u bs d(3) x(5) by simp
    note completions_finish_once [OF f(2) this \<open>bs \<noteq> []\<close>]
    ultimately show ?thesis using d by (auto simp: bex_simps)
  qed
qed

end
