(* ===== verification/WD_Repair.thy ===== *)
theory WD_Repair
  imports WD_Tile WD_Wire
begin

text \<open>
  What the client keeps about the tiles it has received and asked for again: the first part of
  \<open>src/src/client/tile_reassembly.cpp\<close> (the reassembly timeout, the retransmission lists and the
  base tiles that a wire tile covers). The lists are indexed by base tile.

  The estimator of the timeout computes with floating point; its result is the parameter
  \<open>jittered\<close> of \<open>update_tile_reassembly_timeout\<close>. Counters for statistics are left out.
\<close>

record tile_config =
  tc_session_id :: u8
  tc_connection_token :: u64
  tc_width :: u16
  tc_height :: u16
  tc_tile_width :: u16
  tc_tile_height :: u16
  tc_tiles_x :: u16
  tc_tiles_y :: u16
  tc_total_tiles :: u16
  tc_udp_payload_target :: u16

record client_tiles =
  ct_config :: tile_config
  ct_received_generation :: "u64 list"
  ct_retx_queue :: "u16 list"
  ct_retx_queued_generation :: "u64 list"
  ct_retx_last_requested_generation :: "u64 list"
  ct_retx_last_request_ns :: "u64 list"
  ct_retx_inflight_generation :: "u64 list"
  ct_retx_inflight_since_ns :: "u64 list"
  ct_retx_inflight_grace_ns :: u64
  ct_reassembly_floor_ns :: u64
  ct_reassembly_timeout_ns :: u64

section \<open>The reassembly timeout\<close>

abbreviation (input) TILE_REASSEMBLY_TIMEOUT_MIN_NS :: u64 where "TILE_REASSEMBLY_TIMEOUT_MIN_NS \<equiv> 150000000"
abbreviation (input) TILE_REASSEMBLY_TIMEOUT_DEFAULT_NS :: u64 where "TILE_REASSEMBLY_TIMEOUT_DEFAULT_NS \<equiv> 250000000"
abbreviation (input) TILE_REASSEMBLY_TIMEOUT_MAX_NS :: u64 where "TILE_REASSEMBLY_TIMEOUT_MAX_NS \<equiv> 900000000"

definition tile_reassembly_floor_ns :: "client_tiles \<Rightarrow> u64" where
  "tile_reassembly_floor_ns st =
     (let floor_ns = (if ct_reassembly_floor_ns st = 0 then TILE_REASSEMBLY_TIMEOUT_MIN_NS else ct_reassembly_floor_ns st)
      in max TILE_REASSEMBLY_TIMEOUT_MIN_NS (min TILE_REASSEMBLY_TIMEOUT_MAX_NS floor_ns))"

definition clamp_tile_reassembly_timeout_ns :: "client_tiles \<Rightarrow> u64 \<Rightarrow> u64" where
  "clamp_tile_reassembly_timeout_ns st ns = max (tile_reassembly_floor_ns st) (min TILE_REASSEMBLY_TIMEOUT_MAX_NS ns)"

definition clamp_retransmit_inflight_grace_ns :: "u64 \<Rightarrow> u64" where
  "clamp_retransmit_inflight_grace_ns ns = max 250000000 (min 1200000000 ns)"

definition current_tile_reassembly_timeout_ns :: "client_tiles \<Rightarrow> u64" where
  "current_tile_reassembly_timeout_ns st =
     (if ct_reassembly_timeout_ns st = 0 then max (tile_reassembly_floor_ns st) TILE_REASSEMBLY_TIMEOUT_DEFAULT_NS
      else clamp_tile_reassembly_timeout_ns st (ct_reassembly_timeout_ns st))"

definition update_tile_reassembly_timeout :: "u64 \<Rightarrow> u64 \<Rightarrow> bool \<Rightarrow> client_tiles \<Rightarrow> client_tiles" where
  "update_tile_reassembly_timeout jittered sample_ns response_sample st =
     (if sample_ns = 0 \<or> response_sample then st
      else
        let target_ns = clamp_tile_reassembly_timeout_ns st jittered in
        if current_tile_reassembly_timeout_ns st \<noteq> target_ns then st\<lparr>ct_reassembly_timeout_ns := target_ns\<rparr> else st)"

definition reduce_tile_reassembly_timeout_after_loss :: "client_tiles \<Rightarrow> client_tiles" where
  "reduce_tile_reassembly_timeout_after_loss st =
     (let old_ns = current_tile_reassembly_timeout_ns st;
          target_ns = old_ns * 75 div 100;
          target_ns = (if old_ns > TILE_REASSEMBLY_TIMEOUT_DEFAULT_NS \<and> target_ns > TILE_REASSEMBLY_TIMEOUT_DEFAULT_NS
                       then TILE_REASSEMBLY_TIMEOUT_DEFAULT_NS else target_ns);
          target_ns = clamp_tile_reassembly_timeout_ns st target_ns
      in if old_ns \<noteq> target_ns then st\<lparr>ct_reassembly_timeout_ns := target_ns\<rparr> else st)"

lemma reassembly_timeout_bounds:
  "150000000 \<le> unat (current_tile_reassembly_timeout_ns st)" "unat (current_tile_reassembly_timeout_ns st) \<le> 900000000"
  by (auto simp: current_tile_reassembly_timeout_ns_def clamp_tile_reassembly_timeout_ns_def tile_reassembly_floor_ns_def Let_def
      max_def min_def word_le_nat_alt)

lemma floor_frame [simp]: "tile_reassembly_floor_ns (st\<lparr>ct_reassembly_timeout_ns := t\<rparr>) = tile_reassembly_floor_ns st"
  by (simp add: tile_reassembly_floor_ns_def)

lemma current_after_set:
  assumes "c = clamp_tile_reassembly_timeout_ns st x"
  shows "current_tile_reassembly_timeout_ns (st\<lparr>ct_reassembly_timeout_ns := c\<rparr>) = c"
proof -
  have f: "150000000 \<le> unat (tile_reassembly_floor_ns st)"
    by (auto simp: tile_reassembly_floor_ns_def Let_def max_def min_def word_le_nat_alt)
  have nz: "c \<noteq> 0" using f assms by (auto simp: clamp_tile_reassembly_timeout_ns_def max_def unat_eq_iff word_le_nat_alt)
  have "clamp_tile_reassembly_timeout_ns (st\<lparr>ct_reassembly_timeout_ns := c\<rparr>) c = c"
    unfolding clamp_tile_reassembly_timeout_ns_def floor_frame assms by (auto simp: max_def min_def)
  then show ?thesis using nz by (simp add: current_tile_reassembly_timeout_ns_def)
qed

text \<open>A loss cuts the timeout to three quarters and to the default at most, but never below the floor.\<close>

lemma reduce_after_loss:
  "unat (current_tile_reassembly_timeout_ns (reduce_tile_reassembly_timeout_after_loss st))
     \<le> max (unat (tile_reassembly_floor_ns st)) (min 250000000 (unat (current_tile_reassembly_timeout_ns st) * 75 div 100))"
proof -
  let ?old = "current_tile_reassembly_timeout_ns st" and ?f = "tile_reassembly_floor_ns st"
  have t: "unat (?old * 75 div 100) = unat ?old * 75 div 100"
    using reassembly_timeout_bounds(2) [of st] by (simp add: unat_div unat_mult_exact)
  let ?t = "if ?old > 250000000 \<and> ?old * 75 div 100 > 250000000 then 250000000 else ?old * 75 div 100"
  let ?c = "clamp_tile_reassembly_timeout_ns st ?t"
  have u: "unat ?t \<le> min 250000000 (unat ?old * 75 div 100)" using t by (auto simp: word_less_nat_alt)
  then have c: "unat ?c \<le> max (unat ?f) (min 250000000 (unat ?old * 75 div 100))"
    by (auto simp: clamp_tile_reassembly_timeout_ns_def max_def min_def word_le_nat_alt)
  have "reduce_tile_reassembly_timeout_after_loss st = (if ?old \<noteq> ?c then st\<lparr>ct_reassembly_timeout_ns := ?c\<rparr> else st)"
    unfolding reduce_tile_reassembly_timeout_after_loss_def Let_def ..
  moreover have "current_tile_reassembly_timeout_ns (st\<lparr>ct_reassembly_timeout_ns := ?c\<rparr>) = ?c" by (rule current_after_set) (rule refl)
  ultimately show ?thesis using c by (cases "?old = ?c") simp_all
qed

section \<open>Retransmission\<close>

definition clear_retx_inflight :: "u16 \<Rightarrow> u64 \<Rightarrow> client_tiles \<Rightarrow> client_tiles" where
  "clear_retx_inflight tile generation st =
     (let total = unat (tc_total_tiles (ct_config st)); i = unat tile in
      if length (ct_retx_inflight_generation st) = total \<and> length (ct_retx_inflight_since_ns st) = total \<and>
         i < length (ct_retx_inflight_generation st) \<and> ct_retx_inflight_generation st ! i = generation
      then st\<lparr>ct_retx_inflight_generation := (ct_retx_inflight_generation st)[i := 0],
              ct_retx_inflight_since_ns := (ct_retx_inflight_since_ns st)[i := 0]\<rparr>
      else st)"

text \<open>\<open>assign(total, 0)\<close> on a list that has another size.\<close>

definition sized :: "nat \<Rightarrow> u64 list \<Rightarrow> u64 list" where
  "sized n xs = (if length xs \<noteq> n then replicate n 0 else xs)"

lemma length_sized [simp]: "length (sized n xs) = n" by (simp add: sized_def)

definition enqueue_retx_for_partial_timeout :: "u16 \<Rightarrow> u64 \<Rightarrow> client_tiles \<Rightarrow> bool \<times> client_tiles" where
  "enqueue_retx_for_partial_timeout tile generation st =
     (let total_tiles = tc_total_tiles (ct_config st); n = unat total_tiles; i = unat tile in
      if total_tiles = 0 \<or> tile \<ge> total_tiles \<or> length (ct_received_generation st) \<noteq> n then (False, st)
      else if ct_received_generation st ! i \<ge> generation then (False, st)
      else
        let st = st\<lparr>ct_retx_queued_generation := sized n (ct_retx_queued_generation st),
                    ct_retx_last_requested_generation := sized n (ct_retx_last_requested_generation st),
                    ct_retx_last_request_ns := sized n (ct_retx_last_request_ns st),
                    ct_retx_inflight_generation := sized n (ct_retx_inflight_generation st),
                    ct_retx_inflight_since_ns := sized n (ct_retx_inflight_since_ns st)\<rparr>;
            st = (if ct_retx_queued_generation st ! i = 0 then st\<lparr>ct_retx_queue := ct_retx_queue st @ [tile]\<rparr> else st);
            st = (if ct_retx_queued_generation st ! i < generation
                  then st\<lparr>ct_retx_queued_generation := (ct_retx_queued_generation st)[i := generation]\<rparr> else st);
            st = (if ct_retx_inflight_generation st ! i = generation
                  then st\<lparr>ct_retx_inflight_generation := (ct_retx_inflight_generation st)[i := 0],
                          ct_retx_inflight_since_ns := (ct_retx_inflight_since_ns st)[i := 0]\<rparr> else st)
        in (True, st))"

text \<open>
  The base tiles under a wire tile, in the order of the loops of \<open>for_each_base_tile_covered\<close>. An
  accepted configuration has at least one tile per row and column, so that the loops' upper
  bounds do not wrap.
\<close>

definition base_tiles_covered :: "u8 \<Rightarrow> u16 \<Rightarrow> tile_config \<Rightarrow> u16 list" where
  "base_tiles_covered tile_size tile config =
     (case wd_tile_dimensions_for_size_code tile_size of
        None \<Rightarrow> []
      | Some (tw, th) \<Rightarrow>
          if tc_tile_width config = 0 \<or> tc_tile_height config = 0 then []
          else
            let tiles_x = wd_tiles_for_width_with_tile (ucast (tc_width config)) tw in
            if tiles_x = 0 then []
            else
              let x = wd_tile_start_x_for_tile tile tiles_x tw;
                  y = wd_tile_start_y_for_tile tile tiles_x th;
                  w = wd_tile_visible_width_for_tile (ucast (tc_width config)) tile tiles_x tw;
                  h = wd_tile_visible_height_for_tile (ucast (tc_height config)) tile tiles_x th
              in
              if w = 0 \<or> h = 0 then []
              else
                let bx0 = x div ucast (tc_tile_width config);
                    by0 = y div ucast (tc_tile_height config);
                    bx1 = (x + w - 1) div ucast (tc_tile_width config);
                    by1 = (y + h - 1) div ucast (tc_tile_height config);
                    bx1 = (if bx1 \<ge> ucast (tc_tiles_x config) then ucast (tc_tiles_x config) - 1 else bx1);
                    by1 = (if by1 \<ge> ucast (tc_tiles_y config) then ucast (tc_tiles_y config) - 1 else by1);
                    ids = concat (map (\<lambda>b. map (\<lambda>a. of_nat b * ucast (tc_tiles_x config) + of_nat a)
                            [unat bx0 ..< Suc (unat bx1)]) [unat by0 ..< Suc (unat by1)]) :: u32 list
                in map ucast (filter (\<lambda>i. i < ucast (tc_total_tiles config)) ids))"

definition clear_entry_retx_inflight :: "u16 \<Rightarrow> u8 \<Rightarrow> u64 \<Rightarrow> client_tiles \<Rightarrow> client_tiles" where
  "clear_entry_retx_inflight tile tile_size generation st =
     fold (\<lambda>b. clear_retx_inflight b generation) (base_tiles_covered tile_size tile (ct_config st)) st"

definition queue_tile_repair :: "u16 \<Rightarrow> u8 \<Rightarrow> u64 \<Rightarrow> client_tiles \<Rightarrow> client_tiles" where
  "queue_tile_repair tile tile_size generation st =
     fold (\<lambda>b st. case enqueue_retx_for_partial_timeout b generation st of
                      (True, st) \<Rightarrow> st
                    | (False, st) \<Rightarrow> clear_retx_inflight b generation st)
       (base_tiles_covered tile_size tile (ct_config st)) st"

text \<open>
  A new reassembly notes when it began and, where the tile had been asked for, how long the
  answer took.
\<close>

definition note_base_arrival :: "u64 \<Rightarrow> u64 \<Rightarrow> u16 \<Rightarrow> u64 \<times> client_tiles \<Rightarrow> u64 \<times> client_tiles" where
  "note_base_arrival generation now base_id =
     (\<lambda>(response, st).
        let total = unat (tc_total_tiles (ct_config st)); i = unat base_id in
        if i \<ge> total then (response, st)
        else
          let response =
                (if length (ct_retx_last_requested_generation st) = total \<and> length (ct_retx_last_request_ns st) = total \<and>
                    ct_retx_last_requested_generation st ! i \<noteq> 0 \<and> ct_retx_last_requested_generation st ! i \<le> generation \<and>
                    ct_retx_last_request_ns st ! i \<noteq> 0 \<and> now \<ge> ct_retx_last_request_ns st ! i
                 then let sample_ns = now - ct_retx_last_request_ns st ! i
                      in if response = 0 \<or> sample_ns < response then sample_ns else response
                 else response)
          in
          (response,
           if length (ct_retx_inflight_generation st) = total \<and> length (ct_retx_inflight_since_ns st) = total
           then st\<lparr>ct_retx_inflight_generation := (ct_retx_inflight_generation st)[i := generation],
                   ct_retx_inflight_since_ns := (ct_retx_inflight_since_ns st)[i := now]\<rparr>
           else st))"

definition note_tile_arrival :: "u16 \<Rightarrow> u8 \<Rightarrow> u64 \<Rightarrow> u64 \<Rightarrow> client_tiles \<Rightarrow> client_tiles" where
  "note_tile_arrival tile tile_size generation now st =
     (let (response, st) = fold (note_base_arrival generation now) (base_tiles_covered tile_size tile (ct_config st)) (0, st)
      in if response \<noteq> 0
         then st\<lparr>ct_retx_inflight_grace_ns := clamp_retransmit_inflight_grace_ns (response + response div 2)\<rparr> else st)"

text \<open>
  A packet is wanted if it covers a base tile with an older generation and none with a newer one.
\<close>

definition generation_wanted :: "u16 \<Rightarrow> u8 \<Rightarrow> u64 \<Rightarrow> client_tiles \<Rightarrow> bool" where
  "generation_wanted tile tile_size generation st \<longleftrightarrow>
     (let received = map (\<lambda>b. ct_received_generation st ! unat b)
            (filter (\<lambda>b. unat b < length (ct_received_generation st)) (base_tiles_covered tile_size tile (ct_config st)))
      in received \<noteq> [] \<and> \<not> list_ex (\<lambda>r. r > generation) received \<and> list_ex (\<lambda>r. r < generation) received)"

end
