(* ===== verification/WD_Reassembly.thy ===== *)
theory WD_Reassembly
  imports WD_Repair "HOL-Library.Monad_Syntax"
begin

text \<open>
  Reassembly of tiles from UDP packets: the class \<open>TileReassembler\<close> of
  \<open>src/src/client/tile_reassembly.cpp\<close> with its slot tables, its budget and the handling of one
  packet, \<open>process_udp_packet\<close>, in the parts the code has.

  \<open>None\<close> is an access outside an array. The compression library is a parameter: \<open>zbound\<close> is
  \<open>ZSTD_compressBound\<close> and \<open>zdec src capacity\<close> what \<open>ZSTD_decompress\<close> writes, or \<open>None\<close> for an error.
  The capacity of recycled vectors is not part of the state; the recycled buffers are a count.
\<close>

section \<open>State\<close>

datatype TilePacketValidationResult = TilePacket_Valid | TilePacket_Identity | TilePacket_Geometry | TilePacket_Fragment

record reassembly_entry =
  en_tile_id :: u16
  en_tile_size :: u8
  en_tile_width :: u16
  en_tile_height :: u16
  en_generation :: u64
  en_content_epoch :: u64
  en_input_sequence :: u64
  en_first_fragment_metadata_seen :: bool
  en_packet_count :: u16
  en_compressed_size :: u32
  en_compressed_payload :: bool
  en_first_packet_ns :: u64
  en_compressed :: bytes
  en_received_bitmap :: "u64 list"
  en_received_count :: u16

record completed_tile =
  cp_tile_id :: u16
  cp_tile_width :: u16
  cp_tile_height :: u16
  cp_generation :: u64
  cp_content_epoch :: u64
  cp_input_sequence :: u64
  cp_first_packet_ns :: u64
  cp_completed_timestamp_ns :: u64
  cp_compressed_size :: u32
  cp_packet_count :: u16
  cp_tile_bytes :: bytes

record reassembler =
  ra_slots :: "u32 list list"
  ra_active :: "reassembly_entry list"
  ra_recycled :: "reassembly_entry list"
  ra_recycled_buffers :: nat
  ra_frame_width :: u16
  ra_frame_height :: u16
  ra_payload_bytes :: nat
  ra_max_entries :: nat
  ra_max_bytes :: nat

abbreviation (input) INVALID_ENTRY_INDEX :: u32 where "INVALID_ENTRY_INDEX \<equiv> UINT32_MAX"

definition TileReassembler :: "nat \<Rightarrow> nat \<Rightarrow> reassembler" where
  "TileReassembler max_active_entries max_active_payload_bytes =
     \<lparr>ra_slots = [[], [], [], []], ra_active = [], ra_recycled = [], ra_recycled_buffers = 0, ra_frame_width = 0,
      ra_frame_height = 0, ra_payload_bytes = 0, ra_max_entries = max 1 max_active_entries,
      ra_max_bytes = max 1 max_active_payload_bytes\<rparr>"

section \<open>Validation of a packet's header\<close>

abbreviation tile_bytes_of :: "u16 \<Rightarrow> u16 \<Rightarrow> nat" where
  "tile_bytes_of w h \<equiv> unat w * unat h * 4"

definition packet_header_validation_result ::
    "(nat \<Rightarrow> nat) \<Rightarrow> wd_udp_tile_packet_decoded \<Rightarrow> nat \<Rightarrow> u16 \<Rightarrow> tile_config \<Rightarrow> TilePacketValidationResult" where
  "packet_header_validation_result zbound header packet_size udp_payload_target config =
     (if ud_session_id header \<noteq> tc_session_id config \<or> ud_connection_token header \<noteq> tc_connection_token config
      then TilePacket_Identity
      else
        case wd_tile_dimensions_for_size_code (ud_tile_size header) of
          None \<Rightarrow> TilePacket_Geometry
        | Some (tw, th) \<Rightarrow>
            let packet_tiles_x = wd_tiles_for_width_with_tile (ucast (tc_width config)) tw;
                packet_tiles_y = wd_tiles_for_height_with_tile (ucast (tc_height config)) th;
                packet_total_tiles = ucast packet_tiles_x * ucast packet_tiles_y :: u32
            in
            if packet_tiles_x = 0 \<or> packet_tiles_y = 0 \<or> ucast (ud_tile_id header) \<ge> packet_total_tiles \<or> packet_total_tiles > 65535
            then TilePacket_Geometry
            else if ud_tile_pkt_count header = 0 \<or> ud_tile_pkt_id header \<ge> ud_tile_pkt_count header \<or>
                    ud_payload_size header = 0 \<or> ud_tile_payload_size header = 0
            then TilePacket_Fragment
            else if (if wd_udp_tile_packet_is_compressed (Some header)
                     then unat (ud_tile_payload_size header) > zbound (tile_bytes_of tw th)
                     else unat (ud_tile_payload_size header) \<noteq> tile_bytes_of tw th)
            then TilePacket_Fragment
            else if \<not> wd_udp_tile_fragment_layout_valid (Some header) packet_size udp_payload_target
                        (ucast (ud_tile_payload_size header))
            then TilePacket_Fragment
            else TilePacket_Valid)"

definition validate_tile_packet_header ::
    "(nat \<Rightarrow> nat) \<Rightarrow> wd_udp_tile_packet_decoded \<Rightarrow> nat \<Rightarrow> u16 \<Rightarrow> tile_config \<Rightarrow> TilePacketValidationResult" where
  "validate_tile_packet_header = packet_header_validation_result"

section \<open>Slots and entries\<close>

definition set_slot :: "u32 list list \<Rightarrow> nat \<Rightarrow> nat \<Rightarrow> u32 \<Rightarrow> u32 list list option" where
  "set_slot slots s i v =
     (if s < length slots \<and> i < length (slots ! s) then Some (slots[s := (slots ! s)[i := v]]) else None)"

definition find_entry_index :: "u8 \<Rightarrow> u16 \<Rightarrow> reassembler \<Rightarrow> nat option" where
  "find_entry_index tile_size tile ra =
     (if unat tile_size \<ge> length (ra_slots ra) \<or> unat tile \<ge> length (ra_slots ra ! unat tile_size) then None
      else let entry_index = ra_slots ra ! unat tile_size ! unat tile
           in if entry_index = INVALID_ENTRY_INDEX then None else Some (unat entry_index))"

definition blank_entry :: "u8 \<Rightarrow> u16 \<Rightarrow> bool \<Rightarrow> reassembly_entry" where
  "blank_entry tile_size tile seen =
     \<lparr>en_tile_id = tile, en_tile_size = tile_size, en_tile_width = 0, en_tile_height = 0, en_generation = 0,
      en_content_epoch = 0, en_input_sequence = 0, en_first_fragment_metadata_seen = seen, en_packet_count = 0,
      en_compressed_size = 0, en_compressed_payload = True, en_first_packet_ns = 0, en_compressed = [],
      en_received_bitmap = [0, 0, 0, 0], en_received_count = 0\<rparr>"

text \<open>A recycled entry keeps its flag \<open>first_fragment_metadata_seen\<close>, which \<open>activate_entry\<close> does not reset.\<close>

definition activate_entry :: "u8 \<Rightarrow> u16 \<Rightarrow> reassembler \<Rightarrow> (nat \<times> reassembler) option" where
  "activate_entry tile_size tile ra =
     (if unat tile_size \<ge> length (ra_slots ra) \<or> unat tile \<ge> length (ra_slots ra ! unat tile_size) \<or>
         length (ra_active ra) \<ge> unat INVALID_ENTRY_INDEX
      then None
      else
        let entry_index = length (ra_active ra);
            (seen, recycled) = (case rev (ra_recycled ra) of
                                  [] \<Rightarrow> (False, [])
                                | e # es \<Rightarrow> (en_first_fragment_metadata_seen e, rev es));
            slots = (ra_slots ra)[unat tile_size := (ra_slots ra ! unat tile_size)[unat tile := of_nat entry_index]]
        in Some (entry_index,
             ra\<lparr>ra_active := ra_active ra @ [blank_entry tile_size tile seen], ra_recycled := recycled, ra_slots := slots\<rparr>))"

definition recycle_entry :: "reassembly_entry \<Rightarrow> reassembler \<Rightarrow> reassembler" where
  "recycle_entry e ra =
     (let e = e\<lparr>en_compressed := [], en_received_bitmap := [0, 0, 0, 0]\<rparr>
      in if length (ra_recycled ra) < 64 then ra\<lparr>ra_recycled := ra_recycled ra @ [e]\<rparr> else ra)"

definition remove_entry :: "nat \<Rightarrow> reassembler \<Rightarrow> reassembler option" where
  "remove_entry entry_index ra =
     (if entry_index \<ge> length (ra_active ra) then Some ra
      else
        let retired = ra_active ra ! entry_index;
            bytes = (if ra_payload_bytes ra \<ge> length (en_compressed retired)
                     then ra_payload_bytes ra - length (en_compressed retired) else 0);
            s = unat (en_tile_size retired); i = unat (en_tile_id retired);
            slots = (if s < length (ra_slots ra) \<and> i < length (ra_slots ra ! s)
                     then (ra_slots ra)[s := (ra_slots ra ! s)[i := INVALID_ENTRY_INDEX]] else ra_slots ra);
            last_index = length (ra_active ra) - 1
        in
        if entry_index \<noteq> last_index then do {
          let moved = ra_active ra ! last_index;
          slots \<leftarrow> set_slot slots (unat (en_tile_size moved)) (unat (en_tile_id moved)) (of_nat entry_index);
          Some (recycle_entry retired
            (ra\<lparr>ra_payload_bytes := bytes, ra_slots := slots, ra_active := butlast ((ra_active ra)[entry_index := moved])\<rparr>))
        }
        else Some (recycle_entry retired (ra\<lparr>ra_payload_bytes := bytes, ra_slots := slots, ra_active := butlast (ra_active ra)\<rparr>)))"

lemma remove_entry_length:
  "remove_entry i ra = Some ra' \<Longrightarrow> i < length (ra_active ra) \<Longrightarrow> Suc (length (ra_active ra')) = length (ra_active ra)"
  by (auto simp: remove_entry_def Let_def recycle_entry_def split: if_splits bind_splits)

function remove_all_entries :: "reassembler \<Rightarrow> reassembler option" where
  "remove_all_entries ra =
     (if ra_active ra = [] then Some ra
      else case remove_entry (length (ra_active ra) - 1) ra of None \<Rightarrow> None | Some ra' \<Rightarrow> remove_all_entries ra')"
  by auto
termination
proof (relation "measure (\<lambda>ra. length (ra_active ra))")
  fix ra ra' assume "ra_active ra \<noteq> []" and r: "remove_entry (length (ra_active ra) - 1) ra = Some ra'"
  then have "length (ra_active ra) - 1 < length (ra_active ra)" by simp
  from remove_entry_length [OF r this] show "(ra', ra) \<in> measure (\<lambda>ra. length (ra_active ra))" by simp
qed simp

declare remove_all_entries.simps [simp del]

definition reset_reassembler :: "reassembler \<Rightarrow> reassembler option" where
  "reset_reassembler ra = do {
     ra \<leftarrow> remove_all_entries ra;
     Some (ra\<lparr>ra_slots := map (\<lambda>_. []) (ra_slots ra), ra_frame_width := 0, ra_frame_height := 0, ra_payload_bytes := 0\<rparr>)
   }"

fun new_slots :: "u8 list \<Rightarrow> tile_config \<Rightarrow> u32 list list option" where
  "new_slots [] config = Some []"
| "new_slots (tile_size # sizes) config =
     (case wd_tile_dimensions_for_size_code tile_size of
        None \<Rightarrow> None
      | Some (tw, th) \<Rightarrow>
          let tiles_x = ucast (wd_tiles_for_width_with_tile (ucast (tc_width config)) tw) :: u32;
              tiles_y = ucast (wd_tiles_for_height_with_tile (ucast (tc_height config)) th) :: u32;
              total_tiles = tiles_x * tiles_y
          in
          if tiles_x = 0 \<or> tiles_y = 0 \<or> total_tiles > 65535 then None
          else map_option (Cons (replicate (unat total_tiles) INVALID_ENTRY_INDEX)) (new_slots sizes config))"

text \<open>The Boolean result, and the state; the outer option is an access out of range.\<close>

definition configure_entry_slots :: "tile_config \<Rightarrow> reassembler \<Rightarrow> (bool \<times> reassembler) option" where
  "configure_entry_slots config ra =
     (if ra_frame_width ra = tc_width config \<and> ra_frame_height ra = tc_height config \<and> ra_frame_width ra \<noteq> 0
      then Some (True, ra)
      else
        case new_slots [0, 1, 2, 3] config of
          None \<Rightarrow> Some (False, ra)
        | Some slots \<Rightarrow> do {
            ra \<leftarrow> remove_all_entries ra;
            Some (True, ra\<lparr>ra_slots := slots, ra_frame_width := tc_width config, ra_frame_height := tc_height config\<rparr>)
          })"

section \<open>Expiry and budget\<close>

definition bitmap_has :: "u64 list \<Rightarrow> nat \<Rightarrow> bool" where
  "bitmap_has bm k \<longleftrightarrow> bm ! (k div 64) AND push_bit (k mod 64) 1 \<noteq> 0"

definition count_missing_packets :: "reassembly_entry \<Rightarrow> nat" where
  "count_missing_packets e = length (filter (\<lambda>k. \<not> bitmap_has (en_received_bitmap e) k) [0 ..< unat (en_packet_count e)])"

definition queue_entry_repair :: "reassembly_entry \<Rightarrow> client_tiles \<Rightarrow> client_tiles" where
  "queue_entry_repair e st = queue_tile_repair (en_tile_id e) (en_tile_size e) (en_generation e) st"

definition expire_entry :: "nat \<Rightarrow> reassembler \<times> client_tiles \<Rightarrow> (reassembler \<times> client_tiles) option" where
  "expire_entry entry_index = (\<lambda>(ra, st).
     if entry_index \<ge> length (ra_active ra) then Some (ra, st)
     else
       let st = queue_entry_repair (ra_active ra ! entry_index) (reduce_tile_reassembly_timeout_after_loss st)
       in map_option (\<lambda>ra. (ra, st)) (remove_entry entry_index ra))"

definition evict_entry_for_budget :: "nat \<Rightarrow> reassembler \<times> client_tiles \<Rightarrow> (reassembler \<times> client_tiles) option" where
  "evict_entry_for_budget entry_index = (\<lambda>(ra, st).
     if entry_index \<ge> length (ra_active ra) then Some (ra, st)
     else map_option (\<lambda>ra'. (ra', queue_entry_repair (ra_active ra ! entry_index) st)) (remove_entry entry_index ra))"

definition oldest_index :: "reassembly_entry list \<Rightarrow> nat" where
  "oldest_index es =
     foldl (\<lambda>oldest i. if en_first_packet_ns (es ! i) < en_first_packet_ns (es ! oldest) then i else oldest) 0 [1 ..< length es]"

lemma oldest_index_less: "es \<noteq> [] \<Longrightarrow> oldest_index es < length es"
proof -
  assume "es \<noteq> []"
  have "foldl (\<lambda>oldest i. if en_first_packet_ns (es ! i) < en_first_packet_ns (es ! oldest) then i else oldest) k is < n"
    if "k < n" "\<forall>i\<in>set is. i < n" for k "is" n
    using that by (induction "is" arbitrary: k) auto
  then show ?thesis unfolding oldest_index_def using \<open>es \<noteq> []\<close> by simp
qed

abbreviation over_budget :: "nat \<Rightarrow> reassembler \<Rightarrow> bool" where
  "over_budget n ra \<equiv> length (ra_active ra) \<ge> ra_max_entries ra \<or> ra_payload_bytes ra + n > ra_max_bytes ra"

lemma evict_length:
  assumes "evict_entry_for_budget i (ra, st) = Some (ra', st')" "i < length (ra_active ra)"
  shows "Suc (length (ra_active ra')) = length (ra_active ra)"
  using assms remove_entry_length [of i ra ra'] by (auto simp: evict_entry_for_budget_def)

function budget_loop :: "nat \<Rightarrow> reassembler \<times> client_tiles \<Rightarrow> (reassembler \<times> client_tiles) option" where
  "budget_loop n (ra, st) =
     (if ra_active ra \<noteq> [] \<and> over_budget n ra
      then case evict_entry_for_budget (oldest_index (ra_active ra)) (ra, st) of
             None \<Rightarrow> None | Some (ra', st') \<Rightarrow> budget_loop n (ra', st')
      else Some (ra, st))"
  by pat_completeness auto
termination
proof (relation "measure (\<lambda>(n, ra, st). length (ra_active ra))")
  fix n ra st x ra' st'
  assume a: "ra_active ra \<noteq> [] \<and> over_budget n ra" and "evict_entry_for_budget (oldest_index (ra_active ra)) (ra, st) = Some x"
    and "(ra', st') = x"
  then have "Suc (length (ra_active ra')) = length (ra_active ra)" using evict_length oldest_index_less by metis
  then show "((n, ra', st'), n, ra, st) \<in> measure (\<lambda>(n, ra, st). length (ra_active ra))" by simp
qed simp

declare budget_loop.simps [simp del]

definition ensure_budget :: "nat \<Rightarrow> reassembler \<times> client_tiles \<Rightarrow> (bool \<times> reassembler \<times> client_tiles) option" where
  "ensure_budget n = (\<lambda>(ra, st).
     if n > ra_max_bytes ra then Some (False, ra, st)
     else map_option (\<lambda>(ra, st). (\<not> over_budget n ra, ra, st)) (budget_loop n (ra, st)))"

definition next_expiry_deadline_ns :: "client_tiles \<Rightarrow> reassembler \<Rightarrow> u64" where
  "next_expiry_deadline_ns st ra =
     (let timeout_ns = current_tile_reassembly_timeout_ns st in
      foldl (\<lambda>deadline e.
          if en_first_packet_ns e = 0 then deadline
          else
            let candidate = (if en_first_packet_ns e > UINT64_MAX - timeout_ns then UINT64_MAX else en_first_packet_ns e + timeout_ns)
            in if deadline = 0 \<or> candidate < deadline then candidate else deadline)
        0 (ra_active ra))"

definition is_stale :: "u64 \<Rightarrow> client_tiles \<Rightarrow> reassembly_entry \<Rightarrow> bool" where
  "is_stale now st e \<longleftrightarrow> en_first_packet_ns e \<noteq> 0 \<and> now - en_first_packet_ns e > current_tile_reassembly_timeout_ns st"

lemma expire_length:
  assumes "expire_entry i (ra, st) = Some (ra', st')" "i < length (ra_active ra)"
  shows "Suc (length (ra_active ra')) = length (ra_active ra)"
  using assms remove_entry_length [of i ra ra'] by (auto simp: expire_entry_def Let_def)

function expire_loop :: "u64 \<Rightarrow> nat \<Rightarrow> reassembler \<times> client_tiles \<Rightarrow> (reassembler \<times> client_tiles) option" where
  "expire_loop now i (ra, st) =
     (if i < length (ra_active ra) then
        if is_stale now st (ra_active ra ! i)
        then case expire_entry i (ra, st) of None \<Rightarrow> None | Some (ra', st') \<Rightarrow> expire_loop now i (ra', st')
        else expire_loop now (Suc i) (ra, st)
      else Some (ra, st))"
  by pat_completeness auto
termination
proof (relation "measure (\<lambda>(now, i, ra, st). length (ra_active ra) - i)")
  fix now i ra st x ra' st'
  assume "i < length (ra_active ra)" and "expire_entry i (ra, st) = Some x" and "(ra', st') = x"
  then have "Suc (length (ra_active ra')) = length (ra_active ra)" using expire_length by metis
  then show "((now, i, ra', st'), now, i, ra, st) \<in> measure (\<lambda>(now, i, ra, st). length (ra_active ra) - i)"
    using \<open>i < length (ra_active ra)\<close> by simp
qed auto

declare expire_loop.simps [simp del]

definition expire_stale_entries :: "u64 \<Rightarrow> reassembler \<times> client_tiles \<Rightarrow> (reassembler \<times> client_tiles) option" where
  "expire_stale_entries now s = expire_loop now 0 s"

section \<open>One packet\<close>

record process_env =
  pe_now_ns :: u64
  pe_completed_ns :: u64
  pe_jittered_ns :: u64

definition packet_payload_target :: "tile_config \<Rightarrow> u16" where
  "packet_payload_target config = (if tc_udp_payload_target config = 0 then 1400 else tc_udp_payload_target config)"

text \<open>The checks before the state is looked at: the header and the dimensions of its tile.\<close>

definition accept_packet ::
    "(nat \<Rightarrow> nat) \<Rightarrow> tile_config \<Rightarrow> bytes \<Rightarrow> (wd_udp_tile_packet_decoded \<times> u16 \<times> u16) option" where
  "accept_packet zbound config packet = do {
     header \<leftarrow> wd_udp_tile_packet_decode packet;
     (tw, th) \<leftarrow> wd_tile_dimensions_for_size_code (ud_tile_size header);
     if validate_tile_packet_header zbound header (length packet) (packet_payload_target config) config = TilePacket_Valid
     then Some (header, tw, th) else None
   }"

definition start_entry :: "wd_udp_tile_packet_decoded \<Rightarrow> u16 \<Rightarrow> u16 \<Rightarrow> u64 \<Rightarrow> reassembly_entry \<Rightarrow> reassembly_entry" where
  "start_entry header tw th now e = e
     \<lparr>en_tile_width := tw, en_tile_height := th, en_generation := ud_tile_generation header,
      en_content_epoch := ud_content_epoch header,
      en_input_sequence := (if ud_tile_pkt_id header = 0 then ud_input_sequence header else 0),
      en_first_fragment_metadata_seen := (ud_tile_pkt_id header = 0),
      en_packet_count := ucast (ud_tile_pkt_count header), en_compressed_size := ucast (ud_tile_payload_size header),
      en_compressed_payload := wd_udp_tile_packet_is_compressed (Some header), en_first_packet_ns := now,
      en_compressed := replicate (unat (ud_tile_payload_size header)) 0, en_received_bitmap := [0, 0, 0, 0],
      en_received_count := 0\<rparr>"

definition new_entry ::
    "wd_udp_tile_packet_decoded \<Rightarrow> u16 \<Rightarrow> u16 \<Rightarrow> u64 \<Rightarrow> reassembler \<times> client_tiles \<Rightarrow>
     (nat option \<times> reassembler \<times> client_tiles) option" where
  "new_entry header tw th now s = do {
     (ok, ra, st) \<leftarrow> ensure_budget (unat (ud_tile_payload_size header)) s;
     if \<not> ok then Some (None, ra, st)
     else case activate_entry (ud_tile_size header) (ud_tile_id header) ra of
            None \<Rightarrow> Some (None, ra, st)
          | Some (i, ra) \<Rightarrow>
              let st = note_tile_arrival (ud_tile_id header) (ud_tile_size header) (ud_tile_generation header) now st;
                  e = start_entry header tw th now (ra_active ra ! i)
              in Some (Some i, ra\<lparr>ra_active := (ra_active ra)[i := e],
                                ra_payload_bytes := ra_payload_bytes ra + length (en_compressed e)\<rparr>, st)
   }"

text \<open>The entry for a packet: found, or new, in the place of one that is stale or of another generation.\<close>

definition locate_entry ::
    "wd_udp_tile_packet_decoded \<Rightarrow> u16 \<Rightarrow> u16 \<Rightarrow> u64 \<Rightarrow> reassembler \<times> client_tiles \<Rightarrow>
     (nat option \<times> reassembler \<times> client_tiles) option" where
  "locate_entry header tw th now = (\<lambda>(ra, st).
     case find_entry_index (ud_tile_size header) (ud_tile_id header) ra of
       None \<Rightarrow> new_entry header tw th now (ra, st)
     | Some i \<Rightarrow> do {
         e \<leftarrow> rd (ra_active ra) i;
         let same_epoch = (en_content_epoch e = ud_content_epoch header);
         if same_epoch \<and> ud_tile_generation header < en_generation e then Some (None, ra, st)
         else if same_epoch \<and> en_generation e = ud_tile_generation header \<and> is_stale now st e then do {
           s \<leftarrow> expire_entry i (ra, st);
           new_entry header tw th now s
         }
         else if \<not> same_epoch \<or> en_generation e \<noteq> ud_tile_generation header then do {
           let st = clear_entry_retx_inflight (en_tile_id e) (en_tile_size e) (en_generation e) st;
           ra \<leftarrow> remove_entry i ra;
           new_entry header tw th now (ra, st)
         }
         else Some (Some i, ra, st)
       })"

datatype fragment_result = Fragment_ignored | Fragment_conflict | Fragment_held

definition store_fragment ::
    "wd_udp_tile_packet_decoded \<Rightarrow> u16 \<Rightarrow> bytes \<Rightarrow> reassembly_entry \<Rightarrow> (fragment_result \<times> reassembly_entry) option" where
  "store_fragment header udp_payload_target payload e =
     (if ud_tile_pkt_id header = 0 \<and> en_first_fragment_metadata_seen e \<and> en_input_sequence e \<noteq> ud_input_sequence header
      then Some (Fragment_conflict, e)
      else
        let e = (if ud_tile_pkt_id header = 0
                 then e\<lparr>en_first_fragment_metadata_seen := True, en_input_sequence := ud_input_sequence header\<rparr> else e)
        in
        if en_packet_count e \<noteq> ucast (ud_tile_pkt_count header) \<or> en_compressed_size e \<noteq> ucast (ud_tile_payload_size header) \<or>
           en_compressed_payload e \<noteq> wd_udp_tile_packet_is_compressed (Some header)
        then Some (Fragment_ignored, e)
        else do {
          let offset = unat (ucast (ud_tile_pkt_id header) * ucast udp_payload_target :: u32);
          let k = unat (ud_tile_pkt_id header);
          let mask = push_bit (k mod 64) 1;
          word \<leftarrow> rd (en_received_bitmap e) (k div 64);
          if word AND mask = 0 then do {
            compressed \<leftarrow> wr_range (en_compressed e) offset payload;
            Some (Fragment_held, e\<lparr>en_compressed := compressed,
              en_received_bitmap := (en_received_bitmap e)[k div 64 := word OR mask],
              en_received_count := en_received_count e + 1\<rparr>)
          }
          else do {
            held \<leftarrow> rd_range (en_compressed e) offset (length payload);
            Some (if held \<noteq> payload then Fragment_conflict else Fragment_held, e)
          }
        })"

definition wd_zstd_decompress :: "(bytes \<Rightarrow> nat \<Rightarrow> bytes option) \<Rightarrow> bytes \<Rightarrow> nat \<Rightarrow> nat \<Rightarrow> bytes option" where
  "wd_zstd_decompress zdec src dst_capacity expected =
     (if src = [] \<or> dst_capacity = 0 then None
      else case zdec src dst_capacity of None \<Rightarrow> None | Some out \<Rightarrow> if length out = expected then Some out else None)"

definition recycle_completed_tile_buffer :: "reassembler \<Rightarrow> reassembler" where
  "recycle_completed_tile_buffer ra =
     (if ra_recycled_buffers ra \<ge> 8 then ra else ra\<lparr>ra_recycled_buffers := Suc (ra_recycled_buffers ra)\<rparr>)"

definition acquire_completed_tile_buffer :: "reassembler \<Rightarrow> reassembler" where
  "acquire_completed_tile_buffer ra = ra\<lparr>ra_recycled_buffers := ra_recycled_buffers ra - 1\<rparr>"

text \<open>The bytes of a complete tile, decompressed where they were compressed.\<close>

definition tile_pixels_of :: "(bytes \<Rightarrow> nat \<Rightarrow> bytes option) \<Rightarrow> nat \<Rightarrow> reassembly_entry \<Rightarrow> bytes option" where
  "tile_pixels_of zdec n e =
     (if en_compressed_payload e then wd_zstd_decompress zdec (en_compressed e) n n
      else if length (en_compressed e) \<noteq> n then None else Some (take n (en_compressed e)))"

definition complete_entry ::
    "(bytes \<Rightarrow> nat \<Rightarrow> bytes option) \<Rightarrow> process_env \<Rightarrow> nat \<Rightarrow> nat \<Rightarrow> reassembler \<times> client_tiles \<Rightarrow>
     (completed_tile option \<times> reassembler \<times> client_tiles) option" where
  "complete_entry zdec env n i = (\<lambda>(ra, st). do {
     e \<leftarrow> rd (ra_active ra) i;
     let ra = acquire_completed_tile_buffer ra;
     case tile_pixels_of zdec n e of
       None \<Rightarrow> do {
         ra \<leftarrow> remove_entry i (recycle_completed_tile_buffer ra);
         Some (None, ra, queue_entry_repair e st)
       }
     | Some pixels \<Rightarrow> do {
         let completed = \<lparr>cp_tile_id = en_tile_id e, cp_tile_width = en_tile_width e, cp_tile_height = en_tile_height e,
               cp_generation = en_generation e, cp_content_epoch = en_content_epoch e, cp_input_sequence = en_input_sequence e,
               cp_first_packet_ns = en_first_packet_ns e, cp_completed_timestamp_ns = pe_completed_ns env,
               cp_compressed_size = en_compressed_size e, cp_packet_count = en_packet_count e, cp_tile_bytes = pixels\<rparr>;
         let st = (if pe_completed_ns env \<ge> en_first_packet_ns e
                   then update_tile_reassembly_timeout (pe_jittered_ns env) (pe_completed_ns env - en_first_packet_ns e) False st
                   else st);
         ra \<leftarrow> remove_entry i ra;
         Some (Some completed, ra, clear_entry_retx_inflight (en_tile_id e) (en_tile_size e) (en_generation e) st)
       }
   })"

definition add_fragment ::
    "(bytes \<Rightarrow> nat \<Rightarrow> bytes option) \<Rightarrow> process_env \<Rightarrow> wd_udp_tile_packet_decoded \<Rightarrow> u16 \<Rightarrow> u16 \<Rightarrow> bytes \<Rightarrow> nat \<Rightarrow>
     reassembler \<times> client_tiles \<Rightarrow> (completed_tile option \<times> reassembler \<times> client_tiles) option" where
  "add_fragment zdec env header tw th payload i = (\<lambda>(ra, st). do {
     e \<leftarrow> rd (ra_active ra) i;
     (r, e) \<leftarrow> store_fragment header (packet_payload_target (ct_config st)) payload e;
     let ra = ra\<lparr>ra_active := (ra_active ra)[i := e]\<rparr>;
     case r of
       Fragment_ignored \<Rightarrow> Some (None, ra, st)
     | Fragment_conflict \<Rightarrow> do { ra \<leftarrow> remove_entry i ra; Some (None, ra, queue_entry_repair e st) }
     | Fragment_held \<Rightarrow>
         if en_received_count e \<noteq> en_packet_count e then Some (None, ra, st)
         else complete_entry zdec env (tile_bytes_of tw th) i (ra, st)
   })"

definition process_udp_packet ::
    "(nat \<Rightarrow> nat) \<Rightarrow> (bytes \<Rightarrow> nat \<Rightarrow> bytes option) \<Rightarrow> process_env \<Rightarrow> bytes \<Rightarrow> reassembler \<times> client_tiles \<Rightarrow>
     (completed_tile option \<times> reassembler \<times> client_tiles) option" where
  "process_udp_packet zbound zdec env packet = (\<lambda>(ra, st).
     case accept_packet zbound (ct_config st) packet of
       None \<Rightarrow> Some (None, ra, st)
     | Some (header, tw, th) \<Rightarrow>
         if \<not> generation_wanted (ud_tile_id header) (ud_tile_size header) (ud_tile_generation header) st then Some (None, ra, st)
         else do {
           (ok, ra) \<leftarrow> configure_entry_slots (ct_config st) ra;
           if \<not> ok then Some (None, ra, st)
           else do {
             (found, ra, st) \<leftarrow> locate_entry header tw th (pe_now_ns env) (ra, st);
             case found of
               None \<Rightarrow> Some (None, ra, st)
             | Some i \<Rightarrow> add_fragment zdec env header tw th (drop (unat (ud_header_size header)) packet) i (ra, st)
           }
         })"

section \<open>Runs\<close>

text \<open>
  What happens to a reassembler: a packet, the expiry of old entries, a reset because the content
  epoch advanced, a new configuration (which the receiving thread answers with a reset before the
  next packet), and changes by other threads to the lists of received and requested generations.
\<close>

datatype reassembly_event =
    Udp_packet process_env bytes
  | Expire u64
  | Epoch_reset
  | New_config tile_config
  | Client_changes client_tiles

fun reassembly_step ::
    "(nat \<Rightarrow> nat) \<Rightarrow> (bytes \<Rightarrow> nat \<Rightarrow> bytes option) \<Rightarrow> reassembly_event \<Rightarrow> reassembler \<times> client_tiles \<Rightarrow>
     (completed_tile option \<times> reassembler \<times> client_tiles) option" where
  "reassembly_step zbound zdec (Udp_packet env packet) s = process_udp_packet zbound zdec env packet s"
| "reassembly_step zbound zdec (Expire now) s = map_option (Pair None) (expire_stale_entries now s)"
| "reassembly_step zbound zdec Epoch_reset (ra, st) = map_option (\<lambda>ra. (None, ra, st)) (reset_reassembler ra)"
| "reassembly_step zbound zdec (New_config c) (ra, st) = map_option (\<lambda>ra. (None, ra, st\<lparr>ct_config := c\<rparr>)) (reset_reassembler ra)"
| "reassembly_step zbound zdec (Client_changes st') (ra, st) = Some (None, ra, st'\<lparr>ct_config := ct_config st\<rparr>)"

fun reassembly_run ::
    "(nat \<Rightarrow> nat) \<Rightarrow> (bytes \<Rightarrow> nat \<Rightarrow> bytes option) \<Rightarrow> reassembly_event list \<Rightarrow> reassembler \<times> client_tiles \<Rightarrow>
     (completed_tile option list \<times> reassembler \<times> client_tiles) option" where
  "reassembly_run zbound zdec [] s = Some ([], s)"
| "reassembly_run zbound zdec (ev # evs) s =
     (case reassembly_step zbound zdec ev s of
        None \<Rightarrow> None
      | Some (c, s') \<Rightarrow> map_option (\<lambda>(cs, s''). (c # cs, s'')) (reassembly_run zbound zdec evs s'))"

end
