(* ===== verification/WD_Reassembly_Inv.thy ===== *)
theory WD_Reassembly_Inv
  imports WD_Reassembly
begin

text \<open>
  The invariant of the reassembler: the slot tables are an exact index of the active entries, the
  entries and their payload stay inside the budget, and an entry's bitmap and counter agree. No
  operation leaves an array, whatever packets arrive.
\<close>

section \<open>The slot tables as an index\<close>

definition entry_key :: "reassembly_entry \<Rightarrow> nat \<times> nat" where
  "entry_key e = (unat (en_tile_size e), unat (en_tile_id e))"

definition slot_in :: "u32 list list \<Rightarrow> nat \<times> nat \<Rightarrow> bool" where
  "slot_in slots k \<longleftrightarrow> fst k < length slots \<and> snd k < length (slots ! fst k)"

definition slot_at :: "u32 list list \<Rightarrow> nat \<times> nat \<Rightarrow> u32" where
  "slot_at slots k = slots ! fst k ! snd k"

definition put_slot :: "u32 list list \<Rightarrow> nat \<times> nat \<Rightarrow> u32 \<Rightarrow> u32 list list" where
  "put_slot slots k v = slots[fst k := (slots ! fst k)[snd k := v]]"

lemma slot_in_put [simp]: "slot_in (put_slot slots k v) k' = slot_in slots k'"
  by (cases "fst k < length slots") (auto simp: slot_in_def put_slot_def nth_list_update)

lemma slot_at_put: "slot_in slots k \<Longrightarrow> slot_at (put_slot slots k v) k' = (if k' = k then v else slot_at slots k')"
  by (cases k; cases k') (auto simp: slot_at_def slot_in_def put_slot_def nth_list_update)

lemma set_slot_put: "slot_in slots (s, i) \<Longrightarrow> set_slot slots s i v = Some (put_slot slots (s, i) v)"
  by (simp add: set_slot_def slot_in_def put_slot_def)

definition slots_ok :: "u32 list list \<Rightarrow> reassembly_entry list \<Rightarrow> bool" where
  "slots_ok slots es \<longleftrightarrow>
     length es \<le> 4294967295 \<and>
     (\<forall>i<length es. slot_in slots (entry_key (es ! i)) \<and> slot_at slots (entry_key (es ! i)) = of_nat i) \<and>
     (\<forall>k. slot_in slots k \<and> slot_at slots k \<noteq> UINT32_MAX \<longrightarrow>
        unat (slot_at slots k) < length es \<and> entry_key (es ! unat (slot_at slots k)) = k)"

lemma slots_okD:
  assumes "slots_ok slots es" "i < length es"
  shows "slot_in slots (entry_key (es ! i))" "slot_at slots (entry_key (es ! i)) = of_nat i"
    "unat (of_nat i :: u32) = i" "(of_nat i :: u32) \<noteq> UINT32_MAX"
  using assms by (auto simp: slots_ok_def unat_eq_iff)

lemma slots_ok_distinct:
  assumes "slots_ok slots es" "i < length es" "j < length es" "entry_key (es ! i) = entry_key (es ! j)"
  shows "i = j"
  using slots_okD [OF assms(1,2)] slots_okD [OF assms(1,3)] assms(4) by metis

lemma slots_okD2:
  assumes "slots_ok slots es" "slot_in slots k" "slot_at slots k \<noteq> UINT32_MAX"
  shows "unat (slot_at slots k) < length es" "entry_key (es ! unat (slot_at slots k)) = k"
  using assms unfolding slots_ok_def by blast+

text \<open>Looking up a tile finds its entry if there is one.\<close>

lemma find_entry_index_iff:
  assumes "slots_ok (ra_slots ra) (ra_active ra)"
  shows "find_entry_index sz tile ra = Some i \<longleftrightarrow> i < length (ra_active ra) \<and> entry_key (ra_active ra ! i) = (unat sz, unat tile)"
proof -
  have f: "find_entry_index sz tile ra =
      (if slot_in (ra_slots ra) (unat sz, unat tile) \<and> slot_at (ra_slots ra) (unat sz, unat tile) \<noteq> UINT32_MAX
       then Some (unat (slot_at (ra_slots ra) (unat sz, unat tile))) else None)"
    by (auto simp: find_entry_index_def slot_in_def slot_at_def Let_def)
  show ?thesis unfolding f
    using slots_okD [OF assms, of i] slots_okD2 [OF assms, of "(unat sz, unat tile)"] by auto
qed

text \<open>Removal by moving the last entry keeps the index exact.\<close>

lemma slots_ok_remove_last:
  assumes "slots_ok slots (es @ [e])"
  shows "slots_ok (put_slot slots (entry_key e) UINT32_MAX) es"
proof -
  have e: "slot_in slots (entry_key e)" "slot_at slots (entry_key e) = of_nat (length es)"
    using slots_okD [OF assms, of "length es"] by simp_all
  have other: "entry_key (es ! i) \<noteq> entry_key e" if "i < length es" for i
    using slots_ok_distinct [OF assms, of i "length es"] that by (auto simp: nth_append)
  show ?thesis unfolding slots_ok_def
  proof (intro conjI allI impI)
    show "length es \<le> 4294967295" using assms by (simp add: slots_ok_def)
    fix i assume i: "i < length es"
    then have "slot_in slots (entry_key (es ! i)) \<and> slot_at slots (entry_key (es ! i)) = of_nat i"
      using slots_okD [OF assms, of i] by (simp add: nth_append)
    then show "slot_in (put_slot slots (entry_key e) UINT32_MAX) (entry_key (es ! i))"
      "slot_at (put_slot slots (entry_key e) UINT32_MAX) (entry_key (es ! i)) = of_nat i"
      using other [OF i] e by (simp_all add: slot_at_put)
  next
    fix k assume k: "slot_in (put_slot slots (entry_key e) UINT32_MAX) k \<and> slot_at (put_slot slots (entry_key e) UINT32_MAX) k \<noteq> UINT32_MAX"
    then have ne: "k \<noteq> entry_key e" and v: "slot_in slots k" "slot_at slots k \<noteq> UINT32_MAX"
      using e by (auto simp: slot_at_put split: if_splits)
    have "unat (slot_at slots k) \<noteq> length es" using slots_okD2(2) [OF assms v] ne by auto
    then show "unat (slot_at (put_slot slots (entry_key e) UINT32_MAX) k) < length es"
      "entry_key (es ! unat (slot_at (put_slot slots (entry_key e) UINT32_MAX) k)) = k"
      using slots_okD2 [OF assms v] ne e by (auto simp: slot_at_put nth_append split: if_splits)
  qed
qed

lemma slots_ok_swap_remove:
  assumes ok: "slots_ok slots (es @ [m])" and i: "i < length es"
  shows "slots_ok (put_slot (put_slot slots (entry_key (es ! i)) UINT32_MAX) (entry_key m) (of_nat i)) (es[i := m])"
proof -
  let ?e = "es ! i" let ?s = "put_slot (put_slot slots (entry_key ?e) UINT32_MAX) (entry_key m) (of_nat i)"
  have m: "slot_in slots (entry_key m)" using slots_okD [OF ok, of "length es"] by simp
  have e: "slot_in slots (entry_key ?e)" "unat (of_nat i :: u32) = i" "(of_nat i :: u32) \<noteq> UINT32_MAX"
    using slots_okD [OF ok, of i] i by (simp_all add: nth_append)
  have at: "slot_at ?s k = (if k = entry_key m then of_nat i else if k = entry_key ?e then UINT32_MAX else slot_at slots k)" for k
    using m e by (simp add: slot_at_put)
  have other: "entry_key (es ! j) \<noteq> entry_key ?e" "entry_key (es ! j) \<noteq> entry_key m" if "j < length es" "j \<noteq> i" for j
    using slots_ok_distinct [OF ok, of j i] slots_ok_distinct [OF ok, of j "length es"] that i by (auto simp: nth_append)
  show ?thesis unfolding slots_ok_def
  proof (intro conjI allI impI)
    show "length (es[i := m]) \<le> 4294967295" using ok by (simp add: slots_ok_def)
    fix j assume j: "j < length (es[i := m])"
    have "slot_in slots (entry_key (es[i := m] ! j)) \<and> slot_at ?s (entry_key (es[i := m] ! j)) = of_nat j"
    proof (cases "j = i")
      case True
      then show ?thesis using i m at by simp
    next
      case False
      then show ?thesis using slots_okD [OF ok, of j] j other [of j] at by (simp add: nth_append)
    qed
    then show "slot_in ?s (entry_key (es[i := m] ! j))" "slot_at ?s (entry_key (es[i := m] ! j)) = of_nat j" by simp_all
  next
    fix k assume k: "slot_in ?s k \<and> slot_at ?s k \<noteq> UINT32_MAX"
    have "unat (slot_at ?s k) < length (es[i := m]) \<and> entry_key (es[i := m] ! unat (slot_at ?s k)) = k"
    proof (cases "k = entry_key m")
      case True
      then show ?thesis using i e at by simp
    next
      case False
      then have ne: "k \<noteq> entry_key ?e" and v: "slot_in slots k" "slot_at slots k \<noteq> UINT32_MAX" using k at by (auto split: if_splits)
      have "unat (slot_at slots k) \<noteq> length es" "unat (slot_at slots k) \<noteq> i"
        using slots_okD2(2) [OF ok v] ne False i by (auto simp: nth_append)
      then show ?thesis using slots_okD2 [OF ok v] ne False at by (auto simp: nth_append split: if_splits)
    qed
    then show "unat (slot_at ?s k) < length (es[i := m])" "entry_key (es[i := m] ! unat (slot_at ?s k)) = k" by simp_all
  qed
qed

lemma slots_ok_add:
  assumes ok: "slots_ok slots es" and e: "slot_in slots (entry_key e)" "slot_at slots (entry_key e) = UINT32_MAX"
    and n: "length es < 4294967295"
  shows "slots_ok (put_slot slots (entry_key e) (of_nat (length es))) (es @ [e])"
proof -
  have u: "unat (of_nat (length es) :: u32) = length es" using n by simp
  have at: "slot_at (put_slot slots (entry_key e) (of_nat (length es))) k =
      (if k = entry_key e then of_nat (length es) else slot_at slots k)" for k
    using e by (simp add: slot_at_put)
  have other: "entry_key (es ! i) \<noteq> entry_key e" if "i < length es" for i
    using slots_okD [OF ok that] e by auto
  show ?thesis unfolding slots_ok_def
  proof (intro conjI allI impI)
    show "length (es @ [e]) \<le> 4294967295" using n by simp
    fix i assume i: "i < length (es @ [e])"
    have "slot_in slots (entry_key ((es @ [e]) ! i)) \<and>
      slot_at (put_slot slots (entry_key e) (of_nat (length es))) (entry_key ((es @ [e]) ! i)) = of_nat i"
    proof (cases "i < length es")
      case True
      then show ?thesis unfolding at using slots_okD [OF ok True] other [OF True] by (simp add: nth_append)
    next
      case False
      then have "i = length es" using i by simp
      then show ?thesis unfolding at using e by simp
    qed
    then show "slot_in (put_slot slots (entry_key e) (of_nat (length es))) (entry_key ((es @ [e]) ! i))"
      "slot_at (put_slot slots (entry_key e) (of_nat (length es))) (entry_key ((es @ [e]) ! i)) = of_nat i" by simp_all
  next
    fix k assume k: "slot_in (put_slot slots (entry_key e) (of_nat (length es))) k \<and>
      slot_at (put_slot slots (entry_key e) (of_nat (length es))) k \<noteq> UINT32_MAX"
    show "unat (slot_at (put_slot slots (entry_key e) (of_nat (length es))) k) < length (es @ [e])"
      "entry_key ((es @ [e]) ! unat (slot_at (put_slot slots (entry_key e) (of_nat (length es))) k)) = k"
      using slots_okD2 [OF ok, of k] k u unfolding at by (auto simp: nth_append split: if_splits)
  qed
qed

text \<open>An update of an entry in place that keeps its tile.\<close>

lemma slots_ok_update:
  "slots_ok slots es \<Longrightarrow> i < length es \<Longrightarrow> entry_key e = entry_key (es ! i) \<Longrightarrow> slots_ok slots (es[i := e])"
  by (auto simp: slots_ok_def nth_list_update)

section \<open>The invariant\<close>

definition entry_ok :: "reassembly_entry \<Rightarrow> bool" where
  "entry_ok e \<longleftrightarrow>
     length (en_compressed e) = unat (en_compressed_size e) \<and> length (en_received_bitmap e) = 4 \<and>
     unat (en_packet_count e) \<le> 255 \<and>
     unat (en_received_count e) = card {k. k < 256 \<and> bitmap_has (en_received_bitmap e) k} \<and>
     (\<forall>k<256. bitmap_has (en_received_bitmap e) k \<longrightarrow> k < unat (en_packet_count e))"

abbreviation payload_total :: "reassembly_entry list \<Rightarrow> nat" where
  "payload_total es \<equiv> sum_list (map (\<lambda>e. length (en_compressed e)) es)"

definition ra_inv :: "reassembler \<Rightarrow> bool" where
  "ra_inv ra \<longleftrightarrow>
     slots_ok (ra_slots ra) (ra_active ra) \<and> (\<forall>e\<in>set (ra_active ra). entry_ok e) \<and>
     ra_payload_bytes ra = payload_total (ra_active ra) \<and> ra_payload_bytes ra \<le> ra_max_bytes ra \<and>
     length (ra_active ra) \<le> ra_max_entries ra \<and> 1 \<le> ra_max_entries ra"

text \<open>What an operation leaves as it was: the limits and the dimensions of the slot tables.\<close>

definition same_frame :: "reassembler \<Rightarrow> reassembler \<Rightarrow> bool" where
  "same_frame ra ra' \<longleftrightarrow>
     ra_max_bytes ra' = ra_max_bytes ra \<and> ra_max_entries ra' = ra_max_entries ra \<and> ra_frame_width ra' = ra_frame_width ra \<and>
     ra_frame_height ra' = ra_frame_height ra \<and> slot_in (ra_slots ra') = slot_in (ra_slots ra)"

lemma same_frame_refl [simp]: "same_frame ra ra" by (simp add: same_frame_def)

lemma same_frame_trans: "same_frame a b \<Longrightarrow> same_frame b c \<Longrightarrow> same_frame a c" by (simp add: same_frame_def)

lemma recycle_entry_fields [simp]:
  "ra_slots (recycle_entry e ra) = ra_slots ra" "ra_active (recycle_entry e ra) = ra_active ra"
  "ra_payload_bytes (recycle_entry e ra) = ra_payload_bytes ra" "ra_max_bytes (recycle_entry e ra) = ra_max_bytes ra"
  "ra_max_entries (recycle_entry e ra) = ra_max_entries ra" "ra_frame_width (recycle_entry e ra) = ra_frame_width ra"
  "ra_frame_height (recycle_entry e ra) = ra_frame_height ra"
  by (simp_all add: recycle_entry_def Let_def)

text \<open>The entries after removal: the last one takes the place of the one removed.\<close>

definition without :: "nat \<Rightarrow> reassembly_entry list \<Rightarrow> reassembly_entry list" where
  "without i es = (if i = length es - 1 then butlast es else butlast (es[i := last es]))"

lemma remove_entry_ok:
  assumes inv: "ra_inv ra" and i: "i < length (ra_active ra)"
  obtains ra' where "remove_entry i ra = Some ra'" "ra_inv ra'" "same_frame ra ra'" "ra_active ra' = without i (ra_active ra)"
proof -
  note iv = inv [unfolded ra_inv_def]
  obtain es m where es: "ra_active ra = es @ [m]" using i by (metis append_butlast_last_id length_0_conv not_less_zero)
  let ?e = "ra_active ra ! i" let ?k = "entry_key ?e"
  have ok: "slots_ok (ra_slots ra) (es @ [m])" using iv es by simp
  have kin: "slot_in (ra_slots ra) ?k" using slots_okD(1) [OF ok, of i] i es by simp
  then have g: "unat (en_tile_size ?e) < length (ra_slots ra) \<and> unat (en_tile_id ?e) < length (ra_slots ra ! unat (en_tile_size ?e))"
    by (simp add: slot_in_def entry_key_def)
  have put: "(ra_slots ra)[unat (en_tile_size ?e) := (ra_slots ra ! unat (en_tile_size ?e))[unat (en_tile_id ?e) := UINT32_MAX]]
      = put_slot (ra_slots ra) ?k UINT32_MAX" by (simp add: put_slot_def entry_key_def)
  have le: "length (en_compressed ?e) \<le> ra_payload_bytes ra"
    using iv member_le_sum_list [of "length (en_compressed ?e)" "map (\<lambda>e. length (en_compressed e)) (ra_active ra)"] i by simp
  show thesis
  proof (cases "i = length es")
    case True
    then have e: "?e = m" using es by simp
    let ?ra = "recycle_entry ?e (ra\<lparr>ra_payload_bytes := ra_payload_bytes ra - length (en_compressed ?e),
      ra_slots := put_slot (ra_slots ra) ?k UINT32_MAX, ra_active := butlast (ra_active ra)\<rparr>)"
    have r: "remove_entry i ra = Some ?ra" unfolding remove_entry_def Let_def using i g put le True es by simp
    have "ra_inv ?ra" using iv slots_ok_remove_last [OF ok] es True le by (auto simp: ra_inv_def nth_append)
    then show thesis using that [OF r] es True by (simp add: same_frame_def without_def fun_eq_iff)
  next
    case False
    then have i': "i < length es" using i es by simp
    have e: "?e = es ! i" using es i' by (simp add: nth_append)
    have m: "ra_active ra ! (length (ra_active ra) - 1) = m" using es by simp
    have kin2: "slot_in (put_slot (ra_slots ra) ?k UINT32_MAX) (unat (en_tile_size m), unat (en_tile_id m))"
      using slots_okD(1) [OF ok, of "length es"] by (simp add: entry_key_def)
    let ?ra = "recycle_entry ?e (ra\<lparr>ra_payload_bytes := ra_payload_bytes ra - length (en_compressed ?e),
      ra_slots := put_slot (put_slot (ra_slots ra) ?k UINT32_MAX) (entry_key m) (of_nat i),
      ra_active := butlast ((ra_active ra)[i := m])\<rparr>)"
    have "set_slot (put_slot (ra_slots ra) ?k UINT32_MAX) (unat (en_tile_size m)) (unat (en_tile_id m)) (of_nat i)
        = Some (put_slot (put_slot (ra_slots ra) ?k UINT32_MAX) (entry_key m) (of_nat i))"
      using set_slot_put [OF kin2] by (simp add: entry_key_def)
    then have r: "remove_entry i ra = Some ?ra"
      unfolding remove_entry_def Let_def using i g put le False es m by simp
    have a: "butlast ((ra_active ra)[i := m]) = es[i := m]" using es i' by (simp add: list_update_append butlast_append)
    have t: "payload_total (es[i := m]) = ra_payload_bytes ra - length (en_compressed ?e)"
      using iv es e i' by (simp add: map_update sum_list_update)
    have "ra_inv ?ra" unfolding ra_inv_def
      using iv slots_ok_swap_remove [OF ok i'] es e a t by (auto dest!: set_update_subset_insert [THEN subsetD])
    then show thesis using that [OF r] es False m by (simp add: same_frame_def without_def fun_eq_iff)
  qed
qed

lemma set_without: "i < length es \<Longrightarrow> set (without i es) \<subseteq> set es"
proof -
  assume i: "i < length es"
  have "set (butlast (es[i := last es])) \<subseteq> insert (last es) (set es)" using set_update_subset_insert by (metis in_set_butlastD subsetI subsetD)
  moreover have "last es \<in> set es" using i by (intro last_in_set) auto
  ultimately show ?thesis by (auto simp: without_def dest: in_set_butlastD)
qed

lemma remove_all_ok:
  "ra_inv ra \<Longrightarrow> \<exists>ra'. remove_all_entries ra = Some ra' \<and> ra_inv ra' \<and> ra_active ra' = [] \<and> same_frame ra ra'"
proof (induction ra rule: remove_all_entries.induct)
  case (1 ra)
  show ?case
  proof (cases "ra_active ra = []")
    case True
    then show ?thesis using 1 by (simp add: remove_all_entries.simps)
  next
    case False
    then have "length (ra_active ra) - 1 < length (ra_active ra)" by simp
    from remove_entry_ok [OF "1.prems" this] obtain ra1 where
      r: "remove_entry (length (ra_active ra) - 1) ra = Some ra1" "ra_inv ra1" "same_frame ra ra1" by blast
    from "1.IH" [OF False r(1,2)] r False same_frame_trans show ?thesis by (subst remove_all_entries.simps) auto
  qed
qed

lemma slots_ok_empty: "(\<And>k. slot_in slots k \<Longrightarrow> slot_at slots k = UINT32_MAX) \<Longrightarrow> slots_ok slots []"
  by (auto simp: slots_ok_def)

lemma reset_ok: "ra_inv ra \<Longrightarrow> \<exists>ra'. reset_reassembler ra = Some ra' \<and> ra_inv ra' \<and> ra_active ra' = []"
proof -
  assume "ra_inv ra"
  from remove_all_ok [OF this] obtain ra1 where r: "remove_all_entries ra = Some ra1" "ra_inv ra1" "ra_active ra1 = []" by blast
  have "slots_ok (map (\<lambda>_. []) (ra_slots ra1)) []" by (rule slots_ok_empty) (auto simp: slot_in_def)
  then show ?thesis using r by (simp add: reset_reassembler_def ra_inv_def)
qed

lemma new_slots_invalid:
  "new_slots sizes config = Some slots \<Longrightarrow> slot_in slots k \<Longrightarrow> slot_at slots k = UINT32_MAX"
proof (induction sizes config arbitrary: slots k rule: new_slots.induct)
  case (2 sz sizes config)
  then obtain n ss where s: "slots = replicate n UINT32_MAX # ss" "new_slots sizes config = Some ss"
    by (auto simp: Let_def split: option.splits if_splits)
  obtain a b where k: "k = (a, b)" by force
  show ?case
  proof (cases a)
    case 0
    then show ?thesis using "2.prems" s k by (simp add: slot_in_def slot_at_def)
  next
    case (Suc a')
    have "slot_in ss (a', b)" using "2.prems"(2) s k Suc by (simp add: slot_in_def)
    moreover have "\<And>tw th. wd_tile_dimensions_for_size_code sz = Some (tw, th) \<Longrightarrow> slot_at ss (a', b) = UINT32_MAX"
      using "2.IH" "2.prems"(1) s(2) calculation by (auto simp: Let_def split: if_splits)
    ultimately have "slot_at ss (a', b) = UINT32_MAX" using "2.prems"(1) by (auto split: option.splits)
    then show ?thesis using s k Suc by (simp add: slot_at_def)
  qed
qed (simp add: slot_in_def)

declare new_slots.simps [simp del]

lemma configure_ok:
  assumes "ra_inv ra"
  shows "\<exists>ok ra'. configure_entry_slots config ra = Some (ok, ra') \<and> ra_inv ra' \<and>
    (ra_active ra' = ra_active ra \<and> ra' = ra \<or> ra_active ra' = [])"
proof (cases "ra_frame_width ra = tc_width config \<and> ra_frame_height ra = tc_height config \<and> ra_frame_width ra \<noteq> 0")
  case True
  then show ?thesis using assms unfolding configure_entry_slots_def if_P [OF True] by blast
next
  case False
  show ?thesis
  proof (cases "new_slots [0, 1, 2, 3] config")
    case None
    then show ?thesis using assms unfolding configure_entry_slots_def if_not_P [OF False] by auto
  next
    case (Some slots)
    from remove_all_ok [OF assms] obtain ra1 where r: "remove_all_entries ra = Some ra1" "ra_inv ra1" "ra_active ra1 = []" by blast
    have "slots_ok slots []" by (rule slots_ok_empty) (rule new_slots_invalid [OF Some])
    then show ?thesis using r Some unfolding configure_entry_slots_def if_not_P [OF False] by (auto simp: ra_inv_def)
  qed
qed

section \<open>Expiry and budget\<close>

lemma expire_ok:
  assumes "ra_inv ra" "i < length (ra_active ra)"
  shows "\<exists>ra' st'. expire_entry i (ra, st) = Some (ra', st') \<and> ra_inv ra' \<and> same_frame ra ra' \<and>
    ra_active ra' = without i (ra_active ra)"
  using assms by (rule remove_entry_ok) (use assms(2) in \<open>auto simp: expire_entry_def Let_def\<close>)

lemma evict_ok:
  assumes "ra_inv ra" "i < length (ra_active ra)"
  shows "\<exists>ra' st'. evict_entry_for_budget i (ra, st) = Some (ra', st') \<and> ra_inv ra' \<and> same_frame ra ra' \<and>
    ra_active ra' = without i (ra_active ra)"
  using assms by (rule remove_entry_ok) (use assms(2) in \<open>auto simp: evict_entry_for_budget_def\<close>)

lemma expire_loop_ok:
  "ra_inv ra \<Longrightarrow> \<exists>ra' st'. expire_loop now i (ra, st) = Some (ra', st') \<and> ra_inv ra' \<and> set (ra_active ra') \<subseteq> set (ra_active ra)"
proof (induction now i "(ra, st)" arbitrary: ra st rule: expire_loop.induct)
  case (1 now i ra st)
  consider (out) "\<not> i < length (ra_active ra)" | (stale) "i < length (ra_active ra)" "is_stale now st (ra_active ra ! i)"
    | (keep) "i < length (ra_active ra)" "\<not> is_stale now st (ra_active ra ! i)" by blast
  then show ?case
  proof cases
    case out
    then show ?thesis using "1.prems" by (simp add: expire_loop.simps)
  next
    case stale
    from expire_ok [OF "1.prems" stale(1)] obtain ra1 st1 where
      r: "expire_entry i (ra, st) = Some (ra1, st1)" "ra_inv ra1" "ra_active ra1 = without i (ra_active ra)" by blast
    from "1.hyps"(1) [OF stale r(1) refl r(2)] r(1,3) stale set_without [OF stale(1)]
    show ?thesis by (subst expire_loop.simps) fastforce
  next
    case keep
    from "1.hyps"(2) [OF keep "1.prems"] keep show ?thesis by (subst expire_loop.simps) simp
  qed
qed

text \<open>The eviction loop ends with room for the payload, unless the payload alone exceeds the budget.\<close>

lemma budget_loop_ok:
  "\<lbrakk>ra_inv ra; n \<le> ra_max_bytes ra\<rbrakk> \<Longrightarrow>
   \<exists>ra' st'. budget_loop n (ra, st) = Some (ra', st') \<and> ra_inv ra' \<and> same_frame ra ra' \<and>
     set (ra_active ra') \<subseteq> set (ra_active ra) \<and> \<not> over_budget n ra' \<and> (\<not> over_budget n ra \<longrightarrow> ra' = ra)"
proof (induction n "(ra, st)" arbitrary: ra st rule: budget_loop.induct)
  case (1 n ra st)
  show ?case
  proof (cases "ra_active ra \<noteq> [] \<and> over_budget n ra")
    case True
    then have i: "oldest_index (ra_active ra) < length (ra_active ra)" using oldest_index_less by blast
    from evict_ok [OF "1.prems"(1) i] obtain ra1 st1 where
      r: "evict_entry_for_budget (oldest_index (ra_active ra)) (ra, st) = Some (ra1, st1)" "ra_inv ra1" "same_frame ra ra1"
        "ra_active ra1 = without (oldest_index (ra_active ra)) (ra_active ra)" by blast
    have n: "n \<le> ra_max_bytes ra1" using "1.prems"(2) r(3) by (simp add: same_frame_def)
    from "1.hyps" [OF True r(1) refl r(2) n] obtain ra' st' where
      b: "budget_loop n (ra1, st1) = Some (ra', st')" "ra_inv ra'" "same_frame ra1 ra'"
        "set (ra_active ra') \<subseteq> set (ra_active ra1)" "\<not> over_budget n ra'" by blast
    have "budget_loop n (ra, st) = Some (ra', st')" using True r(1) b(1) by (subst budget_loop.simps) simp
    moreover have "same_frame ra ra'" using same_frame_trans [OF r(3) b(3)] .
    moreover have "set (ra_active ra') \<subseteq> set (ra_active ra)" using b(4) r(4) set_without [OF i] by simp
    ultimately show ?thesis using b(2,5) True by (intro exI [of _ ra'] exI [of _ st']) simp
  next
    case False
    then have s: "budget_loop n (ra, st) = Some (ra, st)" by (subst budget_loop.simps) (rule if_not_P)
    have "\<not> over_budget n ra"
    proof (cases "ra_active ra = []")
      case True
      then have "ra_payload_bytes ra = 0" "1 \<le> ra_max_entries ra" using "1.prems"(1) by (simp_all add: ra_inv_def)
      then show ?thesis using True "1.prems"(2) by simp
    next
      case other: False
      then show ?thesis using False by blast
    qed
    then show ?thesis using s "1.prems"(1) by (intro exI [of _ ra] exI [of _ st]) simp
  qed
qed

lemma ensure_budget_ok:
  assumes "ra_inv ra"
  shows "\<exists>ok ra' st'. ensure_budget n (ra, st) = Some (ok, ra', st') \<and> ra_inv ra' \<and> same_frame ra ra' \<and>
    set (ra_active ra') \<subseteq> set (ra_active ra) \<and> (ok \<longleftrightarrow> n \<le> ra_max_bytes ra) \<and> (ok \<longrightarrow> \<not> over_budget n ra') \<and>
    (\<not> over_budget n ra \<longrightarrow> ra' = ra)"
proof (cases "n \<le> ra_max_bytes ra")
  case True
  from budget_loop_ok [OF assms True, of st] True show ?thesis by (auto simp: ensure_budget_def)
next
  case False
  then have "ensure_budget n (ra, st) = Some (False, ra, st)" by (simp add: ensure_budget_def)
  then show ?thesis using assms False by auto
qed

section \<open>One packet\<close>

text \<open>What \<open>accept_packet\<close> guarantees about a header.\<close>

lemma accept_packetD:
  assumes "accept_packet zbound config packet = Some (h, tw, th)"
  shows "wd_udp_tile_packet_decode packet = Some h" "wd_tile_dimensions_for_size_code (ud_tile_size h) = Some (tw, th)"
    "ud_session_id h = tc_session_id config" "ud_connection_token h = tc_connection_token config"
    "0 < unat (ud_tile_pkt_count h)" "unat (ud_tile_pkt_id h) < unat (ud_tile_pkt_count h)"
    "unat (ud_header_size h) + unat (ud_payload_size h) = length packet" "0 < unat (packet_payload_target config)"
    "unat (ud_tile_pkt_count h) =
      (unat (ud_tile_payload_size h) + unat (packet_payload_target config) - 1) div unat (packet_payload_target config)"
    "unat (ud_payload_size h) =
      min (unat (packet_payload_target config)) (unat (ud_tile_payload_size h) - unat (ud_tile_pkt_id h) * unat (packet_payload_target config))"
    "0 < unat (ud_tile_payload_size h)"
proof -
  have d: "wd_udp_tile_packet_decode packet = Some h" "wd_tile_dimensions_for_size_code (ud_tile_size h) = Some (tw, th)"
    and v: "packet_header_validation_result zbound h (length packet) (packet_payload_target config) config = TilePacket_Valid"
    using assms by (auto simp: accept_packet_def validate_tile_packet_header_def split: bind_splits if_splits)
  then have l: "wd_udp_tile_fragment_layout_valid (Some h) (length packet) (packet_payload_target config) (ucast (ud_tile_payload_size h))"
    and i: "ud_session_id h = tc_session_id config" "ud_connection_token h = tc_connection_token config"
    and c: "ud_tile_pkt_count h \<noteq> 0" "ud_tile_payload_size h \<noteq> 0"
    by (auto simp: packet_header_validation_result_def Let_def split: if_splits)
  note L = l [unfolded fragment_layout_iff]
  show "wd_udp_tile_packet_decode packet = Some h" "wd_tile_dimensions_for_size_code (ud_tile_size h) = Some (tw, th)"
    "ud_session_id h = tc_session_id config" "ud_connection_token h = tc_connection_token config" using d i by simp_all
  show "0 < unat (ud_tile_pkt_count h)" "0 < unat (ud_tile_payload_size h)" using c by (simp_all add: unat_gt_0)
  show "unat (ud_tile_pkt_id h) < unat (ud_tile_pkt_count h)" using L by (simp add: word_less_nat_alt)
  show "0 < unat (packet_payload_target config)" using L by (simp add: unat_gt_0)
  show "unat (ud_header_size h) + unat (ud_payload_size h) = length packet" using L by simp
  show "unat (ud_tile_pkt_count h) =
      (unat (ud_tile_payload_size h) + unat (packet_payload_target config) - 1) div unat (packet_payload_target config)" using L by simp
  show "unat (ud_payload_size h) =
      min (unat (packet_payload_target config)) (unat (ud_tile_payload_size h) - unat (ud_tile_pkt_id h) * unat (packet_payload_target config))"
    using L by simp
qed

lemma bitmap_has_bit: "bitmap_has bm k \<longleftrightarrow> bit (bm ! (k div 64)) (k mod 64)"
proof -
  have "w AND push_bit j 1 \<noteq> 0 \<longleftrightarrow> bit w j" if "j < 64" for w :: u64 and j
    using that by (subst bit_eq_iff) (auto simp: bit_simps)
  then show ?thesis by (simp add: bitmap_has_def)
qed

lemma bitmap_empty [simp]: "k < 256 \<Longrightarrow> \<not> bitmap_has [0, 0, 0, 0] k"
proof -
  assume "k < 256"
  then have "k div 64 < 4" by simp
  moreover have "[0, 0, 0, 0 :: u64] = replicate 4 0" by (simp add: numeral_eq_Suc)
  ultimately have "[0, 0, 0, 0 :: u64] ! (k div 64) = 0" by (metis nth_replicate)
  then show ?thesis by (simp add: bitmap_has_def)
qed

lemma bitmap_set:
  assumes "length bm = 4" "k < 256" "j < 256"
  shows "bitmap_has (bm[k div 64 := bm ! (k div 64) OR push_bit (k mod 64) 1]) j \<longleftrightarrow> j = k \<or> bitmap_has bm j"
proof (cases "j div 64 = k div 64")
  case True
  have "j mod 64 = k mod 64 \<longleftrightarrow> j = k" using True by (metis div_mult_mod_eq)
  then show ?thesis using assms True by (auto simp: bitmap_has_bit bit_simps)
next
  case False
  then show ?thesis using assms by (auto simp: bitmap_has_bit)
qed

text \<open>The configuration is not changed by the bookkeeping.\<close>

lemma fold_keeps: "(\<And>x s. f (g x s) = f s) \<Longrightarrow> f (fold g xs s) = f s"
  by (induction xs arbitrary: s) simp_all

lemma config_kept [simp]:
  "ct_config (clear_retx_inflight b g st) = ct_config st"
  "ct_config (snd (enqueue_retx_for_partial_timeout b g st)) = ct_config st"
  "ct_config (snd (note_base_arrival g now b s)) = ct_config (snd s)"
  "ct_config (update_tile_reassembly_timeout j n r st) = ct_config st"
  "ct_config (reduce_tile_reassembly_timeout_after_loss st) = ct_config st"
  by (simp_all add: clear_retx_inflight_def enqueue_retx_for_partial_timeout_def note_base_arrival_def Let_def
      update_tile_reassembly_timeout_def reduce_tile_reassembly_timeout_after_loss_def split: prod.splits)

lemma config_kept_tiles [simp]:
  "ct_config (clear_entry_retx_inflight tile sz g st) = ct_config st"
  "ct_config (queue_tile_repair tile sz g st) = ct_config st"
  "ct_config (note_tile_arrival tile sz g now st) = ct_config st"
proof -
  show "ct_config (clear_entry_retx_inflight tile sz g st) = ct_config st"
    unfolding clear_entry_retx_inflight_def by (rule fold_keeps) simp
  have "ct_config (case enqueue_retx_for_partial_timeout b g s of (True, s) \<Rightarrow> s | (False, s) \<Rightarrow> clear_retx_inflight b g s)
      = ct_config s" for b s
    using config_kept(2) [of b g s] by (cases "enqueue_retx_for_partial_timeout b g s") (auto split: bool.splits)
  then show "ct_config (queue_tile_repair tile sz g st) = ct_config st"
    unfolding queue_tile_repair_def by (intro fold_keeps)
  have "ct_config (snd (fold (note_base_arrival g now) bs s)) = ct_config (snd s)" for bs s
    by (rule fold_keeps [where f = "\<lambda>s. ct_config (snd s)"]) simp
  note f = this [of "base_tiles_covered sz tile (ct_config st)" "(0, st)"]
  obtain r st' where "fold (note_base_arrival g now) (base_tiles_covered sz tile (ct_config st)) (0, st) = (r, st')" by force
  with f show "ct_config (note_tile_arrival tile sz g now st) = ct_config st"
    by (simp add: note_tile_arrival_def)
qed

lemma entry_repair_config [simp]: "ct_config (queue_entry_repair e st) = ct_config st"
  by (simp add: queue_entry_repair_def)

lemma expire_config: "expire_entry i (ra, st) = Some (ra', st') \<Longrightarrow> ct_config st' = ct_config st"
  by (auto simp: expire_entry_def Let_def split: if_splits)

lemma evict_config: "evict_entry_for_budget i (ra, st) = Some (ra', st') \<Longrightarrow> ct_config st' = ct_config st"
  by (auto simp: evict_entry_for_budget_def split: if_splits)

lemma budget_loop_config: "budget_loop n (ra, st) = Some (ra', st') \<Longrightarrow> ct_config st' = ct_config st"
proof (induction n "(ra, st)" arbitrary: ra st rule: budget_loop.induct)
  case (1 n ra st)
  show ?case
  proof (cases "ra_active ra \<noteq> [] \<and> over_budget n ra")
    case True
    obtain ra1 st1 where e: "evict_entry_for_budget (oldest_index (ra_active ra)) (ra, st) = Some (ra1, st1)"
      using "1.prems" True by (subst (asm) budget_loop.simps) (auto split: option.splits)
    then have "budget_loop n (ra1, st1) = Some (ra', st')" using "1.prems" True by (subst (asm) budget_loop.simps) simp
    from "1.hyps" [OF True e refl this] evict_config [OF e] show ?thesis by simp
  next
    case False
    then show ?thesis using "1.prems" by (subst (asm) budget_loop.simps) (auto split: if_splits)
  qed
qed

lemma ensure_budget_config: "ensure_budget n (ra, st) = Some (ok, ra', st') \<Longrightarrow> ct_config st' = ct_config st"
  using budget_loop_config by (auto simp: ensure_budget_def split: if_splits)

lemma expire_loop_config: "expire_loop now i (ra, st) = Some (ra', st') \<Longrightarrow> ct_config st' = ct_config st"
proof (induction now i "(ra, st)" arbitrary: ra st rule: expire_loop.induct)
  case (1 now i ra st)
  consider (out) "\<not> i < length (ra_active ra)" | (stale) "i < length (ra_active ra)" "is_stale now st (ra_active ra ! i)"
    | (keep) "i < length (ra_active ra)" "\<not> is_stale now st (ra_active ra ! i)" by blast
  then show ?case
  proof cases
    case out
    then show ?thesis using "1.prems" by (subst (asm) expire_loop.simps) simp
  next
    case stale
    obtain ra1 st1 where e: "expire_entry i (ra, st) = Some (ra1, st1)"
      using "1.prems" stale by (subst (asm) expire_loop.simps) (auto split: option.splits)
    then have "expire_loop now i (ra1, st1) = Some (ra', st')" using "1.prems" stale by (subst (asm) expire_loop.simps) simp
    from "1.hyps"(1) [OF stale e refl this] expire_config [OF e] show ?thesis by simp
  next
    case keep
    then have "expire_loop now (Suc i) (ra, st) = Some (ra', st')" using "1.prems" by (subst (asm) expire_loop.simps) simp
    from "1.hyps"(2) [OF keep this] show ?thesis .
  qed
qed

section \<open>Entries\<close>

abbreviation header_key :: "wd_udp_tile_packet_decoded \<Rightarrow> nat \<times> nat" where
  "header_key h \<equiv> (unat (ud_tile_size h), unat (ud_tile_id h))"

definition entry_of_header :: "wd_udp_tile_packet_decoded \<Rightarrow> reassembly_entry \<Rightarrow> bool" where
  "entry_of_header h e \<longleftrightarrow>
     entry_key e = header_key h \<and> en_generation e = ud_tile_generation h \<and> en_content_epoch e = ud_content_epoch h"

lemma start_entry_fields:
  "entry_of_header h (start_entry h tw th now (blank_entry (ud_tile_size h) (ud_tile_id h) seen))"
  by (simp add: entry_of_header_def start_entry_def blank_entry_def entry_key_def)

lemma start_entry_ok: "entry_ok (start_entry h tw th now e)"
  using unat_u8_lt [of "ud_tile_pkt_count h"]
  by (auto simp: start_entry_def entry_ok_def card_eq_0_iff)

lemma no_entry_slot:
  assumes "slots_ok slots es" "slot_in slots k" "\<forall>e\<in>set es. entry_key e \<noteq> k"
  shows "slot_at slots k = UINT32_MAX"
  using slots_okD2 [OF assms(1,2)] assms(3) nth_mem by blast

text \<open>A new entry goes to the end, after evictions if the budget needs them.\<close>

lemma new_entry_ok:
  assumes inv: "ra_inv ra" and free: "\<forall>e\<in>set (ra_active ra). entry_key e \<noteq> header_key h"
  shows "\<exists>r ra' st'. new_entry h tw th now (ra, st) = Some (r, ra', st') \<and> ra_inv ra' \<and> ct_config st' = ct_config st \<and>
    (case r of None \<Rightarrow> set (ra_active ra') \<subseteq> set (ra_active ra)
     | Some i \<Rightarrow> \<exists>seen es. ra_active ra' = es @ [start_entry h tw th now (blank_entry (ud_tile_size h) (ud_tile_id h) seen)] \<and>
         i = length es \<and> set es \<subseteq> set (ra_active ra))"
proof -
  let ?n = "unat (ud_tile_payload_size h)"
  obtain ok ra1 st1 where b: "ensure_budget ?n (ra, st) = Some (ok, ra1, st1)" "ra_inv ra1"
    "set (ra_active ra1) \<subseteq> set (ra_active ra)" "ok \<longrightarrow> \<not> over_budget ?n ra1"
    using ensure_budget_ok [OF inv, of ?n st] by blast
  have c: "ct_config st1 = ct_config st" using ensure_budget_config [OF b(1)] .
  consider (refused) "\<not> ok" | (full) ok "activate_entry (ud_tile_size h) (ud_tile_id h) ra1 = None"
    | (added) i ra2 where ok "activate_entry (ud_tile_size h) (ud_tile_id h) ra1 = Some (i, ra2)" by fastforce
  then show ?thesis
  proof cases
    case refused
    then have "new_entry h tw th now (ra, st) = Some (None, ra1, st1)" using b(1) by (simp add: new_entry_def)
    then show ?thesis using b c by auto
  next
    case full
    then have "new_entry h tw th now (ra, st) = Some (None, ra1, st1)" using b(1) by (simp add: new_entry_def)
    then show ?thesis using b c by auto
  next
    case (added i ra2)
    let ?k = "header_key h"
    have room: "slot_in (ra_slots ra1) ?k" "length (ra_active ra1) < 4294967295"
      using added(2) by (auto simp: activate_entry_def slot_in_def Let_def split: if_splits)
    obtain seen rec where a: "i = length (ra_active ra1)" "ra2 = ra1\<lparr>
        ra_active := ra_active ra1 @ [blank_entry (ud_tile_size h) (ud_tile_id h) seen], ra_recycled := rec,
        ra_slots := put_slot (ra_slots ra1) ?k (of_nat (length (ra_active ra1)))\<rparr>"
      using added(2) by (auto simp: activate_entry_def Let_def put_slot_def split: if_splits prod.splits)
    let ?e = "start_entry h tw th now (blank_entry (ud_tile_size h) (ud_tile_id h) seen)"
    let ?ra = "ra2\<lparr>ra_active := ra_active ra1 @ [?e], ra_payload_bytes := ra_payload_bytes ra1 + ?n\<rparr>"
    have le: "length (en_compressed ?e) = ?n" by (simp add: start_entry_def)
    have r: "new_entry h tw th now (ra, st) = Some (Some i, ?ra,
        note_tile_arrival (ud_tile_id h) (ud_tile_size h) (ud_tile_generation h) now st1)"
      using b(1) added a le by (simp add: new_entry_def Let_def)
    note iv = b(2) [unfolded ra_inv_def]
    have "slot_at (ra_slots ra1) ?k = UINT32_MAX"
      using no_entry_slot [OF _ room(1)] iv free b(3) by blast
    then have "slots_ok (put_slot (ra_slots ra1) ?k (of_nat (length (ra_active ra1)))) (ra_active ra1 @ [?e])"
      using slots_ok_add [of "ra_slots ra1" "ra_active ra1" ?e] iv room start_entry_fields [of h tw th now seen]
      by (simp add: entry_of_header_def)
    then have "ra_inv ?ra" using iv a b(4) added(1) le start_entry_ok by (auto simp: ra_inv_def)
    then show ?thesis using r c a b(3) by auto
  qed
qed

end
