(* ===== verification/WD_Reassembly_Run.thy ===== *)
theory WD_Reassembly_Run
  imports WD_Reassembly_Inv
begin

text \<open>
  Runs of the reassembler: every packet, expiry and reset keeps the invariant of
  \<open>WD_Reassembly_Inv\<close> together with the origin of the bytes it holds, so that a completed tile is
  made of the payloads of packets that arrived.
\<close>

section \<open>Where the bytes of an entry come from\<close>

definition packet_payload :: "wd_udp_tile_packet_decoded \<Rightarrow> bytes \<Rightarrow> bytes" where
  "packet_payload h packet = drop (unat (ud_header_size h)) packet"

text \<open>A packet that carries fragment \<open>k\<close> of the tile of an entry.\<close>

definition carries_fragment :: "(nat \<Rightarrow> nat) \<Rightarrow> tile_config \<Rightarrow> reassembly_entry \<Rightarrow> nat \<Rightarrow> bytes \<Rightarrow> wd_udp_tile_packet_decoded \<Rightarrow> bool" where
  "carries_fragment zbound config e k packet h \<longleftrightarrow>
     accept_packet zbound config packet = Some (h, en_tile_width e, en_tile_height e) \<and> entry_of_header h e \<and>
     unat (ud_tile_pkt_id h) = k \<and> en_packet_count e = ucast (ud_tile_pkt_count h) \<and>
     en_compressed_size e = ucast (ud_tile_payload_size h) \<and>
     en_compressed_payload e = wd_udp_tile_packet_is_compressed (Some h) \<and>
     (k = 0 \<longrightarrow> en_input_sequence e = ud_input_sequence h) \<and>
     rd_range (en_compressed e) (k * unat (packet_payload_target config)) (length (packet_payload h packet)) = Some (packet_payload h packet)"

definition entry_from :: "(nat \<Rightarrow> nat) \<Rightarrow> tile_config \<Rightarrow> bytes set \<Rightarrow> reassembly_entry \<Rightarrow> bool" where
  "entry_from zbound config P e \<longleftrightarrow>
     wd_tile_dimensions_for_size_code (en_tile_size e) = Some (en_tile_width e, en_tile_height e) \<and>
     unat (en_packet_count e) =
       (unat (en_compressed_size e) + unat (packet_payload_target config) - 1) div unat (packet_payload_target config) \<and>
     (bitmap_has (en_received_bitmap e) 0 \<longrightarrow> en_first_fragment_metadata_seen e) \<and>
     (\<forall>k<256. bitmap_has (en_received_bitmap e) k \<longrightarrow> (\<exists>packet\<in>P. \<exists>h. carries_fragment zbound config e k packet h))"

lemma entry_from_mono: "entry_from zbound config P e \<Longrightarrow> P \<subseteq> Q \<Longrightarrow> entry_from zbound config Q e"
  unfolding entry_from_def by blast

lemma entry_from_start:
  assumes "accept_packet zbound config packet = Some (h, tw, th)"
  shows "entry_from zbound config P (start_entry h tw th now (blank_entry (ud_tile_size h) (ud_tile_id h) seen))"
  using accept_packetD [OF assms] by (simp add: entry_from_def start_entry_def blank_entry_def)

text \<open>The fragment of an accepted packet lies inside the payload of its tile.\<close>

lemma fragment_range:
  assumes "accept_packet zbound config packet = Some (h, tw, th)"
  defines "t \<equiv> packet_payload_target config"
  shows "unat (ucast (ud_tile_pkt_id h) * ucast t :: u32) = unat (ud_tile_pkt_id h) * unat t"
    "length (packet_payload h packet) = min (unat t) (unat (ud_tile_payload_size h) - unat (ud_tile_pkt_id h) * unat t)"
    "unat (ud_tile_pkt_id h) * unat t + length (packet_payload h packet) \<le> unat (ud_tile_payload_size h)"
proof -
  let ?k = "unat (ud_tile_pkt_id h)" and ?t = "unat t" and ?s = "unat (ud_tile_payload_size h)"
  note a = accept_packetD [OF assms(1), folded t_def]
  have "?k * ?t \<le> 255 * 65535" using unat_u8_lt [of "ud_tile_pkt_id h"] unat_u16_lt [of t] by (intro mult_le_mono) auto
  then show "unat (ucast (ud_tile_pkt_id h) * ucast t :: u32) = ?k * ?t" by (subst unat_mult_exact) auto
  show l: "length (packet_payload h packet) = min ?t (?s - ?k * ?t)" using a(7,10) by (simp add: packet_payload_def)
  have "?k * ?t < ?s" using a(6,8,9) less_ceil_div_iff [of ?t ?k ?s] by simp
  then show "?k * ?t + length (packet_payload h packet) \<le> ?s" using l by simp
qed

text \<open>Fragments of the same tile do not overlap.\<close>

lemma wr_range_other:
  assumes "wr_range m off ys = Some m'" "off' + n \<le> off \<or> off + length ys \<le> off'" "rd_range m off' n = Some zs"
  shows "rd_range m' off' n = Some zs"
proof -
  have l: "off + length ys \<le> length m" "off' + n \<le> length m" "zs = take n (drop off' m)"
    and m': "m' = take off m @ ys @ drop (off + length ys) m"
    using assms(1,3) by (auto simp: wr_range_def rd_range_def split: if_splits)
  have "take n (drop off' m') = take n (drop off' m)"
    using assms(2) l(1,2) by (intro nth_equalityI) (auto simp: m' nth_append)
  then show ?thesis using l m' by (simp add: rd_range_def)
qed

lemma wr_range_same: "wr_range m off ys = Some m' \<Longrightarrow> rd_range m' off (length ys) = Some ys"
  by (auto simp: wr_range_def rd_range_def split: if_splits)

lemma fragments_apart:
  fixes t :: nat
  assumes "j \<noteq> k" "p \<le> t" "q \<le> t"
  shows "j * t + p \<le> k * t \<or> k * t + q \<le> j * t"
proof (cases "j < k")
  case True
  then have "Suc j * t \<le> k * t" by (intro mult_le_mono1) simp
  then show ?thesis using assms by simp
next
  case False
  then have "Suc k * t \<le> j * t" using assms(1) by (intro mult_le_mono1) simp
  then show ?thesis using assms by simp
qed

section \<open>Storing a fragment\<close>

text \<open>An entry whose bitmap has one more bit has one more packet.\<close>

lemma entry_ok_store:
  assumes ok: "entry_ok e" and k: "k < unat (en_packet_count e)" "\<not> bitmap_has (en_received_bitmap e) k"
    and c: "length c = length (en_compressed e)"
  shows "entry_ok (e\<lparr>en_compressed := c,
    en_received_bitmap := (en_received_bitmap e)[k div 64 := en_received_bitmap e ! (k div 64) OR push_bit (k mod 64) 1],
    en_received_count := en_received_count e + 1\<rparr>)"
proof -
  note o = ok [unfolded entry_ok_def]
  let ?bm = "(en_received_bitmap e)[k div 64 := en_received_bitmap e ! (k div 64) OR push_bit (k mod 64) 1]"
  have k256: "k < 256" using k o by simp
  have bm: "bitmap_has ?bm j \<longleftrightarrow> j = k \<or> bitmap_has (en_received_bitmap e) j" if "j < 256" for j
    using bitmap_set [OF _ k256 that] o by simp
  have eq: "{j. j < 256 \<and> bitmap_has ?bm j} = insert k {j. j < 256 \<and> bitmap_has (en_received_bitmap e) j}"
    using bm k256 by auto
  have card: "card {j. j < 256 \<and> bitmap_has ?bm j} = Suc (unat (en_received_count e))"
    unfolding eq using o k by (subst card_insert_disjoint) auto
  have "card {j. j < 256 \<and> bitmap_has ?bm j} \<le> card {..<256 :: nat}" by (rule card_mono) auto
  then have small: "Suc (unat (en_received_count e)) \<le> 256" using card by simp
  have "unat (en_received_count e + 1) = Suc (unat (en_received_count e))" by (subst unat_add_exact) (use small in auto)
  then show ?thesis using o bm card c k by (auto simp: entry_ok_def)
qed

definition note_first :: "wd_udp_tile_packet_decoded \<Rightarrow> reassembly_entry \<Rightarrow> reassembly_entry" where
  "note_first h e =
     (if ud_tile_pkt_id h = 0 then e\<lparr>en_first_fragment_metadata_seen := True, en_input_sequence := ud_input_sequence h\<rparr> else e)"

lemma note_first_fields [simp]:
  "en_tile_id (note_first h e) = en_tile_id e" "en_tile_size (note_first h e) = en_tile_size e"
  "en_tile_width (note_first h e) = en_tile_width e" "en_tile_height (note_first h e) = en_tile_height e"
  "en_generation (note_first h e) = en_generation e" "en_content_epoch (note_first h e) = en_content_epoch e"
  "en_packet_count (note_first h e) = en_packet_count e" "en_compressed_size (note_first h e) = en_compressed_size e"
  "en_compressed_payload (note_first h e) = en_compressed_payload e" "en_compressed (note_first h e) = en_compressed e"
  "en_received_bitmap (note_first h e) = en_received_bitmap e" "en_received_count (note_first h e) = en_received_count e"
  "en_first_packet_ns (note_first h e) = en_first_packet_ns e"
  by (simp_all add: note_first_def)

lemma note_first_seen [simp]:
  "ud_tile_pkt_id h = 0 \<Longrightarrow> en_input_sequence (note_first h e) = ud_input_sequence h"
  "ud_tile_pkt_id h = 0 \<Longrightarrow> en_first_fragment_metadata_seen (note_first h e)"
  by (simp_all add: note_first_def)

lemma note_first_key [simp]:
  "entry_key (note_first h e) = entry_key e" "entry_of_header h' (note_first h e) = entry_of_header h' e"
  "entry_ok (note_first h e) = entry_ok e"
  by (simp_all add: entry_key_def entry_of_header_def entry_ok_def)

text \<open>The first fragment's metadata is noted without harm to what is already held.\<close>

lemma entry_from_note_first:
  assumes f: "entry_from zbound config P e"
    and c: "\<not> (ud_tile_pkt_id h = 0 \<and> en_first_fragment_metadata_seen e \<and> en_input_sequence e \<noteq> ud_input_sequence h)"
  shows "entry_from zbound config P (note_first h e)"
proof (cases "ud_tile_pkt_id h = 0 \<and> \<not> bitmap_has (en_received_bitmap e) 0")
  case True
  have "carries_fragment zbound config (note_first h e) k packet h'"
    if "carries_fragment zbound config e k packet h'" "bitmap_has (en_received_bitmap e) k" for k packet h'
    using that True by (cases "k = 0") (auto simp: carries_fragment_def)
  then show ?thesis using f True unfolding entry_from_def by (auto simp: note_first_def) blast
next
  case False
  then have "note_first h e = e" using f c by (cases e) (auto simp: note_first_def entry_from_def)
  then show ?thesis using f by simp
qed

lemma store_fragment_eq:
  "store_fragment h t payload e =
     (if ud_tile_pkt_id h = 0 \<and> en_first_fragment_metadata_seen e \<and> en_input_sequence e \<noteq> ud_input_sequence h
      then Some (Fragment_conflict, e)
      else if en_packet_count e \<noteq> ucast (ud_tile_pkt_count h) \<or> en_compressed_size e \<noteq> ucast (ud_tile_payload_size h) \<or>
           en_compressed_payload e \<noteq> wd_udp_tile_packet_is_compressed (Some h)
      then Some (Fragment_ignored, note_first h e)
      else let offset = unat (ucast (ud_tile_pkt_id h) * ucast t :: u32); k = unat (ud_tile_pkt_id h) in
        rd (en_received_bitmap e) (k div 64) \<bind> (\<lambda>word.
          if word AND push_bit (k mod 64) 1 = 0
          then wr_range (en_compressed e) offset payload \<bind> (\<lambda>c.
            Some (Fragment_held, (note_first h e)\<lparr>en_compressed := c,
              en_received_bitmap := (en_received_bitmap e)[k div 64 := word OR push_bit (k mod 64) 1],
              en_received_count := en_received_count e + 1\<rparr>))
          else rd_range (en_compressed e) offset (length payload) \<bind> (\<lambda>held.
            Some (if held \<noteq> payload then Fragment_conflict else Fragment_held, note_first h e))))"
  unfolding store_fragment_def note_first_def [symmetric] Let_def note_first_fields ..

lemma rd_range_in: "off + n \<le> length m \<Longrightarrow> rd_range m off n = Some (take n (drop off m))"
  by (simp add: rd_range_def)

text \<open>A stored fragment is the packet's, and the fragments stored before keep their bytes.\<close>

lemma entry_from_store:
  assumes f: "entry_from zbound config P e" and ok: "entry_ok e"
    and a: "accept_packet zbound config packet = Some (h, en_tile_width e, en_tile_height e)" and hd: "entry_of_header h e"
    and same: "en_packet_count e = ucast (ud_tile_pkt_count h)" "en_compressed_size e = ucast (ud_tile_payload_size h)"
      "en_compressed_payload e = wd_udp_tile_packet_is_compressed (Some h)"
    and first: "ud_tile_pkt_id h = 0 \<longrightarrow> en_input_sequence e = ud_input_sequence h \<and> en_first_fragment_metadata_seen e"
    and k: "k = unat (ud_tile_pkt_id h)" and nb: "\<not> bitmap_has (en_received_bitmap e) k"
    and w: "wr_range (en_compressed e) (k * unat (packet_payload_target config)) (packet_payload h packet) = Some c"
  shows "entry_from zbound config (insert packet P) (e\<lparr>en_compressed := c,
    en_received_bitmap := (en_received_bitmap e)[k div 64 := en_received_bitmap e ! (k div 64) OR push_bit (k mod 64) 1],
    en_received_count := n\<rparr>)" (is "entry_from _ _ _ ?e")
proof -
  let ?t = "unat (packet_payload_target config)"
  have k256: "k < 256" using k unat_u8_lt by simp
  have k0: "k = 0 \<longleftrightarrow> ud_tile_pkt_id h = 0" using k unat_eq_iff [of "ud_tile_pkt_id h" 0] by simp
  have bm: "bitmap_has (en_received_bitmap ?e) j \<longleftrightarrow> j = k \<or> bitmap_has (en_received_bitmap e) j" if "j < 256" for j
    using bitmap_set [OF _ k256 that] ok by (simp add: entry_ok_def)
  have new: "carries_fragment zbound config ?e k packet h"
    using a hd same first k k0 wr_range_same [OF w] by (auto simp: carries_fragment_def entry_of_header_def entry_key_def)
  have old: "carries_fragment zbound config ?e j p h'"
    if c: "carries_fragment zbound config e j p h'" and j: "j \<noteq> k" for j p h'
  proof -
    have r: "rd_range (en_compressed e) (j * ?t) (length (packet_payload h' p)) = Some (packet_payload h' p)"
      and a': "accept_packet zbound config p = Some (h', en_tile_width e, en_tile_height e)"
      using c by (auto simp: carries_fragment_def)
    have "j * ?t + length (packet_payload h' p) \<le> k * ?t \<or> k * ?t + length (packet_payload h packet) \<le> j * ?t"
      using j fragment_range(2) [OF a] fragment_range(2) [OF a'] by (intro fragments_apart) auto
    from wr_range_other [OF w this r] c show ?thesis
      by (auto simp: carries_fragment_def entry_of_header_def entry_key_def)
  qed
  have seen: "bitmap_has (en_received_bitmap ?e) 0 \<longrightarrow> en_first_fragment_metadata_seen e"
    using bm [of 0] f first k0 by (auto simp: entry_from_def)
  have "\<exists>p\<in>insert packet P. \<exists>h'. carries_fragment zbound config ?e j p h'"
    if j: "j < 256" "bitmap_has (en_received_bitmap ?e) j" for j
  proof (cases "j = k")
    case True
    then show ?thesis using new by blast
  next
    case False
    then have "bitmap_has (en_received_bitmap e) j" using bm j by blast
    then obtain p h' where "p \<in> P" "carries_fragment zbound config e j p h'" using f j(1) unfolding entry_from_def by blast
    then show ?thesis using old False by blast
  qed
  then show ?thesis using f seen unfolding entry_from_def by simp
qed

lemma same_tile_dims:
  assumes "entry_from zbound config P e" "entry_of_header h e" "wd_tile_dimensions_for_size_code (ud_tile_size h) = Some (tw, th)"
  shows "en_tile_width e = tw" "en_tile_height e = th" "en_tile_size e = ud_tile_size h" "en_tile_id e = ud_tile_id h"
proof -
  show s: "en_tile_size e = ud_tile_size h" "en_tile_id e = ud_tile_id h"
    using assms(2) by (simp_all add: entry_of_header_def entry_key_def unat_eq_iff)
  show "en_tile_width e = tw" "en_tile_height e = th" using assms(1,3) s by (simp_all add: entry_from_def)
qed

lemma store_fragment_ok:
  assumes f: "entry_from zbound config P e" and ok: "entry_ok e" and hd: "entry_of_header h e"
    and a: "accept_packet zbound config packet = Some (h, tw, th)"
  shows "\<exists>r e'. store_fragment h (packet_payload_target config) (packet_payload h packet) e = Some (r, e') \<and>
    entry_ok e' \<and> entry_from zbound config (insert packet P) e' \<and> entry_of_header h e' \<and>
    length (en_compressed e') = length (en_compressed e)"
proof -
  let ?conf = "ud_tile_pkt_id h = 0 \<and> en_first_fragment_metadata_seen e \<and> en_input_sequence e \<noteq> ud_input_sequence h"
  let ?diff = "en_packet_count e \<noteq> ucast (ud_tile_pkt_count h) \<or> en_compressed_size e \<noteq> ucast (ud_tile_payload_size h) \<or>
    en_compressed_payload e \<noteq> wd_udp_tile_packet_is_compressed (Some h)"
  let ?k = "unat (ud_tile_pkt_id h)" and ?t = "packet_payload_target config" and ?p = "packet_payload h packet"
  note dims = same_tile_dims [OF f hd accept_packetD(2) [OF a]]
  note rg = fragment_range [OF a]
  have f': "entry_from zbound config (insert packet P) e" using f by (rule entry_from_mono) blast
  note eq = store_fragment_eq [of h ?t ?p e]
  show ?thesis
  proof (cases ?conf)
    case True
    then show ?thesis unfolding eq if_P [OF True] using f' ok hd by blast
  next
    case nc: False
    note nf = entry_from_note_first [OF f nc] entry_from_note_first [OF f' nc]
    show ?thesis
    proof (cases ?diff)
      case True
      then show ?thesis unfolding eq if_not_P [OF nc] if_P [OF True] using nf(2) ok hd by auto
    next
      case nd: False
      have o: "length (en_received_bitmap e) = 4" "length (en_compressed e) = unat (ud_tile_payload_size h)"
        "unat (en_packet_count e) = unat (ud_tile_pkt_count h)"
        using ok nd by (auto simp: entry_ok_def)
      have k4: "?k div 64 < length (en_received_bitmap e)" using o(1) unat_u8_lt [of "ud_tile_pkt_id h"] by simp
      show ?thesis
      proof (cases "bitmap_has (en_received_bitmap e) ?k")
        case True
        then show ?thesis unfolding eq if_not_P [OF nc] if_not_P [OF nd] Let_def rg(1)
          using k4 rd_range_in [of "?k * unat ?t" "length ?p" "en_compressed e"] rg(3) o(2) nf(2) ok hd
          by (auto simp: bitmap_has_def)
      next
        case False
        obtain c where c: "wr_range (en_compressed e) (?k * unat ?t) ?p = Some c" using rg(3) o(2) by (simp add: wr_range_def)
        then have lc: "length c = length (en_compressed e)" by (rule length_wr_range)
        let ?e' = "(note_first h e)\<lparr>en_compressed := c, en_received_bitmap := (en_received_bitmap (note_first h e))
          [?k div 64 := en_received_bitmap (note_first h e) ! (?k div 64) OR push_bit (?k mod 64) 1],
          en_received_count := en_received_count (note_first h e) + 1\<rparr>"
        have s: "store_fragment h ?t ?p e = Some (Fragment_held, ?e')"
          unfolding eq if_not_P [OF nc] if_not_P [OF nd] Let_def rg(1) note_first_fields
          using k4 c False by (simp add: bitmap_has_def)
        have kl: "?k < unat (en_packet_count (note_first h e))" using o(3) accept_packetD(6) [OF a] by simp
        have "entry_ok ?e'" using ok kl False lc by (intro entry_ok_store) simp_all
        moreover have "entry_from zbound config (insert packet P) ?e'"
          by (rule entry_from_store [OF nf(1), where h = h])
            (use ok a dims hd nd False c in auto)
        ultimately show ?thesis unfolding s using hd lc by (auto simp: entry_of_header_def entry_key_def)
      qed
    qed
  qed
qed

section \<open>A complete entry\<close>

text \<open>Cutting a list into pieces of the same size and joining them gives the list back.\<close>

lemma concat_pieces: "concat (map (\<lambda>k. take t (drop (k * t) xs)) [0..<n]) = take (n * t) xs"
proof (induction n)
  case (Suc n)
  have "take (Suc n * t) xs = take (n * t) xs @ take t (drop (n * t) xs)"
    by (metis add.commute mult_Suc take_add)
  then show ?case using Suc by simp
qed simp

lemma all_bits_set:
  assumes "entry_ok e" "en_received_count e = en_packet_count e" "k < unat (en_packet_count e)"
  shows "bitmap_has (en_received_bitmap e) k"
proof -
  let ?S = "{k. k < 256 \<and> bitmap_has (en_received_bitmap e) k}"
  have "?S \<subseteq> {..<unat (en_packet_count e)}" "card ?S = unat (en_packet_count e)"
    using assms(1,2) by (auto simp: entry_ok_def)
  then have "?S = {..<unat (en_packet_count e)}" by (intro card_subset_eq) auto
  then show ?thesis using assms(3) by auto
qed

text \<open>
  What a completed tile is made of: one packet for each fragment, all of the same tile, content
  epoch and generation, whose payloads in order are the tile's bytes or decompress to them.
\<close>

definition made_of ::
    "(nat \<Rightarrow> nat) \<Rightarrow> (bytes \<Rightarrow> nat \<Rightarrow> bytes option) \<Rightarrow> tile_config \<Rightarrow> bytes set \<Rightarrow> completed_tile \<Rightarrow> bool" where
  "made_of zbound zdec config P c \<longleftrightarrow>
     (\<exists>pkts hs. length pkts = unat (cp_packet_count c) \<and> length hs = length pkts \<and> pkts \<noteq> [] \<and> set pkts \<subseteq> P \<and>
        (\<forall>k<length pkts. accept_packet zbound config (pkts ! k) = Some (hs ! k, cp_tile_width c, cp_tile_height c) \<and>
           ud_tile_id (hs ! k) = cp_tile_id c \<and> ud_tile_generation (hs ! k) = cp_generation c \<and>
           ud_content_epoch (hs ! k) = cp_content_epoch c \<and> unat (ud_tile_pkt_id (hs ! k)) = k) \<and>
        ud_input_sequence (hs ! 0) = cp_input_sequence c \<and>
        (let payload = concat (map2 packet_payload hs pkts); n = tile_bytes_of (cp_tile_width c) (cp_tile_height c) in
         if wd_udp_tile_packet_is_compressed (Some (hs ! 0)) then wd_zstd_decompress zdec payload n n = Some (cp_tile_bytes c)
         else cp_tile_bytes c = payload \<and> length payload = n))"

definition completed_from :: "process_env \<Rightarrow> reassembly_entry \<Rightarrow> bytes \<Rightarrow> completed_tile" where
  "completed_from env e pixels =
     \<lparr>cp_tile_id = en_tile_id e, cp_tile_width = en_tile_width e, cp_tile_height = en_tile_height e,
      cp_generation = en_generation e, cp_content_epoch = en_content_epoch e, cp_input_sequence = en_input_sequence e,
      cp_first_packet_ns = en_first_packet_ns e, cp_completed_timestamp_ns = pe_completed_ns env,
      cp_compressed_size = en_compressed_size e, cp_packet_count = en_packet_count e, cp_tile_bytes = pixels\<rparr>"

lemma full_entry_fragments:
  assumes ok: "entry_ok e" and f: "entry_from zbound config P e" and full: "en_received_count e = en_packet_count e"
  obtains p h where "\<And>k. k < unat (en_packet_count e) \<Longrightarrow> p k \<in> P \<and> carries_fragment zbound config e k (p k) (h k)"
proof -
  have "\<exists>q. fst q \<in> P \<and> carries_fragment zbound config e k (fst q) (snd q)" if k: "k < unat (en_packet_count e)" for k
  proof -
    have "k < 256" using k ok by (simp add: entry_ok_def)
    then obtain p h where "p \<in> P" "carries_fragment zbound config e k p h"
      using f all_bits_set [OF ok full k] unfolding entry_from_def by blast
    then show ?thesis by (intro exI [of _ "(p, h)"]) simp
  qed
  then obtain q where "\<And>k. k < unat (en_packet_count e) \<Longrightarrow> fst (q k) \<in> P \<and> carries_fragment zbound config e k (fst (q k)) (snd (q k))"
    by metis
  then show thesis by (rule that)
qed

lemma fragment_piece:
  assumes c: "carries_fragment zbound config e k p h" and ok: "entry_ok e"
  defines "t \<equiv> unat (packet_payload_target config)"
  shows "packet_payload h p = take t (drop (k * t) (en_compressed e))"
proof -
  have a: "accept_packet zbound config p = Some (h, en_tile_width e, en_tile_height e)" "unat (ud_tile_pkt_id h) = k"
    "en_compressed_size e = ucast (ud_tile_payload_size h)"
    "rd_range (en_compressed e) (k * t) (length (packet_payload h p)) = Some (packet_payload h p)"
    using c by (simp_all add: carries_fragment_def t_def)
  have l: "length (packet_payload h p) = min t (length (en_compressed e) - k * t)"
    using fragment_range(2) [OF a(1)] a(2,3) ok by (simp add: entry_ok_def t_def)
  have "packet_payload h p = take (length (packet_payload h p)) (drop (k * t) (en_compressed e))"
    using a(4) by (simp add: rd_range_def split: if_splits)
  also have "\<dots> = take t (drop (k * t) (en_compressed e))" unfolding l by (simp add: min_def)
  finally show ?thesis .
qed

lemma fragments_join:
  assumes ok: "entry_ok e" and f: "entry_from zbound config P e" and pos: "0 < unat (en_packet_count e)"
    and c: "\<And>k. k < unat (en_packet_count e) \<Longrightarrow> carries_fragment zbound config e k (p k) (h k)"
  shows "concat (map (\<lambda>k. packet_payload (h k) (p k)) [0..<unat (en_packet_count e)]) = en_compressed e"
proof -
  let ?n = "unat (en_packet_count e)" and ?t = "unat (packet_payload_target config)"
  have "accept_packet zbound config (p 0) = Some (h 0, en_tile_width e, en_tile_height e)"
    using c [OF pos] by (simp add: carries_fragment_def)
  then have t: "0 < ?t" by (rule accept_packetD(8))
  have "length (en_compressed e) \<le> ?n * ?t"
    using f ok ceil_div_le_iff [OF t, of "unat (en_compressed_size e)" ?n] by (simp add: entry_from_def entry_ok_def)
  moreover have "map (\<lambda>k. packet_payload (h k) (p k)) [0..<?n] = map (\<lambda>k. take ?t (drop (k * ?t) (en_compressed e))) [0..<?n]"
    using fragment_piece [OF c ok] by (intro map_cong) auto
  ultimately show ?thesis by (simp only: concat_pieces take_all)
qed

lemma complete_made_of:
  assumes ok: "entry_ok e" and f: "entry_from zbound config P e" and full: "en_received_count e = en_packet_count e"
    and px: "tile_pixels_of zdec (tile_bytes_of (en_tile_width e) (en_tile_height e)) e = Some pixels"
    and pos: "0 < unat (en_packet_count e)"
  shows "made_of zbound zdec config P (completed_from env e pixels)"
proof -
  let ?n = "unat (en_packet_count e)"
  obtain p h where ph: "\<And>k. k < ?n \<Longrightarrow> p k \<in> P \<and> carries_fragment zbound config e k (p k) (h k)"
    using full_entry_fragments [OF ok f full] by blast
  let ?pkts = "map p [0..<?n]" and ?hs = "map h [0..<?n]"
  have "map2 packet_payload ?hs ?pkts = map (\<lambda>k. packet_payload (h k) (p k)) [0..<?n]" by (simp add: map2_map_map)
  then have cc: "concat (map2 packet_payload ?hs ?pkts) = en_compressed e" using fragments_join [OF ok f pos] ph by simp
  have c: "accept_packet zbound config (p k) = Some (h k, en_tile_width e, en_tile_height e) \<and> ud_tile_id (h k) = en_tile_id e \<and>
      ud_tile_generation (h k) = en_generation e \<and> ud_content_epoch (h k) = en_content_epoch e \<and> unat (ud_tile_pkt_id (h k)) = k"
    if "k < ?n" for k
    using ph [OF that] by (simp add: carries_fragment_def entry_of_header_def entry_key_def unat_eq_iff)
  have c0: "en_compressed_payload e = wd_udp_tile_packet_is_compressed (Some (h 0))" "en_input_sequence e = ud_input_sequence (h 0)"
    using ph [OF pos] by (simp_all add: carries_fragment_def)
  have h0: "?hs ! 0 = h 0" using pos by simp
  have sel: "cp_tile_bytes (completed_from env e pixels) = pixels" "cp_tile_width (completed_from env e pixels) = en_tile_width e"
    "cp_tile_height (completed_from env e pixels) = en_tile_height e" "cp_packet_count (completed_from env e pixels) = en_packet_count e"
    "cp_tile_id (completed_from env e pixels) = en_tile_id e" "cp_generation (completed_from env e pixels) = en_generation e"
    "cp_content_epoch (completed_from env e pixels) = en_content_epoch e"
    "cp_input_sequence (completed_from env e pixels) = en_input_sequence e"
    by (simp_all add: completed_from_def)
  show ?thesis unfolding made_of_def sel
    by (intro exI [of _ ?pkts] exI [of _ ?hs] conjI)
      (use ph c c0 pos px in \<open>auto simp: h0 cc Let_def tile_pixels_of_def split: if_splits\<close>)
qed

section \<open>Every event keeps the invariant\<close>

definition run_inv :: "(nat \<Rightarrow> nat) \<Rightarrow> bytes set \<Rightarrow> reassembler \<times> client_tiles \<Rightarrow> bool" where
  "run_inv zbound P = (\<lambda>(ra, st). ra_inv ra \<and> (\<forall>e\<in>set (ra_active ra). entry_from zbound (ct_config st) P e))"

lemma run_inv_mono: "run_inv zbound P s \<Longrightarrow> P \<subseteq> Q \<Longrightarrow> run_inv zbound Q s"
  unfolding run_inv_def using entry_from_mono by (auto split: prod.splits)

lemma run_inv_fewer:
  assumes "run_inv zbound P (ra, st)" "ra_inv ra'" "set (ra_active ra') \<subseteq> set (ra_active ra)" "ct_config st' = ct_config st"
  shows "run_inv zbound P (ra', st')"
  using assms by (auto simp: run_inv_def)

lemma new_entry_run_inv:
  assumes inv: "run_inv zbound P (ra, st)" and a: "accept_packet zbound (ct_config st) packet = Some (h, tw, th)"
    and free: "\<forall>e\<in>set (ra_active ra). entry_key e \<noteq> header_key h"
  shows "\<exists>r ra' st'. new_entry h tw th now (ra, st) = Some (r, ra', st') \<and> run_inv zbound P (ra', st') \<and>
    ct_config st' = ct_config st \<and> (\<forall>i. r = Some i \<longrightarrow> i < length (ra_active ra') \<and> entry_of_header h (ra_active ra' ! i))"
proof -
  have "ra_inv ra" using inv by (simp add: run_inv_def)
  from new_entry_ok [OF this free, of tw th now st] obtain r ra' st' where
    n: "new_entry h tw th now (ra, st) = Some (r, ra', st')" "ra_inv ra'" "ct_config st' = ct_config st"
    and c: "case r of None \<Rightarrow> set (ra_active ra') \<subseteq> set (ra_active ra)
     | Some i \<Rightarrow> \<exists>seen es. ra_active ra' = es @ [start_entry h tw th now (blank_entry (ud_tile_size h) (ud_tile_id h) seen)] \<and>
         i = length es \<and> set es \<subseteq> set (ra_active ra)" by blast
  have "run_inv zbound P (ra', st') \<and> (\<forall>i. r = Some i \<longrightarrow> i < length (ra_active ra') \<and> entry_of_header h (ra_active ra' ! i))"
  proof (cases r)
    case None
    then show ?thesis using run_inv_fewer [OF inv n(2) _ n(3)] c by simp
  next
    case (Some i)
    then show ?thesis using c inv n entry_from_start [OF a, of P now] start_entry_fields [of h tw th now]
      by (fastforce simp: run_inv_def)
  qed
  then show ?thesis using n by blast
qed

lemma key_gone:
  assumes "ra_inv ra" "i < length (ra_active ra)" "entry_key (ra_active ra ! i) = k"
  shows "\<forall>e\<in>set (without i (ra_active ra)). entry_key e \<noteq> k"
proof
  fix e assume e: "e \<in> set (without i (ra_active ra))"
  have ok: "slots_ok (ra_slots ra) (ra_active ra)" using assms(1) by (simp add: ra_inv_def)
  obtain j where j: "j < length (ra_active ra)" "j \<noteq> i" "e = ra_active ra ! j"
  proof (cases "i = length (ra_active ra) - 1")
    case True
    then obtain m where "m < length (ra_active ra) - 1" "e = ra_active ra ! m"
      using e by (auto simp: without_def in_set_conv_nth nth_butlast)
    then show thesis using True that [of m] by simp
  next
    case False
    then obtain m where m: "m < length (ra_active ra) - 1" "e = (ra_active ra)[i := last (ra_active ra)] ! m"
      using e by (auto simp: without_def in_set_conv_nth nth_butlast)
    show thesis
    proof (cases "m = i")
      case True
      moreover have "last (ra_active ra) = ra_active ra ! (length (ra_active ra) - 1)" using assms(2) by (intro last_conv_nth) auto
      ultimately show thesis using m False assms(2) by (intro that [of "length (ra_active ra) - 1"]) auto
    next
      case other: False
      then show thesis using m that [of m] by simp
    qed
  qed
  then show "entry_key e \<noteq> k" using slots_ok_distinct [OF ok, of j i] assms(2,3) by auto
qed

lemma locate_entry_ok:
  assumes inv: "run_inv zbound P (ra, st)" and a: "accept_packet zbound (ct_config st) packet = Some (h, tw, th)"
  shows "\<exists>r ra' st'. locate_entry h tw th now (ra, st) = Some (r, ra', st') \<and> run_inv zbound P (ra', st') \<and>
    ct_config st' = ct_config st \<and> (\<forall>i. r = Some i \<longrightarrow> i < length (ra_active ra') \<and> entry_of_header h (ra_active ra' ! i))"
proof -
  have ri: "ra_inv ra" using inv by (simp add: run_inv_def)
  then have ok: "slots_ok (ra_slots ra) (ra_active ra)" by (simp add: ra_inv_def)
  note fi = find_entry_index_iff [OF ok, of "ud_tile_size h" "ud_tile_id h"]
  show ?thesis
  proof (cases "find_entry_index (ud_tile_size h) (ud_tile_id h) ra")
    case None
    then have "\<forall>e\<in>set (ra_active ra). entry_key e \<noteq> header_key h" using fi by (auto simp: in_set_conv_nth)
    then show ?thesis using new_entry_run_inv [OF inv a] None by (simp add: locate_entry_def)
  next
    case (Some i)
    then have i: "i < length (ra_active ra)" "entry_key (ra_active ra ! i) = header_key h" using fi by auto
    let ?e = "ra_active ra ! i" let ?same = "en_content_epoch ?e = ud_content_epoch h"
    note def = locate_entry_def [of h tw th now] Some i(1)
    consider (old) "?same \<and> ud_tile_generation h < en_generation ?e"
      | (stale) "\<not> (?same \<and> ud_tile_generation h < en_generation ?e)"
          "?same \<and> en_generation ?e = ud_tile_generation h \<and> is_stale now st ?e"
      | (other) "\<not> (?same \<and> ud_tile_generation h < en_generation ?e)" "\<not> ?same \<or> en_generation ?e \<noteq> ud_tile_generation h"
      | (found) "?same" "en_generation ?e = ud_tile_generation h" "\<not> is_stale now st ?e" by blast
    then show ?thesis
    proof cases
      case old
      then show ?thesis using inv by (simp add: def Let_def)
    next
      case stale
      from expire_ok [OF ri i(1), of st] obtain ra1 st1 where x: "expire_entry i (ra, st) = Some (ra1, st1)" "ra_inv ra1"
        "ra_active ra1 = without i (ra_active ra)" by blast
      note c = expire_config [OF x(1)]
      have inv1: "run_inv zbound P (ra1, st1)" using run_inv_fewer [OF inv x(2) _ c] x(3) set_without [OF i(1)] by simp
      have "locate_entry h tw th now (ra, st) = new_entry h tw th now (ra1, st1)" using stale x(1) by (simp add: def Let_def)
      then show ?thesis using new_entry_run_inv [OF inv1 _ _, of packet h tw th now] a c x(3) key_gone [OF ri i] by simp
    next
      case other
      obtain ra1 where x: "remove_entry i ra = Some ra1" "ra_inv ra1" "ra_active ra1 = without i (ra_active ra)"
        by (rule remove_entry_ok [OF ri i(1)])
      let ?st = "clear_entry_retx_inflight (en_tile_id ?e) (en_tile_size ?e) (en_generation ?e) st"
      have inv1: "run_inv zbound P (ra1, ?st)" using run_inv_fewer [OF inv x(2), of ?st] x(3) set_without [OF i(1)] by simp
      have "locate_entry h tw th now (ra, st) = new_entry h tw th now (ra1, ?st)" using other x(1) by (auto simp: def Let_def)
      then show ?thesis using new_entry_run_inv [OF inv1 _ _, of packet h tw th now] a x(3) key_gone [OF ri i] by simp
    next
      case found
      then have "locate_entry h tw th now (ra, st) = Some (Some i, ra, st)" by (simp add: def Let_def)
      then show ?thesis using inv i found by (auto simp: entry_of_header_def)
    qed
  qed
qed

lemma buffers_inv [simp]:
  "ra_inv (acquire_completed_tile_buffer ra) = ra_inv ra" "ra_inv (recycle_completed_tile_buffer ra) = ra_inv ra"
  "ra_active (acquire_completed_tile_buffer ra) = ra_active ra" "ra_active (recycle_completed_tile_buffer ra) = ra_active ra"
  by (simp_all add: ra_inv_def acquire_completed_tile_buffer_def recycle_completed_tile_buffer_def)

text \<open>A fragment that is kept agrees with its entry on the number of fragments.\<close>

lemma store_held_count:
  "store_fragment h t payload e = Some (Fragment_held, e') \<Longrightarrow> en_packet_count e' = ucast (ud_tile_pkt_count h)"
  by (auto simp: store_fragment_eq Let_def split: if_splits bind_splits)

lemma complete_entry_ok:
  assumes inv: "ra_inv ra" and i: "i < length (ra_active ra)"
  defines "e \<equiv> ra_active ra ! i"
  shows "\<exists>ra' st'. complete_entry zdec env n i (ra, st) =
      Some (map_option (completed_from env e) (tile_pixels_of zdec n e), ra', st') \<and>
    ra_inv ra' \<and> set (ra_active ra') \<subseteq> set (ra_active ra) \<and> ct_config st' = ct_config st"
proof (cases "tile_pixels_of zdec n e")
  case None
  let ?ra = "recycle_completed_tile_buffer (acquire_completed_tile_buffer ra)"
  obtain ra1 where "remove_entry i ?ra = Some ra1" "ra_inv ra1" "ra_active ra1 = without i (ra_active ra)"
    by (rule remove_entry_ok [of ?ra i]) (use inv i in auto)
  then show ?thesis using None i set_without [OF i] by (simp add: complete_entry_def e_def [symmetric])
next
  case (Some pixels)
  let ?ra = "acquire_completed_tile_buffer ra"
  obtain ra1 where "remove_entry i ?ra = Some ra1" "ra_inv ra1" "ra_active ra1 = without i (ra_active ra)"
    by (rule remove_entry_ok [of ?ra i]) (use inv i in auto)
  then show ?thesis using Some i set_without [OF i]
    by (simp add: complete_entry_def e_def [symmetric] completed_from_def Let_def)
qed

lemma ra_inv_update:
  assumes inv: "ra_inv ra" and i: "i < length (ra_active ra)" and e: "entry_ok e" "entry_key e = entry_key (ra_active ra ! i)"
    "length (en_compressed e) = length (en_compressed (ra_active ra ! i))"
  shows "ra_inv (ra\<lparr>ra_active := (ra_active ra)[i := e]\<rparr>)"
proof -
  note iv = inv [unfolded ra_inv_def]
  have "map (\<lambda>e. length (en_compressed e)) ((ra_active ra)[i := e]) = map (\<lambda>e. length (en_compressed e)) (ra_active ra)"
    using e(3) i by (simp add: map_update list_update_same_conv)
  moreover have "\<forall>x\<in>set ((ra_active ra)[i := e]). entry_ok x" using iv e(1) set_update_subset_insert by fastforce
  ultimately show ?thesis using iv slots_ok_update [of "ra_slots ra" "ra_active ra" i e] i e(2) by (simp add: ra_inv_def)
qed

lemma add_fragment_ok:
  assumes inv: "run_inv zbound P (ra, st)" and a: "accept_packet zbound (ct_config st) packet = Some (h, tw, th)"
    and i: "i < length (ra_active ra)" and hd: "entry_of_header h (ra_active ra ! i)"
  shows "\<exists>c ra' st'. add_fragment zdec env h tw th (packet_payload h packet) i (ra, st) = Some (c, ra', st') \<and>
    run_inv zbound (insert packet P) (ra', st') \<and> ct_config st' = ct_config st \<and>
    (\<forall>t. c = Some t \<longrightarrow> made_of zbound zdec (ct_config st) (insert packet P) t)"
proof -
  let ?e = "ra_active ra ! i" and ?t = "packet_payload_target (ct_config st)" and ?Q = "insert packet P"
  have e: "entry_ok ?e" "entry_from zbound (ct_config st) P ?e" and ri: "ra_inv ra"
    using inv i by (auto simp: run_inv_def ra_inv_def)
  from store_fragment_ok [OF e(2,1) hd a] obtain r e' where s: "store_fragment h ?t (packet_payload h packet) ?e = Some (r, e')"
    and e': "entry_ok e'" "entry_from zbound (ct_config st) ?Q e'" "entry_of_header h e'" "length (en_compressed e') = length (en_compressed ?e)"
    by blast
  let ?ra = "ra\<lparr>ra_active := (ra_active ra)[i := e']\<rparr>"
  have ri': "ra_inv ?ra" using ra_inv_update [OF ri i e'(1)] e'(3,4) hd by (simp add: entry_of_header_def)
  have inv': "run_inv zbound ?Q (?ra, st)"
    using run_inv_mono [OF inv, of ?Q] e'(2) ri' set_update_subset_insert [of "ra_active ra" i e'] by (auto simp: run_inv_def)
  have i': "i < length (ra_active ?ra)" "ra_active ?ra ! i = e'" using i by simp_all
  have def: "add_fragment zdec env h tw th (packet_payload h packet) i (ra, st) =
      (case r of Fragment_ignored \<Rightarrow> Some (None, ?ra, st)
       | Fragment_conflict \<Rightarrow> remove_entry i ?ra \<bind> (\<lambda>ra. Some (None, ra, queue_entry_repair e' st))
       | Fragment_held \<Rightarrow> if en_received_count e' \<noteq> en_packet_count e' then Some (None, ?ra, st)
           else complete_entry zdec env (tile_bytes_of tw th) i (?ra, st))"
    using i s by (simp add: add_fragment_def Let_def)
  consider (kept) "r = Fragment_ignored \<or> r = Fragment_held \<and> en_received_count e' \<noteq> en_packet_count e'" | (conflict) "r = Fragment_conflict"
    | (full) "r = Fragment_held" "en_received_count e' = en_packet_count e'" by (cases r) auto
  then show ?thesis
  proof cases
    case kept
    then show ?thesis using inv' unfolding def by auto
  next
    case conflict
    obtain ra1 where x: "remove_entry i ?ra = Some ra1" "ra_inv ra1" "ra_active ra1 = without i (ra_active ?ra)"
      by (rule remove_entry_ok [OF ri' i'(1)])
    then show ?thesis using conflict run_inv_fewer [OF inv' x(2)] set_without [OF i'(1)] unfolding def by simp
  next
    case full
    note d = same_tile_dims [OF e'(2,3) accept_packetD(2) [OF a]]
    have pos: "0 < unat (en_packet_count e')"
      using store_held_count [OF s [unfolded full(1)]] accept_packetD(5) [OF a] by simp
    from complete_entry_ok [OF ri' i'(1), of zdec env "tile_bytes_of tw th" st] obtain ra1 st1 where
      x: "complete_entry zdec env (tile_bytes_of tw th) i (?ra, st) =
        Some (map_option (completed_from env e') (tile_pixels_of zdec (tile_bytes_of tw th) e'), ra1, st1)"
      "ra_inv ra1" "set (ra_active ra1) \<subseteq> set (ra_active ?ra)" "ct_config st1 = ct_config st" unfolding i'(2) by blast
    then show ?thesis using full run_inv_fewer [OF inv' x(2,3,4)] complete_made_of [OF e'(1,2) full(2) _ pos, of zdec _ env] d
      unfolding def by auto
  qed
qed

lemma process_ok:
  assumes inv: "run_inv zbound P (ra, st)"
  shows "\<exists>c ra' st'. process_udp_packet zbound zdec env packet (ra, st) = Some (c, ra', st') \<and>
    run_inv zbound (insert packet P) (ra', st') \<and> ct_config st' = ct_config st \<and>
    (\<forall>t. c = Some t \<longrightarrow> made_of zbound zdec (ct_config st) (insert packet P) t)"
proof -
  have more: "run_inv zbound (insert packet P) s" if "run_inv zbound P s" for s using run_inv_mono [OF that] by blast
  show ?thesis
  proof (cases "accept_packet zbound (ct_config st) packet")
    case None
    then show ?thesis using more [OF inv] by (simp add: process_udp_packet_def)
  next
    case (Some r)
    then obtain h tw th where a: "accept_packet zbound (ct_config st) packet = Some (h, tw, th)" by (cases r) auto
    show ?thesis
    proof (cases "generation_wanted (ud_tile_id h) (ud_tile_size h) (ud_tile_generation h) st")
      case False
      then show ?thesis using more [OF inv] a by (simp add: process_udp_packet_def)
    next
      case True
      have "ra_inv ra" using inv by (simp add: run_inv_def)
      from configure_ok [OF this, of "ct_config st"] obtain ok ra1 where
        c: "configure_entry_slots (ct_config st) ra = Some (ok, ra1)" "ra_inv ra1" "ra_active ra1 = ra_active ra \<or> ra_active ra1 = []"
        by blast
      have inv1: "run_inv zbound P (ra1, st)" using run_inv_fewer [OF inv c(2) _ refl] c(3) by auto
      from locate_entry_ok [OF inv1 a, of "pe_now_ns env"] obtain f ra2 st2 where
        l: "locate_entry h tw th (pe_now_ns env) (ra1, st) = Some (f, ra2, st2)" "run_inv zbound P (ra2, st2)"
          "ct_config st2 = ct_config st" "\<And>i. f = Some i \<Longrightarrow> i < length (ra_active ra2) \<and> entry_of_header h (ra_active ra2 ! i)" by blast
      have def: "process_udp_packet zbound zdec env packet (ra, st) =
          (if \<not> ok then Some (None, ra1, st)
           else case f of None \<Rightarrow> Some (None, ra2, st2)
             | Some i \<Rightarrow> add_fragment zdec env h tw th (packet_payload h packet) i (ra2, st2))"
        unfolding process_udp_packet_def packet_payload_def using a True c(1) l(1) by simp
      show ?thesis
      proof (cases "\<not> ok \<or> f = None")
        case True
        then show ?thesis unfolding def using more [OF inv1] more [OF l(2)] l(3) by auto
      next
        case False
        then obtain i where i: ok "f = Some i" by auto
        show ?thesis unfolding def using i add_fragment_ok [OF l(2) _ l(4) [OF i(2), THEN conjunct1] l(4) [OF i(2), THEN conjunct2],
            of packet tw th zdec env] a l(3) by simp
      qed
    qed
  qed
qed

fun packet_of :: "reassembly_event \<Rightarrow> bytes set" where
  "packet_of (Udp_packet env packet) = {packet}"
| "packet_of ev = {}"

lemma step_ok:
  assumes inv: "run_inv zbound P s"
  shows "\<exists>c s'. reassembly_step zbound zdec ev s = Some (c, s') \<and> run_inv zbound (P \<union> packet_of ev) s'"
proof -
  obtain ra st where s: "s = (ra, st)" by force
  have ri: "ra_inv ra" using inv s by (simp add: run_inv_def)
  from reset_ok [OF ri] obtain ra0 where r0: "reset_reassembler ra = Some ra0" "ra_inv ra0" "ra_active ra0 = []" by blast
  show ?thesis
  proof (cases ev)
    case (Udp_packet env packet)
    then show ?thesis using process_ok [OF inv [unfolded s], of zdec env packet] s by auto
  next
    case (Expire now)
    from expire_loop_ok [OF ri, of now 0 st] obtain ra1 st1 where x: "expire_loop now 0 (ra, st) = Some (ra1, st1)" "ra_inv ra1"
      "set (ra_active ra1) \<subseteq> set (ra_active ra)" by blast
    then show ?thesis using run_inv_fewer [OF inv [unfolded s] x(2,3) expire_loop_config [OF x(1)]] s Expire
      by (simp add: expire_stale_entries_def)
  next
    case (Client_changes st')
    then show ?thesis using inv s by (auto simp: run_inv_def)
  qed (use r0 s in \<open>auto simp: run_inv_def\<close>)
qed

lemma run_ok:
  "run_inv zbound P s \<Longrightarrow>
   \<exists>cs s'. reassembly_run zbound zdec evs s = Some (cs, s') \<and> run_inv zbound (P \<union> (\<Union>ev\<in>set evs. packet_of ev)) s'"
proof (induction evs arbitrary: P s)
  case (Cons ev evs)
  from step_ok [OF Cons.prems] obtain c s1 where a: "reassembly_step zbound zdec ev s = Some (c, s1)" "run_inv zbound (P \<union> packet_of ev) s1"
    by blast
  from Cons.IH [OF a(2)] a(1) show ?case by (auto simp: Un_assoc)
qed simp

lemma start_inv: "run_inv zbound {} (TileReassembler m n, st)"
proof -
  have "slots_ok [[], [], [], []] []"
    by (rule slots_ok_empty) (auto simp: slot_in_def less_Suc_eq numeral_eq_Suc)
  then show ?thesis by (simp add: run_inv_def ra_inv_def TileReassembler_def)
qed

section \<open>The budget does not change\<close>

definition limits :: "reassembler \<Rightarrow> nat \<times> nat" where
  "limits ra = (ra_max_entries ra, ra_max_bytes ra)"

lemma limits_frame [simp]:
  "limits (ra\<lparr>ra_active := es\<rparr>) = limits ra" "limits (ra\<lparr>ra_slots := ss\<rparr>) = limits ra"
  "limits (ra\<lparr>ra_payload_bytes := n\<rparr>) = limits ra" "limits (ra\<lparr>ra_recycled := rs\<rparr>) = limits ra"
  "limits (ra\<lparr>ra_frame_width := w\<rparr>) = limits ra" "limits (ra\<lparr>ra_frame_height := h\<rparr>) = limits ra"
  "limits (recycle_entry e ra) = limits ra" "limits (acquire_completed_tile_buffer ra) = limits ra"
  "limits (recycle_completed_tile_buffer ra) = limits ra"
  by (simp_all add: limits_def acquire_completed_tile_buffer_def recycle_completed_tile_buffer_def)

lemma remove_limits: "remove_entry i ra = Some ra' \<Longrightarrow> limits ra' = limits ra"
  by (auto simp: remove_entry_def Let_def split: if_splits bind_splits)

lemma remove_all_limits: "remove_all_entries ra = Some ra' \<Longrightarrow> limits ra' = limits ra"
proof (induction ra rule: remove_all_entries.induct)
  case (1 ra)
  show ?case
  proof (cases "ra_active ra = []")
    case True
    then show ?thesis using "1.prems" by (subst (asm) remove_all_entries.simps) simp
  next
    case False
    then obtain ra1 where "remove_entry (length (ra_active ra) - 1) ra = Some ra1" "remove_all_entries ra1 = Some ra'"
      using "1.prems" by (subst (asm) remove_all_entries.simps) (auto split: option.splits)
    then show ?thesis using "1.IH" [OF False] remove_limits by metis
  qed
qed

lemma reset_limits: "reset_reassembler ra = Some ra' \<Longrightarrow> limits ra' = limits ra"
  using remove_all_limits by (auto simp: reset_reassembler_def split: bind_splits)

lemma configure_limits: "configure_entry_slots config ra = Some (ok, ra') \<Longrightarrow> limits ra' = limits ra"
  using remove_all_limits by (auto simp: configure_entry_slots_def split: if_splits option.splits bind_splits)

lemma activate_limits: "activate_entry sz tile ra = Some (i, ra') \<Longrightarrow> limits ra' = limits ra"
  by (auto simp: activate_entry_def Let_def split: if_splits prod.splits)

lemma expire_limits: "expire_entry i (ra, st) = Some (ra', st') \<Longrightarrow> limits ra' = limits ra"
  using remove_limits by (auto simp: expire_entry_def Let_def split: if_splits)

lemma evict_limits: "evict_entry_for_budget i (ra, st) = Some (ra', st') \<Longrightarrow> limits ra' = limits ra"
  using remove_limits by (auto simp: evict_entry_for_budget_def split: if_splits)

lemma budget_loop_limits: "budget_loop n (ra, st) = Some (ra', st') \<Longrightarrow> limits ra' = limits ra"
proof (induction n "(ra, st)" arbitrary: ra st rule: budget_loop.induct)
  case (1 n ra st)
  show ?case
  proof (cases "ra_active ra \<noteq> [] \<and> over_budget n ra")
    case True
    then obtain ra1 st1 where e: "evict_entry_for_budget (oldest_index (ra_active ra)) (ra, st) = Some (ra1, st1)"
      "budget_loop n (ra1, st1) = Some (ra', st')"
      using "1.prems" by (subst (asm) budget_loop.simps) (auto split: option.splits)
    from "1.hyps" [OF True e(1) refl e(2)] evict_limits [OF e(1)] show ?thesis by simp
  next
    case False
    then show ?thesis using "1.prems" by (subst (asm) budget_loop.simps) (auto split: if_splits)
  qed
qed

lemma expire_loop_limits: "expire_loop now i (ra, st) = Some (ra', st') \<Longrightarrow> limits ra' = limits ra"
proof (induction now i "(ra, st)" arbitrary: ra st rule: expire_loop.induct)
  case (1 now i ra st)
  consider (out) "\<not> i < length (ra_active ra)" | (stale) "i < length (ra_active ra)" "is_stale now st (ra_active ra ! i)"
    | (keep) "i < length (ra_active ra)" "\<not> is_stale now st (ra_active ra ! i)" by blast
  then show ?case
  proof cases
    case out
    then show ?thesis using "1.prems" by (subst (asm) expire_loop.simps) simp
  next
    case stale
    then obtain ra1 st1 where e: "expire_entry i (ra, st) = Some (ra1, st1)" "expire_loop now i (ra1, st1) = Some (ra', st')"
      using "1.prems" by (subst (asm) expire_loop.simps) (auto split: option.splits)
    from "1.hyps"(1) [OF stale e(1) refl e(2)] expire_limits [OF e(1)] show ?thesis by simp
  next
    case keep
    then have "expire_loop now (Suc i) (ra, st) = Some (ra', st')" using "1.prems" by (subst (asm) expire_loop.simps) simp
    from "1.hyps"(2) [OF keep this] show ?thesis .
  qed
qed

lemma ensure_budget_limits: "ensure_budget n (ra, st) = Some (ok, ra', st') \<Longrightarrow> limits ra' = limits ra"
  using budget_loop_limits by (auto simp: ensure_budget_def split: if_splits)

lemma new_entry_limits: "new_entry h tw th now (ra, st) = Some (r, ra', st') \<Longrightarrow> limits ra' = limits ra"
  using ensure_budget_limits activate_limits
  by (auto simp: new_entry_def Let_def split: bind_splits if_splits option.splits prod.splits)

lemma locate_limits: "locate_entry h tw th now (ra, st) = Some (r, ra', st') \<Longrightarrow> limits ra' = limits ra"
  using new_entry_limits remove_limits expire_limits
  by (auto simp: locate_entry_def Let_def split: bind_splits if_splits option.splits)

lemma complete_limits: "complete_entry zdec env n i (ra, st) = Some (c, ra', st') \<Longrightarrow> limits ra' = limits ra"
  by (auto simp: complete_entry_def Let_def dest!: remove_limits split: bind_splits option.splits)

lemma add_limits: "add_fragment zdec env h tw th payload i (ra, st) = Some (c, ra', st') \<Longrightarrow> limits ra' = limits ra"
  by (auto simp: add_fragment_def Let_def dest!: remove_limits complete_limits
      split: bind_splits fragment_result.splits if_splits)

lemma process_limits: "process_udp_packet zbound zdec env packet (ra, st) = Some (c, ra', st') \<Longrightarrow> limits ra' = limits ra"
  by (auto simp: process_udp_packet_def dest!: configure_limits locate_limits add_limits
      split: option.splits if_splits bind_splits)

lemma step_limits: "reassembly_step zbound zdec ev (ra, st) = Some (c, ra', st') \<Longrightarrow> limits ra' = limits ra"
  by (cases ev) (auto simp: expire_stale_entries_def dest: process_limits expire_loop_limits reset_limits)

lemma run_limits: "reassembly_run zbound zdec evs (ra, st) = Some (cs, ra', st') \<Longrightarrow> limits ra' = limits ra"
proof (induction evs arbitrary: ra st cs)
  case (Cons ev evs)
  then obtain c ra1 st1 cs1 where "reassembly_step zbound zdec ev (ra, st) = Some (c, ra1, st1)"
    "reassembly_run zbound zdec evs (ra1, st1) = Some (cs1, ra', st')" by (auto split: option.splits)
  then show ?case using Cons.IH step_limits by metis
qed simp

section \<open>The properties of a run\<close>


text \<open>The invariant after a run from a new reassembler, and the tile that the next packet completes.\<close>

lemma run_then_packet:
  assumes "reassembly_run zbound zdec evs (TileReassembler m n, st) = Some (cs, s)"
    and "process_udp_packet zbound zdec env packet s = Some (Some c, s')"
  shows "made_of zbound zdec (ct_config (snd s)) (insert packet (\<Union>ev\<in>set evs. packet_of ev)) c"
proof -
  from run_ok [OF start_inv [of zbound m n st], of zdec evs] assms(1)
  have "run_inv zbound (\<Union>ev\<in>set evs. packet_of ev) (fst s, snd s)" by auto
  from process_ok [OF this, of zdec env packet] assms(2) show ?thesis by auto
qed

end
