(* ===== verification/WD_Client_Tiles.thy ===== *)
theory WD_Client_Tiles
  imports WD_Reassembly_Run
begin

text \<open>
  What the client does with a completed tile: \<open>tile_upload_geometry\<close> and \<open>blit_tile_xrgb8888\<close> of
  \<open>src/src/client/client_receive.cpp\<close>. The framebuffer is a list of pixels; \<open>memcpy\<close> into it
  reads the tile's bytes as little-endian words. \<open>None\<close> is an access outside a block.
\<close>

record ClientDirtyRect =
  dr_x :: u16
  dr_y :: u16
  dr_w :: u16
  dr_h :: u16

definition tile_upload_geometry :: "tile_config \<Rightarrow> u16 \<Rightarrow> u16 \<Rightarrow> u16 \<Rightarrow> bytes \<Rightarrow> ClientDirtyRect option" where
  "tile_upload_geometry config tile tw th tbytes =
     (let tx = wd_tiles_for_width_with_tile (ucast (tc_width config)) tw;
          ty = wd_tiles_for_height_with_tile (ucast (tc_height config)) th;
          total = ucast tx * ucast ty :: u32
      in
      if tw = 0 \<or> th = 0 \<or> tx = 0 \<or> ty = 0 \<or> ucast tile \<ge> total then None
      else
        let dst_x = ucast (tile mod tx) * ucast tw :: u32;
            dst_y = ucast (tile div tx) * ucast th :: u32
        in
        if length tbytes < tile_bytes_of tw th \<or> dst_x \<ge> ucast (tc_width config) \<or> dst_y \<ge> ucast (tc_height config) then None
        else
          let r = \<lparr>dr_x = ucast dst_x, dr_y = ucast dst_y, dr_w = ucast (min (ucast tw) (ucast (tc_width config) - dst_x)),
                   dr_h = ucast (min (ucast th) (ucast (tc_height config) - dst_y))\<rparr>
          in if dr_w r \<noteq> 0 \<and> dr_h r \<noteq> 0 then Some r else None)"

definition pixel_row :: "bytes \<Rightarrow> u32 list" where
  "pixel_row src = map (\<lambda>j. field (4 * j) 4 src) [0 ..< length src div 4]"

fun blit_pixel_rows :: "tile_config \<Rightarrow> u16 \<Rightarrow> bytes \<Rightarrow> ClientDirtyRect \<Rightarrow> nat list \<Rightarrow> u32 list \<Rightarrow> u32 list option" where
  "blit_pixel_rows config tw tbytes r [] fb = Some fb"
| "blit_pixel_rows config tw tbytes r (y # ys) fb =
     (case rd_range tbytes (y * unat tw * 4) (unat (dr_w r) * 4) of
        None \<Rightarrow> None
      | Some src \<Rightarrow>
          (case wr_range fb ((unat (dr_y r) + y) * unat (tc_width config) + unat (dr_x r)) (pixel_row src) of
             None \<Rightarrow> None
           | Some fb \<Rightarrow> blit_pixel_rows config tw tbytes r ys fb))"

definition blit_tile_xrgb8888 :: "tile_config \<Rightarrow> u16 \<Rightarrow> bytes \<Rightarrow> ClientDirtyRect \<Rightarrow> u32 list \<Rightarrow> (bool \<times> u32 list) option" where
  "blit_tile_xrgb8888 config tw tbytes r fb =
     (if length fb < unat (tc_width config) * unat (tc_height config) then Some (False, fb)
      else map_option (Pair True) (blit_pixel_rows config tw tbytes r [0 ..< unat (dr_h r)] fb))"

section \<open>The rectangle of a tile\<close>

definition rect_in :: "tile_config \<Rightarrow> u16 \<Rightarrow> u16 \<Rightarrow> ClientDirtyRect \<Rightarrow> bool" where
  "rect_in config tw th r \<longleftrightarrow>
     0 < unat (dr_w r) \<and> 0 < unat (dr_h r) \<and> unat (dr_w r) \<le> unat tw \<and> unat (dr_h r) \<le> unat th \<and>
     unat (dr_x r) + unat (dr_w r) \<le> unat (tc_width config) \<and> unat (dr_y r) + unat (dr_h r) \<le> unat (tc_height config)"

text \<open>Along one axis: a tile index inside the grid starts inside the display.\<close>

lemma grid_start:
  assumes "tx = wd_tiles_for_width_with_tile (ucast W) tw" "tx \<noteq> 0" "unat k < unat tx"
  shows "unat k * unat tw < unat (W :: u16)" "0 < unat tw"
proof -
  have nz: "tw \<noteq> 0" "W \<noteq> 0" using assms(1,2) by (auto simp: wd_tiles_for_width_with_tile_def split: if_splits)
  then show t: "0 < unat tw" by (simp add: unat_gt_0)
  have "unat tx = (unat W + unat tw - 1) div unat tw"
    using unat_tiles_for_width [of "ucast W" tw] assms(1,3) by (auto split: if_splits)
  then show "unat k * unat tw < unat W" using less_ceil_div_iff [OF t, of "unat k" "unat W"] assms(3) by simp
qed

lemma axis_rect:
  assumes "unat k * unat tw < unat (W :: u16)" "0 < unat tw"
  defines "d \<equiv> ucast (k :: u16) * ucast (tw :: u16) :: u32"
  shows "unat d = unat k * unat tw" "d < ucast W"
    "unat (ucast d :: u16) = unat k * unat tw"
    "unat (ucast (min (ucast tw) (ucast W - d)) :: u16) = min (unat tw) (unat W - unat k * unat tw)"
proof -
  show d: "unat d = unat k * unat tw" unfolding d_def by (rule unat_mult_u16)
  show lt: "d < ucast W" using d assms(1) by (simp add: word_less_nat_alt)
  show "unat (ucast d :: u16) = unat k * unat tw"
    using d assms(1) unat_u16_lt [of W] by (subst unat_ucast_small) simp_all
  have s: "unat (ucast W - d) = unat W - unat k * unat tw" using lt d by (subst unat_sub_exact) (simp_all add: word_less_nat_alt)
  have m: "unat (min (ucast tw) (ucast W - d)) = min (unat tw) (unat W - unat k * unat tw)"
    using s by (simp add: min_def word_le_nat_alt)
  then show "unat (ucast (min (ucast tw) (ucast W - d)) :: u16) = min (unat tw) (unat W - unat k * unat tw)"
    using unat_u16_lt [of tw] by (subst unat_ucast_small) simp_all
qed

lemma min_fits: "(a :: nat) < n \<Longrightarrow> a + min t (n - a) \<le> n" by linarith

lemma upload_geometry_ok:
  assumes tx: "tx = wd_tiles_for_width_with_tile (ucast (tc_width config)) tw" "tx \<noteq> 0"
    and ty: "ty = wd_tiles_for_height_with_tile (ucast (tc_height config)) th" "ty \<noteq> 0"
    and id: "unat tile < unat tx * unat ty" and len: "length tbytes = tile_bytes_of tw th"
  shows "\<exists>r. tile_upload_geometry config tile tw th tbytes = Some r \<and> rect_in config tw th r \<and>
    unat (dr_x r) = unat tile mod unat tx * unat tw \<and> unat (dr_y r) = unat tile div unat tx * unat th"
proof -
  have p: "0 < unat tx" using tx(2) by (simp add: unat_gt_0)
  have kx: "unat (tile mod tx) < unat tx" using p by (simp add: unat_mod)
  have ky: "unat (tile div tx) < unat ty" using id p by (simp add: unat_div less_mult_imp_div_less mult.commute)
  note gx = grid_start [OF tx kx]
  note gy = grid_start [OF ty(1) [unfolded tiles_height_eq_width] ty(2) ky]
  note ax = axis_rect [OF gx] and ay = axis_rect [OF gy]
  have nz: "tw \<noteq> 0" "th \<noteq> 0" using gx(2) gy(2) by (auto simp: unat_gt_0)
  have tot: "\<not> ucast tile \<ge> (ucast tx * ucast ty :: u32)" using id by (simp add: word_le_nat_alt unat_mult_u16)
  let ?dx = "ucast (tile mod tx) * ucast tw :: u32" and ?dy = "ucast (tile div tx) * ucast th :: u32"
  let ?r = "\<lparr>dr_x = ucast ?dx, dr_y = ucast ?dy, dr_w = ucast (min (ucast tw) (ucast (tc_width config) - ?dx)),
    dr_h = ucast (min (ucast th) (ucast (tc_height config) - ?dy))\<rparr> :: ClientDirtyRect"
  have ri: "rect_in config tw th ?r" unfolding rect_in_def using ax(3,4) ay(3,4) gx gy by (simp add: min_fits)
  then have nw: "dr_w ?r \<noteq> 0" "dr_h ?r \<noteq> 0" by (auto simp: rect_in_def unat_gt_0)
  have "tile_upload_geometry config tile tw th tbytes = Some ?r"
    unfolding tile_upload_geometry_def tx(1) [symmetric] ty(1) [symmetric] Let_def
    using nz tx(2) ty(2) tot len ax(2) ay(2) nw by (simp add: not_le)
  then show ?thesis using ri ax(3) ay(3) by (simp add: unat_div unat_mod)
qed

section \<open>The copy into the framebuffer\<close>

definition tile_pixel :: "u16 \<Rightarrow> bytes \<Rightarrow> nat \<Rightarrow> nat \<Rightarrow> u32" where
  "tile_pixel tw tbytes x y = field (4 * (y * unat tw + x)) 4 tbytes"

lemma pixel_row_nth:
  assumes "rd_range tbytes (y * unat tw * 4) (w * 4) = Some src" "x < w"
  shows "length (pixel_row src) = w" "pixel_row src ! x = tile_pixel tw tbytes x y"
proof -
  have s: "src = take (w * 4) (drop (y * unat tw * 4) tbytes)" "length src = w * 4"
    using assms(1) by (auto simp: rd_range_def split: if_splits)
  show "length (pixel_row src) = w" using s(2) by (simp add: pixel_row_def)
  have "4 \<le> w * 4 - 4 * x" using assms(2) by simp
  then have "take 4 (drop (4 * x) src) = take 4 (drop (4 * (y * unat tw + x)) tbytes)"
    unfolding s(1) by (simp add: drop_take min_absorb1 algebra_simps)
  then show "pixel_row src ! x = tile_pixel tw tbytes x y"
    using s(2) assms(2) by (simp add: pixel_row_def tile_pixel_def field_def)
qed

lemma pixel_window:
  fixes W :: nat
  assumes "X < W" "x + w \<le> W"
  shows "y * W + x \<le> Y * W + X \<and> Y * W + X < y * W + x + w \<longleftrightarrow> Y = y \<and> x \<le> X \<and> X < x + w"
proof -
  consider "Y = y" | "Suc Y \<le> y" | "Suc y \<le> Y" by linarith
  then show ?thesis
  proof cases
    case 2
    then have "Suc Y * W \<le> y * W" by (rule mult_le_mono1)
    then show ?thesis using 2 assms by auto
  next
    case 3
    then have "Suc y * W \<le> Y * W" by (rule mult_le_mono1)
    then show ?thesis using 3 assms by auto
  qed auto
qed

definition in_rect :: "ClientDirtyRect \<Rightarrow> nat \<Rightarrow> nat \<Rightarrow> bool" where
  "in_rect r X Y \<longleftrightarrow>
     unat (dr_x r) \<le> X \<and> X < unat (dr_x r) + unat (dr_w r) \<and> unat (dr_y r) \<le> Y \<and> Y < unat (dr_y r) + unat (dr_h r)"

lemma blit_pixel_rows_ok:
  assumes r: "rect_in config tw th r" and len: "length tbytes = tile_bytes_of tw th"
  shows "\<lbrakk>unat (tc_width config) * unat (tc_height config) \<le> length fb; \<forall>y\<in>set ys. y < unat (dr_h r)\<rbrakk> \<Longrightarrow>
    \<exists>fb'. blit_pixel_rows config tw tbytes r ys fb = Some fb' \<and> length fb' = length fb \<and>
      (\<forall>X Y. X < unat (tc_width config) \<and> Y < unat (tc_height config) \<longrightarrow>
         fb' ! (Y * unat (tc_width config) + X) =
           (if in_rect r X Y \<and> Y - unat (dr_y r) \<in> set ys then tile_pixel tw tbytes (X - unat (dr_x r)) (Y - unat (dr_y r))
            else fb ! (Y * unat (tc_width config) + X)))"
proof (induction ys arbitrary: fb)
  case (Cons y ys)
  let ?W = "unat (tc_width config)" and ?H = "unat (tc_height config)"
  let ?x = "unat (dr_x r)" and ?y = "unat (dr_y r)" and ?w = "unat (dr_w r)"
  have y: "y < unat (dr_h r)" using Cons.prems(2) by simp
  note ri = r [unfolded rect_in_def]
  have "Suc y * unat tw \<le> unat th * unat tw" using y ri by (intro mult_le_mono1) linarith
  then have "y * unat tw * 4 + ?w * 4 \<le> length tbytes" using ri len by (simp add: algebra_simps)
  then obtain src where src: "rd_range tbytes (y * unat tw * 4) (?w * 4) = Some src" by (simp add: rd_range_def)
  have lr: "length (pixel_row src) = ?w" using pixel_row_nth(1) [OF src, of 0] ri by simp
  have "Suc (?y + y) * ?W \<le> ?H * ?W" using y ri by (intro mult_le_mono1) linarith
  then have "(?y + y) * ?W + ?x + ?w \<le> length fb" using ri Cons.prems(1) by (simp add: algebra_simps)
  then obtain fb1 where w: "wr_range fb ((?y + y) * ?W + ?x) (pixel_row src) = Some fb1" using lr by (simp add: wr_range_def)
  note l1 = length_wr_range [OF w]
  obtain fb' where fb': "blit_pixel_rows config tw tbytes r ys fb1 = Some fb'" "length fb' = length fb1"
    "\<And>X Y. \<lbrakk>X < ?W; Y < ?H\<rbrakk> \<Longrightarrow> fb' ! (Y * ?W + X) =
      (if in_rect r X Y \<and> Y - ?y \<in> set ys then tile_pixel tw tbytes (X - ?x) (Y - ?y) else fb1 ! (Y * ?W + X))"
    using Cons.IH [of fb1] Cons.prems l1 by auto
  have one: "fb1 ! (Y * ?W + X) = (if Y = ?y + y \<and> ?x \<le> X \<and> X < ?x + ?w then tile_pixel tw tbytes (X - ?x) y else fb ! (Y * ?W + X))"
    if "X < ?W" "Y < ?H" for X Y
  proof -
    have "Suc Y * ?W \<le> ?H * ?W" using that(2) by (intro mult_le_mono1) simp
    then have "Y * ?W + X < length fb" using that(1) Cons.prems(1) by (simp add: algebra_simps)
    from nth_wr_range [OF w this] show ?thesis
      using pixel_window [OF that(1), of ?x ?w "?y + y" Y] ri lr pixel_row_nth(2) [OF src, of "X - ?x"] by auto
  qed
  have "fb' ! (Y * ?W + X) = (if in_rect r X Y \<and> Y - ?y \<in> set (y # ys) then tile_pixel tw tbytes (X - ?x) (Y - ?y)
      else fb ! (Y * ?W + X))" if "X < ?W" "Y < ?H" for X Y
    unfolding fb'(3) [OF that] one [OF that] using y by (auto simp: in_rect_def)
  then show ?case using src w fb'(1,2) l1 by auto
qed simp

lemma blit_tile_ok:
  assumes "rect_in config tw th r" "length tbytes = tile_bytes_of tw th" "unat (tc_width config) * unat (tc_height config) \<le> length fb"
  shows "\<exists>fb'. blit_tile_xrgb8888 config tw tbytes r fb = Some (True, fb') \<and> length fb' = length fb \<and>
      (\<forall>X Y. X < unat (tc_width config) \<and> Y < unat (tc_height config) \<longrightarrow>
         fb' ! (Y * unat (tc_width config) + X) =
           (if in_rect r X Y then tile_pixel tw tbytes (X - unat (dr_x r)) (Y - unat (dr_y r))
            else fb ! (Y * unat (tc_width config) + X)))"
proof -
  have i: "in_rect r X Y \<and> Y - unat (dr_y r) \<in> set [0..<unat (dr_h r)] \<longleftrightarrow> in_rect r X Y" for X Y by (auto simp: in_rect_def)
  from blit_pixel_rows_ok [OF assms(1,2,3), of "[0..<unat (dr_h r)]", unfolded i] assms(3)
  show ?thesis by (auto simp: blit_tile_xrgb8888_def)
qed

section \<open>Completed tiles fit the display\<close>

lemma accepted_in_grid:
  assumes "accept_packet zbound config packet = Some (h, tw, th)"
  defines "tx \<equiv> wd_tiles_for_width_with_tile (ucast (tc_width config)) tw"
    and "ty \<equiv> wd_tiles_for_height_with_tile (ucast (tc_height config)) th"
  shows "tx \<noteq> 0" "ty \<noteq> 0" "unat (ud_tile_id h) < unat tx * unat ty"
  using assms(1) unfolding tx_def ty_def
  by (auto simp: accept_packet_def validate_tile_packet_header_def packet_header_validation_result_def Let_def
      word_le_nat_alt unat_mult_u16 split: bind_splits if_splits option.splits)

lemma made_of_wellformed:
  assumes "made_of zbound zdec config P c"
  defines "w \<equiv> cp_tile_width c" and "h \<equiv> cp_tile_height c"
  shows "(w, h) \<in> {(128, 64), (64, 64), (32, 32), (16, 16)}" "length (cp_tile_bytes c) = tile_bytes_of w h"
    "\<exists>r. tile_upload_geometry config (cp_tile_id c) w h (cp_tile_bytes c) = Some r \<and> rect_in config w h r"
proof -
  obtain pkts hs where m: "pkts \<noteq> []" "\<And>k. k < length pkts \<Longrightarrow> accept_packet zbound config (pkts ! k) = Some (hs ! k, w, h)"
      "\<And>k. k < length pkts \<Longrightarrow> ud_tile_id (hs ! k) = cp_tile_id c"
      "let payload = concat (map2 packet_payload hs pkts); n = tile_bytes_of w h in
         if wd_udp_tile_packet_is_compressed (Some (hs ! 0)) then wd_zstd_decompress zdec payload n n = Some (cp_tile_bytes c)
         else cp_tile_bytes c = payload \<and> length payload = n"
    using assms(1) unfolding made_of_def w_def h_def by blast
  have a: "accept_packet zbound config (pkts ! 0) = Some (hs ! 0, w, h)" "ud_tile_id (hs ! 0) = cp_tile_id c" using m(1,2,3) by auto
  show "(w, h) \<in> {(128, 64), (64, 64), (32, 32), (16, 16)}"
    using accept_packetD(2) [OF a(1)] by (auto simp: wd_tile_dimensions_for_size_code_def split: if_splits)
  show len: "length (cp_tile_bytes c) = tile_bytes_of w h"
    using m(4) by (auto simp: Let_def wd_zstd_decompress_def split: if_splits option.splits)
  note g = accepted_in_grid [OF a(1), unfolded a(2)]
  from upload_geometry_ok [OF refl g(1) refl g(2) g(3) len]
  show "\<exists>r. tile_upload_geometry config (cp_tile_id c) w h (cp_tile_bytes c) = Some r \<and> rect_in config w h r" by blast
qed

end
