(* ===== verification/WD_Tile_Delivery.thy ===== *)
theory WD_Tile_Delivery
  imports WD_Tile_Send WD_Client_Tiles
begin

text \<open>
  The two ends together: the datagrams that \<open>wd_stream_send_tile_payload_sized_locked\<close> of the server
  queues for a tile are what \<open>process_udp_packet\<close> of the client needs to rebuild it, in whatever
  order and however often the network delivers them.
\<close>

section \<open>The fragments of one tile\<close>

text \<open>Datagrams \<open>pk\<close> with headers \<open>hd\<close> that the client accepts as the \<open>n\<close> fragments of one tile.\<close>

definition fragment_family ::
    "(nat \<Rightarrow> nat) \<Rightarrow> tile_config \<Rightarrow> nat \<Rightarrow> u16 \<Rightarrow> u16 \<Rightarrow> (nat \<Rightarrow> bytes) \<Rightarrow> (nat \<Rightarrow> wd_udp_tile_packet_decoded) \<Rightarrow> bool" where
  "fragment_family zbound config n tw th pk hdr \<longleftrightarrow>
     0 < n \<and>
     (\<forall>k<n. accept_packet zbound config (pk k) = Some (hdr k, tw, th) \<and> unat (ud_tile_pkt_id (hdr k)) = k \<and>
        unat (ud_tile_pkt_count (hdr k)) = n \<and> ud_tile_id (hdr k) = ud_tile_id (hdr 0) \<and> ud_tile_size (hdr k) = ud_tile_size (hdr 0) \<and>
        ud_tile_generation (hdr k) = ud_tile_generation (hdr 0) \<and> ud_content_epoch (hdr k) = ud_content_epoch (hdr 0) \<and>
        ud_tile_payload_size (hdr k) = ud_tile_payload_size (hdr 0) \<and>
        wd_udp_tile_packet_is_compressed (Some (hdr k)) = wd_udp_tile_packet_is_compressed (Some (hdr 0)))"

text \<open>An entry that holds the fragments in \<open>D\<close>.\<close>

definition holds_fragments :: "nat \<Rightarrow> (nat \<Rightarrow> wd_udp_tile_packet_decoded) \<Rightarrow> u64 \<Rightarrow> nat set \<Rightarrow> reassembly_entry \<Rightarrow> bool" where
  "holds_fragments n hdr t0 D e \<longleftrightarrow>
     entry_of_header (hdr 0) e \<and> unat (en_packet_count e) = n \<and> en_compressed_size e = ucast (ud_tile_payload_size (hdr 0)) \<and>
     en_compressed_payload e = wd_udp_tile_packet_is_compressed (Some (hdr 0)) \<and> en_first_packet_ns e = t0 \<and>
     (\<forall>k<256. bitmap_has (en_received_bitmap e) k \<longleftrightarrow> k \<in> D) \<and>
     (en_first_fragment_metadata_seen e \<longrightarrow> en_input_sequence e = ud_input_sequence (hdr 0))"

lemma family_fact:
  assumes "fragment_family zbound config n tw th pk hdr" "k < n"
  shows "accept_packet zbound config (pk k) = Some (hdr k, tw, th)" "unat (ud_tile_pkt_id (hdr k)) = k"
    "unat (ud_tile_pkt_count (hdr k)) = n" "ud_tile_id (hdr k) = ud_tile_id (hdr 0)" "ud_tile_size (hdr k) = ud_tile_size (hdr 0)"
    "ud_tile_generation (hdr k) = ud_tile_generation (hdr 0)" "ud_content_epoch (hdr k) = ud_content_epoch (hdr 0)"
    "ud_tile_payload_size (hdr k) = ud_tile_payload_size (hdr 0)"
    "wd_udp_tile_packet_is_compressed (Some (hdr k)) = wd_udp_tile_packet_is_compressed (Some (hdr 0))"
  using assms unfolding fragment_family_def by blast+

lemma family_bounds:
  assumes "fragment_family zbound config n tw th pk hdr"
  shows "0 < n" "n \<le> 255"
proof -
  show "0 < n" using assms unfolding fragment_family_def by blast
  from family_fact(3) [OF assms this] show "n \<le> 255" using unat_u8_lt [of "ud_tile_pkt_count (hdr 0)"] by linarith
qed

lemma family_header:
  assumes "fragment_family zbound config n tw th pk hdr" "k < n"
  shows "entry_of_header (hdr k) e = entry_of_header (hdr 0) e"
  unfolding entry_of_header_def family_fact(4-7) [OF assms] ..

text \<open>Storing a fragment, new or repeated, adds it to those held.\<close>

lemma store_family_fragment:
  assumes fam: "fragment_family zbound config n tw th pk hdr" and k: "k < n"
    and e: "entry_ok e" "entry_from zbound config (pk ` {..<n}) e" "holds_fragments n hdr t0 D e"
  shows "\<exists>e'. store_fragment (hdr k) (packet_payload_target config) (packet_payload (hdr k) (pk k)) e = Some (Fragment_held, e') \<and>
    holds_fragments n hdr t0 (insert k D) e'"
proof -
  let ?h = "hdr k" and ?t = "packet_payload_target config" and ?p = "packet_payload (hdr k) (pk k)"
  have fk: "accept_packet zbound config (pk k) = Some (?h, tw, th)" "unat (ud_tile_pkt_id ?h) = k" "unat (ud_tile_pkt_count ?h) = n"
    "ud_tile_payload_size ?h = ud_tile_payload_size (hdr 0)"
    "wd_udp_tile_packet_is_compressed (Some ?h) = wd_udp_tile_packet_is_compressed (Some (hdr 0))"
    by (rule family_fact [OF fam k])+
  note H = e(3) [unfolded holds_fragments_def]
  have k0: "ud_tile_pkt_id ?h = 0 \<longleftrightarrow> k = 0" using fk(2) by (auto simp: unat_eq_zero)
  have nc: "\<not> (ud_tile_pkt_id ?h = 0 \<and> en_first_fragment_metadata_seen e \<and> en_input_sequence e \<noteq> ud_input_sequence ?h)"
    using H k0 by auto
  have nd: "\<not> (en_packet_count e \<noteq> ucast (ud_tile_pkt_count ?h) \<or> en_compressed_size e \<noteq> ucast (ud_tile_payload_size ?h) \<or>
    en_compressed_payload e \<noteq> wd_udp_tile_packet_is_compressed (Some ?h))"
    using H fk(3,4,5) by (auto simp: unat_eq_iff)
  have o: "length (en_received_bitmap e) = 4" "length (en_compressed e) = unat (ud_tile_payload_size ?h)"
    using e(1) nd by (auto simp: entry_ok_def)
  have k256: "k < 256" and k4: "k div 64 < length (en_received_bitmap e)" using k family_bounds(2) [OF fam] o(1) by auto
  note rg = fragment_range [OF fk(1), unfolded fk(2)]
  have nf: "holds_fragments n hdr t0 D (note_first ?h e)" using e(3) k0
    by (cases "k = 0") (auto simp: holds_fragments_def note_first_def entry_of_header_def entry_key_def)
  show ?thesis
  proof (cases "bitmap_has (en_received_bitmap e) k")
    case True
    then obtain j h where j: "j < n" "carries_fragment zbound config e k (pk j) h" using e(2) k256 unfolding entry_from_def by blast
    then have "h = hdr j" "unat (ud_tile_pkt_id h) = k" using family_fact(1) [OF fam j(1)] by (auto simp: carries_fragment_def)
    then have "j = k" using family_fact(2) [OF fam j(1)] by simp
    then have "rd_range (en_compressed e) (k * unat ?t) (length ?p) = Some ?p" using j(2) \<open>h = hdr j\<close> by (simp add: carries_fragment_def)
    moreover have "insert k D = D" using True H k256 by auto
    ultimately show ?thesis
      unfolding store_fragment_eq if_not_P [OF nc] if_not_P [OF nd] Let_def fk(2) rg(1) using True k4 nf by (auto simp: bitmap_has_def)
  next
    case False
    obtain c where c: "wr_range (en_compressed e) (k * unat ?t) ?p = Some c" using rg(3) o(2) by (simp add: wr_range_def)
    let ?e = "(note_first ?h e)\<lparr>en_compressed := c, en_received_bitmap :=
      (en_received_bitmap e)[k div 64 := en_received_bitmap e ! (k div 64) OR push_bit (k mod 64) 1],
      en_received_count := en_received_count e + 1\<rparr>"
    have "store_fragment ?h ?t ?p e = Some (Fragment_held, ?e)"
      unfolding store_fragment_eq if_not_P [OF nc] if_not_P [OF nd] Let_def fk(2) rg(1) using k4 c False by (simp add: bitmap_has_def)
    moreover have "holds_fragments n hdr t0 (insert k D) ?e"
      using nf bitmap_set [OF o(1) k256] by (auto simp: holds_fragments_def entry_of_header_def entry_key_def)
    ultimately show ?thesis by blast
  qed
qed

lemma full_iff:
  assumes "entry_ok e" "holds_fragments n hdr t0 D e" "D \<subseteq> {..<n}" "n \<le> 255"
  shows "en_received_count e = en_packet_count e \<longleftrightarrow> D = {..<n}"
proof -
  have "{k. k < 256 \<and> bitmap_has (en_received_bitmap e) k} = D" using assms by (auto simp: holds_fragments_def)
  then have "unat (en_received_count e) = card D" "unat (en_packet_count e) = n"
    using assms(1,2) by (simp_all add: entry_ok_def holds_fragments_def)
  then have "en_received_count e = en_packet_count e \<longleftrightarrow> card D = card {..<n}" by (simp add: unat_eq_iff)
  then show ?thesis using card_subset_eq [of "{..<n}" D] assms(3) by auto
qed

text \<open>The effect of a fragment on a reassembler that holds nothing but its tile.\<close>

lemma add_family_fragment:
  assumes fam: "fragment_family zbound config n tw th pk hdr" and k: "k < n"
    and inv: "run_inv zbound (pk ` {..<n}) (ra, st)" and config: "ct_config st = config"
    and act: "ra_active ra = [e]" and e: "holds_fragments n hdr t0 D e" and D: "D \<subseteq> {..<n}"
  obtains e' where "holds_fragments n hdr t0 (insert k D) e'" "entry_ok e'" "entry_from zbound config (pk ` {..<n}) e'"
    "run_inv zbound (pk ` {..<n}) (ra\<lparr>ra_active := [e']\<rparr>, st)"
    "insert k D \<noteq> {..<n} \<Longrightarrow>
      add_fragment zdec env (hdr k) tw th (packet_payload (hdr k) (pk k)) 0 (ra, st) = Some (None, ra\<lparr>ra_active := [e']\<rparr>, st)"
    "insert k D = {..<n} \<Longrightarrow> \<exists>s'.
      add_fragment zdec env (hdr k) tw th (packet_payload (hdr k) (pk k)) 0 (ra, st) =
        Some (map_option (completed_from env e') (tile_pixels_of zdec (tile_bytes_of tw th) e'), s')"
proof -
  let ?P = "pk ` {..<n}" and ?p = "packet_payload (hdr k) (pk k)"
  have iv: "entry_ok e" "entry_from zbound config ?P e" and ri: "ra_inv ra" using inv act config by (auto simp: run_inv_def ra_inv_def)
  obtain e' where s: "store_fragment (hdr k) (packet_payload_target config) ?p e = Some (Fragment_held, e')"
      "holds_fragments n hdr t0 (insert k D) e'"
    using store_family_fragment [OF fam k iv e] by blast
  have hd: "entry_of_header (hdr k) e" using family_header [OF fam k] e by (simp add: holds_fragments_def)
  have ins: "insert (pk k) ?P = ?P" using k by auto
  from store_fragment_ok [OF iv(2,1) hd family_fact(1) [OF fam k], unfolded ins] s(1)
  have e': "entry_ok e'" "entry_from zbound config ?P e'" "entry_of_header (hdr k) e'" "length (en_compressed e') = length (en_compressed e)"
    by auto
  have ri': "ra_inv (ra\<lparr>ra_active := [e']\<rparr>)"
    using ra_inv_update [OF ri _ e'(1), of 0] act e'(3,4) hd by (simp add: entry_of_header_def)
  have full: "en_received_count e' = en_packet_count e' \<longleftrightarrow> insert k D = {..<n}"
    using full_iff [OF e'(1) s(2)] D k family_bounds [OF fam] by simp
  have def: "add_fragment zdec env (hdr k) tw th ?p 0 (ra, st) =
      (if en_received_count e' \<noteq> en_packet_count e' then Some (None, ra\<lparr>ra_active := [e']\<rparr>, st)
       else complete_entry zdec env (tile_bytes_of tw th) 0 (ra\<lparr>ra_active := [e']\<rparr>, st))"
    using s(1) act config by (simp add: add_fragment_def Let_def)
  have comp: "\<exists>s'. complete_entry zdec env (tile_bytes_of tw th) 0 (ra\<lparr>ra_active := [e']\<rparr>, st) =
      Some (map_option (completed_from env e') (tile_pixels_of zdec (tile_bytes_of tw th) e'), s')"
    using complete_entry_ok [OF ri', of 0 zdec env "tile_bytes_of tw th" st] by auto
  have "run_inv zbound ?P (ra\<lparr>ra_active := [e']\<rparr>, st)" using ri' e'(2) config by (simp add: run_inv_def)
  then show thesis using that [OF s(2) e'(1,2)] full def comp by auto
qed

text \<open>The payloads of the fragments, joined.\<close>

definition family_payload :: "nat \<Rightarrow> (nat \<Rightarrow> bytes) \<Rightarrow> (nat \<Rightarrow> wd_udp_tile_packet_decoded) \<Rightarrow> bytes" where
  "family_payload n pk hdr = concat (map (\<lambda>k. packet_payload (hdr k) (pk k)) [0..<n])"

lemma full_entry_payload:
  assumes fam: "fragment_family zbound config n tw th pk hdr"
    and e: "entry_ok e" "entry_from zbound config (pk ` {..<n}) e" "holds_fragments n hdr t0 {..<n} e"
  shows "en_compressed e = family_payload n pk hdr" "en_input_sequence e = ud_input_sequence (hdr 0)"
    "en_tile_width e = tw" "en_tile_height e = th"
proof -
  have n: "unat (en_packet_count e) = n" and n255: "n \<le> 255" "0 < n"
    using e(3) family_bounds [OF fam] by (simp_all add: holds_fragments_def)
  have c: "carries_fragment zbound config e k (pk k) (hdr k)" if "k < unat (en_packet_count e)" for k
  proof -
    have k: "k < n" using that n by simp
    then have "bitmap_has (en_received_bitmap e) k" "k < 256" using e(3) n255 by (auto simp: holds_fragments_def)
    then obtain j h where j: "j < n" "carries_fragment zbound config e k (pk j) h" using e(2) unfolding entry_from_def by blast
    then have "h = hdr j" "unat (ud_tile_pkt_id h) = k" using family_fact(1) [OF fam j(1)] by (auto simp: carries_fragment_def)
    then have "j = k" using family_fact(2) [OF fam j(1)] by simp
    then show ?thesis using j(2) \<open>h = hdr j\<close> by simp
  qed
  show "en_compressed e = family_payload n pk hdr"
    using fragments_join [OF e(1,2) _ c] n n255(2) by (simp add: family_payload_def)
  have c0: "carries_fragment zbound config e 0 (pk 0) (hdr 0)" by (rule c) (use n n255(2) in simp)
  then show "en_input_sequence e = ud_input_sequence (hdr 0)" "en_tile_width e = tw" "en_tile_height e = th"
    using family_fact(1) [OF fam n255(2)] by (auto simp: carries_fragment_def)
qed

section \<open>Delivery\<close>

text \<open>The state between the first and the last fragment.\<close>

definition collecting ::
    "(nat \<Rightarrow> nat) \<Rightarrow> tile_config \<Rightarrow> nat \<Rightarrow> (nat \<Rightarrow> bytes) \<Rightarrow> (nat \<Rightarrow> wd_udp_tile_packet_decoded) \<Rightarrow> u64 \<Rightarrow> nat set \<Rightarrow>
     reassembler \<times> client_tiles \<Rightarrow> bool" where
  "collecting zbound config n pk hdr t0 D = (\<lambda>(ra, st).
     run_inv zbound (pk ` {..<n}) (ra, st) \<and> ct_config st = config \<and> ra_frame_width ra = tc_width config \<and>
     ra_frame_height ra = tc_height config \<and> tc_width config \<noteq> 0 \<and>
     generation_wanted (ud_tile_id (hdr 0)) (ud_tile_size (hdr 0)) (ud_tile_generation (hdr 0)) st \<and>
     D \<subseteq> {..<n} \<and> (\<exists>e. ra_active ra = [e] \<and> holds_fragments n hdr t0 D e))"

text \<open>A later fragment finds the entry: it is not stale within the shortest timeout.\<close>

lemma fresh_enough: "unat (now - en_first_packet_ns e) \<le> 150000000 \<Longrightarrow> \<not> is_stale now st e"
  using reassembly_timeout_bounds(1) [of st] by (auto simp: is_stale_def word_less_nat_alt)

lemma process_collecting:
  assumes fam: "fragment_family zbound config n tw th pk hdr" and k: "k < n"
    and col: "collecting zbound config n pk hdr t0 D (ra, st)" and now: "unat (pe_now_ns env - t0) \<le> 150000000"
  shows "process_udp_packet zbound zdec env (pk k) (ra, st) = add_fragment zdec env (hdr k) tw th (packet_payload (hdr k) (pk k)) 0 (ra, st)"
proof -
  note c = col [unfolded collecting_def, simplified]
  obtain e where e: "ra_active ra = [e]" "holds_fragments n hdr t0 D e" using c by blast
  note f = family_fact [OF fam k]
  have cfg: "ct_config st = config" using c by blast
  have slots: "configure_entry_slots config ra = Some (True, ra)" using c by (simp add: configure_entry_slots_def)
  have ok: "slots_ok (ra_slots ra) (ra_active ra)" using c by (simp add: run_inv_def ra_inv_def)
  have hd: "entry_of_header (hdr 0) e" "en_first_packet_ns e = t0" using e(2) by (simp_all add: holds_fragments_def)
  have find: "find_entry_index (ud_tile_size (hdr k)) (ud_tile_id (hdr k)) ra = Some 0"
    unfolding find_entry_index_iff [OF ok] f(4,5) using e(1) hd(1) by (simp add: entry_of_header_def)
  have "\<not> is_stale (pe_now_ns env) st e" using fresh_enough [of "pe_now_ns env" e st] now hd(2) by simp
  then have loc: "locate_entry (hdr k) tw th (pe_now_ns env) (ra, st) = Some (Some 0, ra, st)"
    using find e(1) hd(1) f(6,7) by (simp add: locate_entry_def entry_of_header_def Let_def)
  have "generation_wanted (ud_tile_id (hdr k)) (ud_tile_size (hdr k)) (ud_tile_generation (hdr k)) st"
    unfolding f(4,5,6) using c by blast
  then show ?thesis unfolding process_udp_packet_def packet_payload_def using f(1) cfg slots loc by simp
qed

text \<open>What the arrival of a tile notes does not touch the generations received.\<close>

lemma received_kept [simp]: "ct_received_generation (note_tile_arrival tile tile_size g now st) = ct_received_generation st"
proof -
  have one: "ct_received_generation (snd (note_base_arrival g now b s)) = ct_received_generation (snd s)" for b s
    by (simp add: note_base_arrival_def Let_def split: prod.splits)
  have f: "ct_received_generation (snd (fold (note_base_arrival g now) bs s)) = ct_received_generation (snd s)" for bs s
    by (rule fold_keeps [where f = "\<lambda>s. ct_received_generation (snd s)"]) (rule one)
  obtain r st' where "fold (note_base_arrival g now) (base_tiles_covered tile_size tile (ct_config st)) (0, st) = (r, st')" by force
  with f [of "base_tiles_covered tile_size tile (ct_config st)" "(0, st)"] show ?thesis by (simp add: note_tile_arrival_def)
qed

lemma wanted_kept [simp]:
  "generation_wanted tile tile_size g (note_tile_arrival tile' tile_size' g' now st) = generation_wanted tile tile_size g st"
  by (simp add: generation_wanted_def)

text \<open>An accepted tile has a slot in the tables of its display.\<close>

lemma new_slots_nth:
  "\<lbrakk>new_slots sizes config = Some slots; i < length sizes; wd_tile_dimensions_for_size_code (sizes ! i) = Some (tw, th)\<rbrakk> \<Longrightarrow>
   i < length slots \<and> length (slots ! i) = unat (ucast (wd_tiles_for_width_with_tile (ucast (tc_width config)) tw) *
     ucast (wd_tiles_for_height_with_tile (ucast (tc_height config)) th) :: u32)"
proof (induction sizes arbitrary: slots i)
  case (Cons sz sizes)
  then obtain tw' th' slots' where d: "wd_tile_dimensions_for_size_code sz = Some (tw', th')" "new_slots sizes config = Some slots'"
    "slots = replicate (unat (ucast (wd_tiles_for_width_with_tile (ucast (tc_width config)) tw') *
       ucast (wd_tiles_for_height_with_tile (ucast (tc_height config)) th') :: u32)) UINT32_MAX # slots'"
    by (auto simp: new_slots.simps Let_def split: option.splits if_splits)
  then show ?case using Cons.IH [OF d(2)] Cons.prems by (cases i) auto
qed simp

lemma accepted_slot:
  assumes a: "accept_packet zbound config packet = Some (h, tw, th)" and s: "new_slots [0, 1, 2, 3] config = Some slots"
  shows "slot_in slots (unat (ud_tile_size h), unat (ud_tile_id h))"
proof -
  have dims: "wd_tile_dimensions_for_size_code (ud_tile_size h) = Some (tw, th)" by (rule accept_packetD(2) [OF a])
  have id: "unat (ud_tile_id h) < unat (ucast (wd_tiles_for_width_with_tile (ucast (tc_width config)) tw) *
      ucast (wd_tiles_for_height_with_tile (ucast (tc_height config)) th) :: u32)"
    using a by (auto simp: accept_packet_def validate_tile_packet_header_def packet_header_validation_result_def Let_def
      word_less_nat_alt word_le_nat_alt split: bind_splits if_splits option.splits)
  have "ud_tile_size h = 0 \<or> ud_tile_size h = 1 \<or> ud_tile_size h = 2 \<or> ud_tile_size h = 3"
    using dims by (auto simp: wd_tile_dimensions_for_size_code_def split: if_splits)
  then have "unat (ud_tile_size h) < 4" "[0, 1, 2, 3 :: u8] ! unat (ud_tile_size h) = ud_tile_size h" by auto
  then show ?thesis using new_slots_nth [OF s, of "unat (ud_tile_size h)"] dims id by (simp add: slot_in_def)
qed

text \<open>The first fragment, whichever it is, opens the entry.\<close>

lemma process_first:
  assumes fam: "fragment_family zbound config n tw th pk hdr" and k: "k < n" and cfg: "ct_config st = config"
    and slots: "new_slots [0, 1, 2, 3] config \<noteq> None"
    and wanted: "generation_wanted (ud_tile_id (hdr 0)) (ud_tile_size (hdr 0)) (ud_tile_generation (hdr 0)) st"
    and fits: "unat (ud_tile_payload_size (hdr 0)) \<le> b"
  obtains s where "collecting zbound config n pk hdr (pe_now_ns env) {} s"
    "process_udp_packet zbound zdec env (pk k) (TileReassembler m b, st) =
       add_fragment zdec env (hdr k) tw th (packet_payload (hdr k) (pk k)) 0 s"
proof -
  note f = family_fact [OF fam k]
  obtain sl where sl: "new_slots [0, 1, 2, 3] config = Some sl" using slots by blast
  let ?ra = "(TileReassembler m b)\<lparr>ra_slots := sl, ra_frame_width := tc_width config, ra_frame_height := tc_height config\<rparr>"
  let ?h = "hdr k" and ?now = "pe_now_ns env"
  have "remove_all_entries (TileReassembler m b) = Some (TileReassembler m b)"
    by (subst remove_all_entries.simps) (simp add: TileReassembler_def)
  then have conf: "configure_entry_slots config (TileReassembler m b) = Some (True, ?ra)"
    using sl by (auto simp: configure_entry_slots_def TileReassembler_def)
  have inv: "run_inv zbound (pk ` {..<n}) (?ra, st)"
  proof -
    have "ra_inv (TileReassembler m b)" using start_inv [of zbound m b st] by (simp add: run_inv_def)
    from configure_ok [OF this, of config] conf show ?thesis by (auto simp: run_inv_def TileReassembler_def)
  qed
  have width: "tc_width config \<noteq> 0"
  proof -
    have "unat (ud_tile_id ?h) < length (sl ! unat (ud_tile_size ?h))" using accepted_slot [OF f(1) sl] by (simp add: slot_in_def)
    then have "wd_tiles_for_width_with_tile (ucast (tc_width config)) 128 \<noteq> 0"
      using sl by (auto simp: new_slots.simps wd_tile_dimensions_for_size_code_def Let_def split: if_splits)
    then show ?thesis by (auto simp: wd_tiles_for_width_with_tile_def)
  qed
  have act: "ra_active ?ra = []" by (simp add: TileReassembler_def)
  have "find_entry_index (ud_tile_size ?h) (ud_tile_id ?h) ?ra = None"
    using find_entry_index_iff [of ?ra "ud_tile_size ?h" "ud_tile_id ?h"] inv act
    by (cases "find_entry_index (ud_tile_size ?h) (ud_tile_id ?h) ?ra") (auto simp: run_inv_def ra_inv_def)
  then have loc: "locate_entry ?h tw th ?now (?ra, st) = new_entry ?h tw th ?now (?ra, st)" by (simp add: locate_entry_def)
  have bud: "ensure_budget (unat (ud_tile_payload_size ?h)) (?ra, st) = Some (True, ?ra, st)"
    unfolding f(8) using fits by (auto simp: ensure_budget_def budget_loop.simps TileReassembler_def max_def)
  let ?blank = "blank_entry (ud_tile_size ?h) (ud_tile_id ?h) False" and ?e = "start_entry ?h tw th ?now (blank_entry (ud_tile_size ?h) (ud_tile_id ?h) False)"
  obtain sl' where ac: "activate_entry (ud_tile_size ?h) (ud_tile_id ?h) ?ra = Some (0, ?ra\<lparr>ra_active := [?blank], ra_recycled := [], ra_slots := sl'\<rparr>)"
    using accepted_slot [OF f(1) sl] by (simp add: activate_entry_def slot_in_def TileReassembler_def Let_def)
  let ?st = "note_tile_arrival (ud_tile_id ?h) (ud_tile_size ?h) (ud_tile_generation ?h) ?now st"
  let ?ra1 = "?ra\<lparr>ra_active := [?e], ra_recycled := [], ra_slots := sl', ra_payload_bytes := length (en_compressed ?e)\<rparr>"
  have new: "locate_entry ?h tw th ?now (?ra, st) = Some (Some 0, ?ra1, ?st)"
    unfolding loc new_entry_def using bud ac by (simp add: Let_def TileReassembler_def)
  have inv1: "run_inv zbound (pk ` {..<n}) (?ra1, ?st)"
    using locate_entry_ok [OF inv, of "pk k" ?h tw th ?now] f(1) cfg new by auto
  have "holds_fragments n hdr ?now {} ?e"
    using f by (auto simp: holds_fragments_def start_entry_def blank_entry_def entry_of_header_def entry_key_def unat_eq_zero)
  then have col: "collecting zbound config n pk hdr ?now {} (?ra1, ?st)"
    using inv1 cfg wanted width by (simp add: collecting_def TileReassembler_def)
  have w: "generation_wanted (ud_tile_id ?h) (ud_tile_size ?h) (ud_tile_generation ?h) st" unfolding f(4-6) by (rule wanted)
  show thesis
    by (rule that [OF col]) (use f(1) w cfg conf new in \<open>simp add: process_udp_packet_def packet_payload_def\<close>)
qed

lemma run_append:
  "reassembly_run zbound zdec evs s = Some (cs, s') \<Longrightarrow>
   reassembly_run zbound zdec (evs @ evs') s = map_option (\<lambda>(cs', s''). (cs @ cs', s'')) (reassembly_run zbound zdec evs' s')"
proof (induction evs arbitrary: s cs)
  case (Cons ev evs)
  then obtain c s1 cs1 where "reassembly_step zbound zdec ev s = Some (c, s1)" "reassembly_run zbound zdec evs s1 = Some (cs1, s')"
    "cs = c # cs1" by (auto split: option.splits)
  then show ?case using Cons.IH [of s1 cs1] by (simp add: option.map_comp comp_def case_prod_beta)
qed (simp add: option.map_id)

abbreviation fragment_event :: "(nat \<Rightarrow> bytes) \<Rightarrow> process_env \<times> nat \<Rightarrow> reassembly_event" where
  "fragment_event pk q \<equiv> Udp_packet (fst q) (pk (snd q))"

text \<open>Until the last fragment arrives the tile stays incomplete.\<close>

lemma collecting_run:
  assumes fam: "fragment_family zbound config n tw th pk hdr"
  shows "\<lbrakk>collecting zbound config n pk hdr t0 D s; \<forall>q\<in>set qs. snd q < n \<and> unat (pe_now_ns (fst q) - t0) \<le> 150000000;
    D \<union> snd ` set qs \<noteq> {..<n}; D \<union> snd ` set qs \<subseteq> {..<n}\<rbrakk> \<Longrightarrow>
    \<exists>s'. reassembly_run zbound zdec (map (fragment_event pk) qs) s = Some (replicate (length qs) None, s') \<and>
      collecting zbound config n pk hdr t0 (D \<union> snd ` set qs) s'"
proof (induction qs arbitrary: D s)
  case (Cons q qs)
  obtain ra st where s: "s = (ra, st)" by force
  note col = Cons.prems(1) [unfolded s]
  note c = col [unfolded collecting_def, simplified]
  obtain e where e: "ra_active ra = [e]" "holds_fragments n hdr t0 D e" using c by blast
  have k: "snd q < n" and now: "unat (pe_now_ns (fst q) - t0) \<le> 150000000" using Cons.prems(2) by auto
  have part: "insert (snd q) D \<noteq> {..<n}" using Cons.prems(3,4) by auto
  obtain e' where x: "holds_fragments n hdr t0 (insert (snd q) D) e'"
      "run_inv zbound (pk ` {..<n}) (ra\<lparr>ra_active := [e']\<rparr>, st)"
      "add_fragment zdec (fst q) (hdr (snd q)) tw th (packet_payload (hdr (snd q)) (pk (snd q))) 0 (ra, st) =
         Some (None, ra\<lparr>ra_active := [e']\<rparr>, st)"
    by (rule add_family_fragment [OF fam k _ _ e, of st zdec "fst q"]) (use c part in blast)+
  let ?s = "(ra\<lparr>ra_active := [e']\<rparr>, st)"
  have step: "reassembly_step zbound zdec (fragment_event pk q) s = Some (None, ?s)"
    unfolding s using process_collecting [OF fam k col now, of zdec] x(3) by simp
  have "collecting zbound config n pk hdr t0 (insert (snd q) D) ?s" using c x(1,2) k by (simp add: collecting_def)
  moreover have "insert (snd q) D \<union> snd ` set qs = D \<union> snd ` set (q # qs)" by auto
  ultimately show ?case using Cons.IH [of "insert (snd q) D" ?s] Cons.prems step by auto
qed simp

text \<open>The bytes of a tile that its joined payload stands for.\<close>

definition payload_pixels :: "(bytes \<Rightarrow> nat \<Rightarrow> bytes option) \<Rightarrow> bool \<Rightarrow> nat \<Rightarrow> bytes \<Rightarrow> bytes \<Rightarrow> bool" where
  "payload_pixels zdec compressed n payload pixels \<longleftrightarrow>
     (if compressed then wd_zstd_decompress zdec payload n n = Some pixels else pixels = payload \<and> length payload = n)"

definition family_tile :: "process_env \<Rightarrow> u64 \<Rightarrow> nat \<Rightarrow> u16 \<Rightarrow> u16 \<Rightarrow> wd_udp_tile_packet_decoded \<Rightarrow> bytes \<Rightarrow> completed_tile" where
  "family_tile env t0 n tw th h pixels =
     \<lparr>cp_tile_id = ud_tile_id h, cp_tile_width = tw, cp_tile_height = th, cp_generation = ud_tile_generation h,
      cp_content_epoch = ud_content_epoch h, cp_input_sequence = ud_input_sequence h, cp_first_packet_ns = t0,
      cp_completed_timestamp_ns = pe_completed_ns env, cp_compressed_size = ucast (ud_tile_payload_size h),
      cp_packet_count = of_nat n, cp_tile_bytes = pixels\<rparr>"

lemma collecting_last:
  assumes fam: "fragment_family zbound config n tw th pk hdr" and k: "k < n"
    and col: "collecting zbound config n pk hdr t0 D s" and full: "insert k D = {..<n}"
    and px: "payload_pixels zdec (wd_udp_tile_packet_is_compressed (Some (hdr 0))) (tile_bytes_of tw th) (family_payload n pk hdr) pixels"
  shows "\<exists>s'. add_fragment zdec env (hdr k) tw th (packet_payload (hdr k) (pk k)) 0 s =
    Some (Some (family_tile env t0 n tw th (hdr 0) pixels), s')"
proof -
  obtain ra st where s: "s = (ra, st)" by force
  note c = col [unfolded s collecting_def, simplified]
  obtain e where e: "ra_active ra = [e]" "holds_fragments n hdr t0 D e" using c by blast
  obtain e' s' where x: "holds_fragments n hdr t0 (insert k D) e'" "entry_ok e'" "entry_from zbound config (pk ` {..<n}) e'"
      "add_fragment zdec env (hdr k) tw th (packet_payload (hdr k) (pk k)) 0 (ra, st) =
        Some (map_option (completed_from env e') (tile_pixels_of zdec (tile_bytes_of tw th) e'), s')"
    by (rule add_family_fragment [OF fam k _ _ e, of st zdec env]) (use c full in blast)+
  note p = full_entry_payload [OF fam x(2,3) x(1) [unfolded full]]
  note h = x(1) [unfolded holds_fragments_def entry_of_header_def]
  have "tile_pixels_of zdec (tile_bytes_of tw th) e' = Some pixels"
    using px p(1) h by (auto simp: tile_pixels_of_def payload_pixels_def split: if_splits)
  moreover have "en_tile_id e' = ud_tile_id (hdr 0)" using h by (simp add: entry_key_def unat_eq_iff)
  moreover have "en_packet_count e' = of_nat n" using h u8_word_of_unat [of "en_packet_count e'"] by simp
  ultimately show ?thesis unfolding s using x(4) p h by (auto simp: completed_from_def family_tile_def)
qed

text \<open>
  The tile is complete with the last of its fragments, and not before, in any order of
  arrival and with any repetitions of the fragments before it.
\<close>

lemma family_delivery:
  assumes fam: "fragment_family zbound config n tw th pk hdr" and cfg: "ct_config st = config"
    and slots: "new_slots [0, 1, 2, 3] config \<noteq> None"
    and wanted: "generation_wanted (ud_tile_id (hdr 0)) (ud_tile_size (hdr 0)) (ud_tile_generation (hdr 0)) st"
    and fits: "unat (ud_tile_payload_size (hdr 0)) \<le> b"
    and px: "payload_pixels zdec (wd_udp_tile_packet_is_compressed (Some (hdr 0))) (tile_bytes_of tw th) (family_payload n pk hdr) pixels"
    and qs: "snd ` set qs = {..<n} - {snd q}" "snd q < n"
    and time: "\<And>r. r \<in> set (qs @ [q]) \<Longrightarrow> unat (pe_now_ns (fst r) - t0) \<le> 150000000"
    and t0: "t0 = pe_now_ns (fst (hd (qs @ [q])))"
  shows "\<exists>s'. reassembly_run zbound zdec (map (fragment_event pk) (qs @ [q])) (TileReassembler m b, st) =
    Some (replicate (length qs) None @ [Some (family_tile (fst q) t0 n tw th (hdr 0) pixels)], s')"
proof (cases qs)
  case Nil
  then have full: "insert (snd q) {} = {..<n}" using qs by auto
  obtain s where s: "collecting zbound config n pk hdr (pe_now_ns (fst q)) {} s"
      "process_udp_packet zbound zdec (fst q) (pk (snd q)) (TileReassembler m b, st) =
       add_fragment zdec (fst q) (hdr (snd q)) tw th (packet_payload (hdr (snd q)) (pk (snd q))) 0 s"
    by (rule process_first [OF fam qs(2) cfg slots wanted fits])
  then show ?thesis using collecting_last [OF fam qs(2) s(1) full px, of "fst q"] Nil t0 by auto
next
  case (Cons r rs)
  have r: "snd r < n" and part: "snd ` set qs \<noteq> {..<n}" "snd ` set qs \<subseteq> {..<n}" using qs Cons by auto
  have t: "t0 = pe_now_ns (fst r)" using t0 Cons by simp
  obtain s where s: "collecting zbound config n pk hdr t0 {} s"
      "process_udp_packet zbound zdec (fst r) (pk (snd r)) (TileReassembler m b, st) =
       add_fragment zdec (fst r) (hdr (snd r)) tw th (packet_payload (hdr (snd r)) (pk (snd r))) 0 s"
    unfolding t by (rule process_first [OF fam r cfg slots wanted fits])
  obtain ra1 st1 where s1: "s = (ra1, st1)" by force
  have "process_udp_packet zbound zdec (fst r) (pk (snd r)) (TileReassembler m b, st) =
      process_udp_packet zbound zdec (fst r) (pk (snd r)) s"
    unfolding s(2) s1 by (rule process_collecting [symmetric, OF fam r s(1) [unfolded s1]]) (simp add: t)
  then have step: "reassembly_run zbound zdec (map (fragment_event pk) (qs @ [q])) (TileReassembler m b, st) =
      reassembly_run zbound zdec (map (fragment_event pk) (qs @ [q])) s" using Cons by simp
  have "\<forall>q\<in>set qs. snd q < n \<and> unat (pe_now_ns (fst q) - t0) \<le> 150000000" using part time by auto
  from collecting_run [OF fam s(1) this, of zdec] part obtain s2 where
    run: "reassembly_run zbound zdec (map (fragment_event pk) qs) s = Some (replicate (length qs) None, s2)"
      "collecting zbound config n pk hdr t0 (snd ` set qs) s2" by auto
  obtain ra2 st2 where s2: "s2 = (ra2, st2)" by force
  have full: "insert (snd q) (snd ` set qs) = {..<n}" using qs by auto
  have "process_udp_packet zbound zdec (fst q) (pk (snd q)) s2 =
      add_fragment zdec (fst q) (hdr (snd q)) tw th (packet_payload (hdr (snd q)) (pk (snd q))) 0 s2"
    unfolding s2 by (rule process_collecting [OF fam qs(2) run(2) [unfolded s2]]) (rule time, simp)
  with collecting_last [OF fam qs(2) run(2) full px, of "fst q"]
  obtain s3 where "reassembly_step zbound zdec (fragment_event pk q) s2 =
      Some (Some (family_tile (fst q) t0 n tw th (hdr 0) pixels), s3)" by auto
  then show ?thesis unfolding step using run_append [OF run(1), of "[fragment_event pk q]"] by simp
qed

section \<open>The fragments of the server\<close>

text \<open>A client whose configuration is the server's.\<close>

definition client_matches :: "tile_sender \<Rightarrow> tile_config \<Rightarrow> bool" where
  "client_matches sn config \<longleftrightarrow>
     tc_session_id config = sn_session_id sn \<and> tc_connection_token config = sn_connection_token sn \<and>
     ucast (tc_width config) = sn_display_width sn \<and> ucast (tc_height config) = sn_display_height sn \<and>
     packet_payload_target config = sender_target sn"

lemma fragment_accepted:
  assumes ready: "tile_ready allocated sn job buf" and match: "client_matches sn config"
    and code: "wd_tile_size_code_for_dimensions (tj_tile_width job) (tj_tile_height job) = Some tile_size"
    and size: "if tj_compressed job then unat (tj_payload_size job) \<le> zbound (tile_bytes_of (tj_tile_width job) (tj_tile_height job))
      else unat (tj_payload_size job) = tile_bytes_of (tj_tile_width job) (tj_tile_height job)"
  defines "t \<equiv> sender_target sn" and "n \<equiv> wd_tile_packet_count_for_payload (tj_payload_size job) (sender_target sn)"
  assumes ok: "udp_fields_ok (fragment_header sn job tile_size t n k)" and k: "k < unat n"
  shows "accept_packet zbound config (fragment_datagram sn job tile_size t n buf k) =
      Some (fragment_header sn job tile_size t n k, tj_tile_width job, tj_tile_height job)"
    "packet_payload (fragment_header sn job tile_size t n k) (fragment_datagram sn job tile_size t n buf k) =
      fragment_bytes (unat t) (unat (tj_payload_size job)) buf k"
proof -
  let ?h = "fragment_header sn job tile_size t n k" and ?sz = "unat (tj_payload_size job)"
  note r = ready [unfolded tile_ready_def Let_def]
  have nz: "n \<noteq> 0" "tj_payload_size job \<le> 65535" using r by (auto simp: n_def word_le_nat_alt)
  note c = packet_count_exact [OF nz [unfolded n_def], folded n_def t_def]
  have s: "?sz \<le> 65535" "?sz \<le> length buf" "unat n \<le> 255" using r by (auto simp: n_def)
  have ksz: "k * unat t < ?sz" using less_ceil_div_iff [OF c(1)] c(3) k by simp
  have lb: "length (fragment_bytes (unat t) ?sz buf k) = min (unat t) (?sz - k * unat t)"
    using s(2) ksz by (auto simp: fragment_bytes_def)
  have ps: "unat (ud_payload_size ?h) = min (unat t) (?sz - k * unat t)" unfolding fragment_fields using s(1) by simp
  have dec: "wd_udp_tile_packet_decode (fragment_datagram sn job tile_size t n buf k) = Some ?h"
    unfolding fragment_datagram_def by (rule decode_of_bytes [OF ok]) (simp_all add: lb ps)
  note hb = header_of_buffer(2) [OF ok fragment_header_normal]
  have len: "length (fragment_datagram sn job tile_size t n buf k) = unat (ud_header_size ?h) + unat (ud_payload_size ?h)"
    using hb lb ps by (simp add: fragment_datagram_def)
  have cnt: "unat (ud_tile_pkt_count ?h) = unat n" "unat (ud_tile_pkt_id ?h) = k" "unat (ud_tile_payload_size ?h) = ?sz"
    unfolding fragment_fields using s k by (simp_all add: unat_ucast_mod)
  have "unat (ucast (ud_tile_payload_size ?h) :: u32) \<noteq> 0" using cnt(3) c(2) by simp
  then have tot: "(ucast (ud_tile_payload_size ?h) :: u32) \<noteq> 0" by (metis unat_0)
  have lay: "wd_udp_tile_fragment_layout_valid (Some ?h) (length (fragment_datagram sn job tile_size t n buf k)) t
      (ucast (ud_tile_payload_size ?h))"
    unfolding fragment_layout_iff using c cnt len ps k tot by (auto simp: word_less_nat_alt unat_gt_0)
  have idn: "\<not> ud_tile_pkt_id ?h \<ge> ud_tile_pkt_count ?h" "ud_tile_pkt_count ?h \<noteq> 0" "ud_payload_size ?h \<noteq> 0" "ud_tile_payload_size ?h \<noteq> 0"
    using ok by (auto simp: udp_fields_ok_def)
  note m = match [unfolded client_matches_def]
  have tiles: "\<not> (wd_tiles_for_width_with_tile (ucast (tc_width config)) (tj_tile_width job) = 0 \<or>
      wd_tiles_for_height_with_tile (ucast (tc_height config)) (tj_tile_height job) = 0 \<or>
      ucast (tj_tile_id job) \<ge> (ucast (wd_tiles_for_width_with_tile (ucast (tc_width config)) (tj_tile_width job)) *
        ucast (wd_tiles_for_height_with_tile (ucast (tc_height config)) (tj_tile_height job)) :: u32) \<or>
      (ucast (wd_tiles_for_width_with_tile (ucast (tc_width config)) (tj_tile_width job)) *
        ucast (wd_tiles_for_height_with_tile (ucast (tc_height config)) (tj_tile_height job)) :: u32) > 65535)"
    using r m by (auto simp: word_le_nat_alt word_less_nat_alt unat_mult_u16)
  have "validate_tile_packet_header zbound ?h (length (fragment_datagram sn job tile_size t n buf k)) t config = TilePacket_Valid"
    unfolding validate_tile_packet_header_def packet_header_validation_result_def Let_def
    using m size size_code_dims [OF code] tiles idn lay cnt(3)
    by (cases "tj_compressed job") (simp_all add: fragment_fields not_less)
  then show "accept_packet zbound config (fragment_datagram sn job tile_size t n buf k) =
      Some (?h, tj_tile_width job, tj_tile_height job)"
    using dec size_code_dims [OF code] m by (simp add: accept_packet_def fragment_fields t_def)
  show "packet_payload ?h (fragment_datagram sn job tile_size t n buf k) = fragment_bytes (unat t) ?sz buf k"
    using hb by (simp add: packet_payload_def fragment_datagram_def)
qed

lemma server_family:
  assumes ready: "tile_ready allocated sn job buf" and match: "client_matches sn config"
    and code: "wd_tile_size_code_for_dimensions (tj_tile_width job) (tj_tile_height job) = Some tile_size"
    and size: "if tj_compressed job then unat (tj_payload_size job) \<le> zbound (tile_bytes_of (tj_tile_width job) (tj_tile_height job))
      else unat (tj_payload_size job) = tile_bytes_of (tj_tile_width job) (tj_tile_height job)"
  defines "t \<equiv> sender_target sn" and "n \<equiv> wd_tile_packet_count_for_payload (tj_payload_size job) (sender_target sn)"
  defines "pk \<equiv> fragment_datagram sn job tile_size t n buf" and "hdr \<equiv> fragment_header sn job tile_size t n"
  assumes ok: "\<And>k. k < unat n \<Longrightarrow> udp_fields_ok (hdr k)"
  shows "fragment_family zbound config (unat n) (tj_tile_width job) (tj_tile_height job) pk hdr"
    "family_payload (unat n) pk hdr = take (unat (tj_payload_size job)) buf"
proof -
  let ?sz = "unat (tj_payload_size job)"
  note r = ready [unfolded tile_ready_def Let_def]
  have nz: "n \<noteq> 0" "tj_payload_size job \<le> 65535" using r by (auto simp: n_def word_le_nat_alt)
  note c = packet_count_exact [OF nz [unfolded n_def], folded n_def t_def]
  have n255: "unat n \<le> 255" using r by (simp add: n_def)
  note fa = fragment_accepted [OF ready match code, where zbound = zbound, OF size, folded t_def n_def, folded pk_def hdr_def]
  have acc: "accept_packet zbound config (pk k) = Some (hdr k, tj_tile_width job, tj_tile_height job)"
    "packet_payload (hdr k) (pk k) = fragment_bytes (unat t) ?sz buf k" if "k < unat n" for k
    using fa [OF ok [OF that] that] by blast+
  show "fragment_family zbound config (unat n) (tj_tile_width job) (tj_tile_height job) pk hdr"
    unfolding fragment_family_def using acc(1) nz n255 by (auto simp: hdr_def fragment_fields unat_gt_0 unat_ucast_mod)
  have "fragment_bytes (unat t) ?sz buf k = take (unat t) (drop (k * unat t) (take ?sz buf))" for k
    by (simp add: fragment_bytes_def drop_take)
  then have "map (\<lambda>k. packet_payload (hdr k) (pk k)) [0..<unat n] = map (\<lambda>k. take (unat t) (drop (k * unat t) (take ?sz buf))) [0..<unat n]"
    using acc(2) by (intro map_cong) auto
  then have "family_payload (unat n) pk hdr = take (unat n * unat t) (take ?sz buf)"
    by (simp only: family_payload_def concat_pieces)
  moreover have "?sz \<le> unat n * unat t" using ceil_div_le_iff [OF c(1), of ?sz "unat n"] c(3) by simp
  ultimately show "family_payload (unat n) pk hdr = take ?sz buf" by simp
qed

text \<open>Fragments are told apart by their datagrams.\<close>

lemma family_inj:
  assumes "fragment_family zbound config n tw th pk hdr"
  shows "inj_on pk {..<n}"
proof (rule inj_onI)
  fix j k assume "j \<in> {..<n}" "k \<in> {..<n}" "pk j = pk k"
  then show "j = k" using family_fact(1,2) [OF assms, of j] family_fact(1,2) [OF assms, of k] by simp
qed

lemma family_arrivals:
  assumes fam: "fragment_family zbound config n tw th pk hdr"
    and rs: "snd ` set (rs @ [r]) = pk ` {..<n}" "snd r \<notin> snd ` set rs"
  defines "idx \<equiv> the_inv_into {..<n} pk"
  shows "map (\<lambda>(env, p). Udp_packet env p) (rs @ [r]) = map (fragment_event pk) (map (map_prod id idx) rs @ [map_prod id idx r])"
    "snd ` set (map (map_prod id idx) rs) = {..<n} - {snd (map_prod id idx r)}" "snd (map_prod id idx r) < n"
proof -
  note inj = family_inj [OF fam]
  have inv: "pk (idx p) = p" "idx p < n" if "p \<in> pk ` {..<n}" for p
    using f_the_inv_into_f [OF inj that] the_inv_into_into [OF inj that, of "{..<n}"] by (auto simp: idx_def)
  have mem: "snd x \<in> pk ` {..<n}" if "x \<in> set (rs @ [r])" for x using rs(1) that by blast
  show "snd (map_prod id idx r) < n" using inv(2) mem by simp
  show "map (\<lambda>(env, p). Udp_packet env p) (rs @ [r]) = map (fragment_event pk) (map (map_prod id idx) rs @ [map_prod id idx r])"
    using inv(1) mem by (auto simp: case_prod_beta)
  have img: "idx ` (snd ` set rs) = {..<n} - {idx (snd r)}"
  proof -
    have "idx ` pk ` {..<n} = {..<n}" using the_inv_into_f_f [OF inj] by (force simp: idx_def image_image)
    moreover have "inj_on idx (pk ` {..<n})" unfolding idx_def by (rule inj_on_the_inv_into [OF inj])
    moreover have "snd ` set rs = pk ` {..<n} - {snd r}" using Diff_insert_absorb [OF rs(2)] rs(1) [symmetric] by simp
    ultimately show ?thesis using inj_on_image_set_diff [of idx "pk ` {..<n}" "pk ` {..<n}" "{snd r}"] mem [of r] by simp
  qed
  then show "snd ` set (map (map_prod id idx) rs) = {..<n} - {snd (map_prod id idx r)}" by (simp add: image_image)
qed

section \<open>From the server to the client\<close>

text \<open>What the delivery of a sent tile gives, with the sender's facts spelled out.\<close>

lemma delivered_tile:
  assumes send: "wd_stream_send_tile_payload_sized_locked allocated async sn job = Some out"
      "to_ok out" "sr_all_packets_sent (to_result out)"
    and match: "client_matches sn (ct_config st)" and slots: "new_slots [0, 1, 2, 3] (ct_config st) \<noteq> None"
    and payload: "tj_payload job = Some buf" "unat (tj_payload_size job) \<le> b"
      "tj_compressed job \<longrightarrow> unat (tj_payload_size job) \<le> zbound (tile_bytes_of (tj_tile_width job) (tj_tile_height job))"
      "payload_pixels zdec (tj_compressed job) (tile_bytes_of (tj_tile_width job) (tj_tile_height job))
        (take (unat (tj_payload_size job)) buf) pixels"
    and wanted: "\<And>c. wd_tile_size_code_for_dimensions (tj_tile_width job) (tj_tile_height job) = Some c \<Longrightarrow>
      generation_wanted (tj_tile_id job) c (tj_generation job) st"
    and rs: "snd ` set (rs @ [r]) = set (to_datagrams out)" "snd r \<notin> snd ` set rs"
    and time: "\<And>x. x \<in> set (rs @ [r]) \<Longrightarrow> unat (pe_now_ns (fst x) - pe_now_ns (fst (hd (rs @ [r])))) \<le> 150000000"
  shows "\<exists>c s'. reassembly_run zbound zdec (map (\<lambda>(env, p). Udp_packet env p) (rs @ [r])) (TileReassembler m b, st) =
      Some (replicate (length rs) None @ [Some c], s') \<and>
    cp_tile_id c = tj_tile_id job \<and> cp_tile_width c = tj_tile_width job \<and> cp_tile_height c = tj_tile_height job \<and>
    cp_generation c = tj_generation job \<and> cp_content_epoch c = sn_content_epoch sn \<and>
    cp_input_sequence c = tj_input_sequence job \<and> cp_tile_bytes c = pixels"
proof -
  let ?t = "sender_target sn" and ?n = "wd_tile_packet_count_for_payload (tj_payload_size job) (sender_target sn)"
  let ?N = "tile_bytes_of (tj_tile_width job) (tj_tile_height job)"
  obtain buf' c where x: "tile_ready allocated sn job buf'"
      "wd_tile_size_code_for_dimensions (tj_tile_width job) (tj_tile_height job) = Some c"
      "to_datagrams out = map (fragment_datagram sn job c ?t ?n buf') [0 ..< unat ?n]"
      "\<And>k. k < unat ?n \<Longrightarrow> udp_fields_ok (fragment_header sn job c ?t ?n k)"
    by (rule send_all [OF send]) (rule that; blast)
  have buf: "buf' = buf" "unat (tj_payload_size job) \<le> length buf" "unat (tj_payload_size job) \<le> 65535"
    using x(1) payload(1) by (auto simp: tile_ready_def Let_def)
  let ?pk = "fragment_datagram sn job c ?t ?n buf" and ?hdr = "fragment_header sn job c ?t ?n"
  have size: "if tj_compressed job then unat (tj_payload_size job) \<le> zbound ?N else unat (tj_payload_size job) = ?N"
    using payload(3,4) buf(2) by (auto simp: payload_pixels_def)
  note fam = server_family [OF x(1) match x(2), where zbound = zbound, OF size x(4), unfolded buf(1)]
  have dg: "set (to_datagrams out) = ?pk ` {..<unat ?n}" using x(3) buf(1) by (auto simp: lessThan_atLeast0)
  let ?f = "map_prod id (the_inv_into {..<unat ?n} ?pk)"
  note ar = family_arrivals [OF fam(1) rs(1) [unfolded dg] rs(2)]
  have h: "hd (map ?f rs @ [?f r]) = ?f (hd (rs @ [r]))" by (cases rs) simp_all
  have sz: "unat (ud_tile_payload_size (?hdr 0)) \<le> b" unfolding fragment_fields using payload(2) buf(3) by (simp add: unat_ucast_mod)
  have "\<exists>s'. reassembly_run zbound zdec (map (fragment_event ?pk) (map ?f rs @ [?f r])) (TileReassembler m b, st) =
      Some (replicate (length (map ?f rs)) None @
        [Some (family_tile (fst (?f r)) (pe_now_ns (fst (hd (rs @ [r])))) (unat ?n) (tj_tile_width job) (tj_tile_height job) (?hdr 0) pixels)], s')"
  proof (rule family_delivery [OF fam(1) refl slots _ sz _ ar(2,3)])
    show "generation_wanted (ud_tile_id (?hdr 0)) (ud_tile_size (?hdr 0)) (ud_tile_generation (?hdr 0)) st"
      unfolding fragment_fields by (rule wanted [OF x(2)])
    show "payload_pixels zdec (wd_udp_tile_packet_is_compressed (Some (?hdr 0))) ?N (family_payload (unat ?n) ?pk ?hdr) pixels"
      using payload(4) unfolding fragment_fields by (simp only: fam(2))
    show "unat (pe_now_ns (fst y) - pe_now_ns (fst (hd (rs @ [r])))) \<le> 150000000" if y: "y \<in> set (map ?f rs @ [?f r])" for y
    proof -
      have "y \<in> ?f ` set (rs @ [r])" using y by simp
      then obtain z where "y = ?f z" "z \<in> set (rs @ [r])" by (rule imageE)
      then show ?thesis using time [of z] by simp
    qed
    show "pe_now_ns (fst (hd (rs @ [r]))) = pe_now_ns (fst (hd (map ?f rs @ [?f r])))" unfolding h by simp
  qed
  then obtain s' where run: "reassembly_run zbound zdec (map (\<lambda>(env, p). Udp_packet env p) (rs @ [r])) (TileReassembler m b, st) =
      Some (replicate (length rs) None @
        [Some (family_tile (fst (?f r)) (pe_now_ns (fst (hd (rs @ [r])))) (unat ?n) (tj_tile_width job) (tj_tile_height job) (?hdr 0) pixels)], s')"
    by (simp only: ar(1) length_map) blast
  show ?thesis by (intro exI conjI, rule run) (simp_all add: family_tile_def fragment_fields)
qed

text \<open>
  C1: A tile that the server sends whole reaches the client. Its datagrams, which the network may
  deliver in any order and repeat, complete the tile exactly when the last one that was missing
  arrives, if it arrives within 150 milliseconds of the first: until then no packet
  completes anything, and the completed tile has the identity, the generation, the content epoch and
  the input sequence that the server gave it and the bytes that its payload stands for. The client
  is a new reassembler for the server's display and wants this generation of the tile.
\<close>

theorem sent_tile_reassembles:
  assumes "wd_stream_send_tile_payload_sized_locked allocated async sn job = Some out"
      "to_ok out" "sr_all_packets_sent (to_result out)"
    and "client_matches sn (ct_config st)" "new_slots [0, 1, 2, 3] (ct_config st) \<noteq> None"
    and "tj_payload job = Some buf" "unat (tj_payload_size job) \<le> b"
      "tj_compressed job \<longrightarrow> unat (tj_payload_size job) \<le> zbound (tile_bytes_of (tj_tile_width job) (tj_tile_height job))"
      "payload_pixels zdec (tj_compressed job) (tile_bytes_of (tj_tile_width job) (tj_tile_height job))
        (take (unat (tj_payload_size job)) buf) pixels"
    and "\<And>c. wd_tile_size_code_for_dimensions (tj_tile_width job) (tj_tile_height job) = Some c \<Longrightarrow>
      generation_wanted (tj_tile_id job) c (tj_generation job) st"
    and "snd ` set (rs @ [r]) = set (to_datagrams out)" "snd r \<notin> snd ` set rs"
    and "\<And>x. x \<in> set (rs @ [r]) \<Longrightarrow> unat (pe_now_ns (fst x) - pe_now_ns (fst (hd (rs @ [r])))) \<le> 150000000"
  shows "\<exists>c s'. reassembly_run zbound zdec (map (\<lambda>(env, p). Udp_packet env p) (rs @ [r])) (TileReassembler m b, st) =
      Some (replicate (length rs) None @ [Some c], s') \<and>
    cp_tile_id c = tj_tile_id job \<and> cp_tile_width c = tj_tile_width job \<and> cp_tile_height c = tj_tile_height job \<and>
    cp_generation c = tj_generation job \<and> cp_content_epoch c = sn_content_epoch sn \<and>
    cp_input_sequence c = tj_input_sequence job \<and> cp_tile_bytes c = pixels"
  using assms by (rule delivered_tile)

text \<open>
  A display of one tile of 16 by 16 pixels, sent raw in two datagrams of 512 bytes, the second of
  which arrives first and twice.
\<close>

definition demo_sender :: tile_sender where
  "demo_sender =
     \<lparr>sn_display_width = 16, sn_display_height = 16, sn_tile_width = 16, sn_tile_height = 16, sn_tiles_x = 1, sn_tiles_y = 1,
      sn_total_tiles = 1, sn_client_connected = True, sn_session_id = 1, sn_connection_token = 7, sn_content_epoch = 3,
      sn_udp_payload_target = 512, sn_input_correlation_inflight_sequence = 0\<rparr>"

definition demo_job :: tile_job where
  "demo_job =
     \<lparr>tj_tile_id = 0, tj_tile_width = 16, tj_tile_height = 16, tj_generation = 1, tj_input_sequence = 5,
      tj_payload = Some (replicate 1024 7), tj_payload_size = 1024, tj_compressed = False\<rparr>"

definition demo_client :: client_tiles where
  "demo_client =
     \<lparr>ct_config = \<lparr>tc_session_id = 1, tc_connection_token = 7, tc_width = 16, tc_height = 16, tc_tile_width = 16, tc_tile_height = 16,
        tc_tiles_x = 1, tc_tiles_y = 1, tc_total_tiles = 1, tc_udp_payload_target = 512\<rparr>,
      ct_received_generation = [0], ct_retx_queue = [], ct_retx_queued_generation = [0], ct_retx_last_requested_generation = [0],
      ct_retx_last_request_ns = [0], ct_retx_inflight_generation = [0], ct_retx_inflight_since_ns = [0],
      ct_retx_inflight_grace_ns = 0, ct_reassembly_floor_ns = 0, ct_reassembly_timeout_ns = 0\<rparr>"

definition demo_env :: "u64 \<Rightarrow> process_env" where
  "demo_env now = \<lparr>pe_now_ns = now, pe_completed_ns = now, pe_jittered_ns = 0\<rparr>"

abbreviation demo_sent :: "tile_sent option" where
  "demo_sent \<equiv> wd_stream_send_tile_payload_sized_locked True (\<lambda>_. UDP_SEND_QUEUED) demo_sender demo_job"

lemma demo_target: "sender_target demo_sender = 512"
  by (simp add: sender_target_def demo_sender_def wd_tile_normalize_udp_payload_target_def)

lemma demo_count: "wd_tile_packet_count_for_payload (tj_payload_size demo_job) (sender_target demo_sender) = 2"
  by (simp add: demo_target demo_job_def wd_tile_packet_count_for_payload_def)

lemma demo_grid: "wd_tiles_for_width_with_tile 16 16 = 1" "wd_tiles_for_height_with_tile 16 16 = 1"
  by (simp_all add: wd_tiles_for_width_with_tile_def wd_tiles_for_height_with_tile_def)

lemma demo_rect:
  "wd_tile_start_x_for_tile 0 1 16 = 0" "wd_tile_start_y_for_tile 0 1 16 = 0"
  "wd_tile_visible_width_for_tile 16 0 1 16 = 16" "wd_tile_visible_height_for_tile 16 0 1 16 = 16"
  by (simp_all add: wd_tile_start_x_for_tile_def wd_tile_start_y_for_tile_def wd_tile_visible_width_for_tile_def
      wd_tile_visible_height_for_tile_def wd_tile_x_for_def wd_tile_y_for_def Let_def)

lemma demo_ready: "tile_ready True demo_sender demo_job (replicate 1024 7)"
proof -
  have "wd_stream_collect_wire_tile_base_ids demo_sender 0 16 16 32 = Some [0]"
    by (simp add: wd_stream_collect_wire_tile_base_ids_def demo_sender_def demo_grid demo_rect Let_def)
  then show ?thesis unfolding tile_ready_def Let_def demo_count by (simp add: demo_job_def demo_grid) (simp add: demo_sender_def demo_grid)
qed

lemma demo_match: "client_matches demo_sender (ct_config demo_client)"
  unfolding client_matches_def demo_target by (simp add: demo_sender_def demo_client_def packet_payload_target_def)

lemma demo_slots: "new_slots [0, 1, 2, 3] (ct_config demo_client) \<noteq> None"
  by (simp add: demo_client_def new_slots.simps wd_tile_dimensions_for_size_code_def wd_tiles_for_width_with_tile_def
      wd_tiles_for_height_with_tile_def)

lemma demo_wanted: "generation_wanted 0 3 1 demo_client"
  by (simp add: generation_wanted_def base_tiles_covered_def demo_client_def wd_tile_dimensions_for_size_code_def demo_grid demo_rect
      Let_def)

lemma demo_sent_all:
  obtains out where "demo_sent = Some out" "to_ok out" "sr_all_packets_sent (to_result out)"
    "length (to_datagrams out) = 2" "to_datagrams out ! 0 \<noteq> to_datagrams out ! 1"
proof -
  have code: "wd_tile_size_code_for_dimensions (tj_tile_width demo_job) (tj_tile_height demo_job) = Some 3"
    by (simp add: demo_job_def wd_tile_size_code_for_dimensions_def)
  have nz: "sn_session_id demo_sender \<noteq> 0" "sn_connection_token demo_sender \<noteq> 0" "sn_content_epoch demo_sender \<noteq> 0" "tj_generation demo_job \<noteq> 0"
    by (simp_all add: demo_sender_def demo_job_def)
  let ?pk = "fragment_datagram demo_sender demo_job 3 (sender_target demo_sender) 2 (replicate 1024 7)"
  obtain out where out: "demo_sent = Some out" "to_ok out" "sr_all_packets_sent (to_result out)" "to_datagrams out = map ?pk [0 ..< 2]"
    using send_complete [OF demo_ready code nz, of "\<lambda>_. UDP_SEND_QUEUED", unfolded demo_count] by auto
  have size: "if tj_compressed demo_job then unat (tj_payload_size demo_job) \<le> (tile_bytes_of (tj_tile_width demo_job) (tj_tile_height demo_job))
      else unat (tj_payload_size demo_job) = tile_bytes_of (tj_tile_width demo_job) (tj_tile_height demo_job)"
    by (simp add: demo_job_def)
  have "fragment_family (\<lambda>n. n) (ct_config demo_client) (unat (2 :: u16)) (tj_tile_width demo_job) (tj_tile_height demo_job) ?pk
      (fragment_header demo_sender demo_job 3 (sender_target demo_sender) 2)"
    using server_family(1) [OF demo_ready demo_match code, where zbound = "\<lambda>n. n", OF size fragment_fields_ok [OF demo_ready code nz],
      unfolded demo_count] by blast
  from inj_onD [OF family_inj [OF this], of 0 1] have "?pk 0 \<noteq> ?pk 1" by auto
  then show thesis using that out by (simp add: numeral_2_eq_2)
qed

definition demo_arrivals :: "tile_sent \<Rightarrow> (process_env \<times> bytes) list" where
  "demo_arrivals out = [(demo_env 1000, to_datagrams out ! 1), (demo_env 2000, to_datagrams out ! 1)]"

definition demo_last :: "tile_sent \<Rightarrow> process_env \<times> bytes" where
  "demo_last out = (demo_env 3000, to_datagrams out ! 0)"

lemma demo_payload:
  "tj_payload demo_job = Some (replicate 1024 7)" "unat (tj_payload_size demo_job) \<le> 4096"
  "tj_compressed demo_job \<longrightarrow> unat (tj_payload_size demo_job) \<le> tile_bytes_of (tj_tile_width demo_job) (tj_tile_height demo_job)"
  "payload_pixels (\<lambda>src n. None) (tj_compressed demo_job) (tile_bytes_of (tj_tile_width demo_job) (tj_tile_height demo_job))
    (take (unat (tj_payload_size demo_job)) (replicate 1024 7)) (replicate 1024 7)"
  by (simp_all add: demo_job_def payload_pixels_def)

lemma demo_wants: "wd_tile_size_code_for_dimensions (tj_tile_width demo_job) (tj_tile_height demo_job) = Some c \<Longrightarrow>
    generation_wanted (tj_tile_id demo_job) c (tj_generation demo_job) demo_client"
  using demo_wanted by (simp add: demo_job_def wd_tile_size_code_for_dimensions_def)

lemma demo_order:
  assumes "length (to_datagrams out) = 2" "to_datagrams out ! 0 \<noteq> to_datagrams out ! 1"
  shows "snd ` set (demo_arrivals out @ [demo_last out]) = set (to_datagrams out)" "snd (demo_last out) \<notin> snd ` set (demo_arrivals out)"
    "x \<in> set (demo_arrivals out @ [demo_last out]) \<Longrightarrow>
      unat (pe_now_ns (fst x) - pe_now_ns (fst (hd (demo_arrivals out @ [demo_last out])))) \<le> 150000000"
proof -
  obtain d0 d1 where d: "to_datagrams out = [d0, d1]" using assms(1) by (auto simp: length_Suc_conv numeral_2_eq_2)
  show "snd ` set (demo_arrivals out @ [demo_last out]) = set (to_datagrams out)" "snd (demo_last out) \<notin> snd ` set (demo_arrivals out)"
    "x \<in> set (demo_arrivals out @ [demo_last out]) \<Longrightarrow>
      unat (pe_now_ns (fst x) - pe_now_ns (fst (hd (demo_arrivals out @ [demo_last out])))) \<le> 150000000"
    using assms(2) d by (auto simp: demo_arrivals_def demo_last_def demo_env_def)
qed

theorem sent_tile_reassembles_witness:
  "\<exists>out c s'. demo_sent = Some out \<and> length (to_datagrams out) = 2 \<and>
     reassembly_run (\<lambda>n. n) (\<lambda>src n. None) (map (\<lambda>(env, p). Udp_packet env p) (demo_arrivals out @ [demo_last out]))
       (TileReassembler 4 4096, demo_client) = Some (replicate (length (demo_arrivals out)) None @ [Some c], s') \<and>
     cp_tile_bytes c = replicate 1024 7 \<and> cp_input_sequence c = tj_input_sequence demo_job"
proof -
  obtain out where out: "demo_sent = Some out" "to_ok out" "sr_all_packets_sent (to_result out)"
      "length (to_datagrams out) = 2" "to_datagrams out ! 0 \<noteq> to_datagrams out ! 1"
    by (rule demo_sent_all)
  show ?thesis
    using sent_tile_reassembles [OF out(1-3) demo_match demo_slots demo_payload(1,2), where zbound = "\<lambda>n. n",
        OF demo_payload(3,4) demo_wants demo_order [OF out(4,5)], of 4] out(1,4) by blast
qed

section \<open>What a completed tile is\<close>

text \<open>The last packet of the delivery above.\<close>

lemma run_snoc:
  assumes "reassembly_run zbound zdec (evs @ [Udp_packet env p]) s = Some (cs @ [c], s'')" "length cs = length evs"
    and "run_inv zbound P s"
  obtains s1 where "reassembly_run zbound zdec evs s = Some (cs, s1)" "process_udp_packet zbound zdec env p s1 = Some (c, s'')"
proof -
  obtain cs1 s1 where r: "reassembly_run zbound zdec evs s = Some (cs1, s1)" using run_ok [OF assms(3)] by blast
  have "cs1 = cs \<and> process_udp_packet zbound zdec env p s1 = Some (c, s'')"
    using assms(1) unfolding run_append [OF r] by (auto split: option.splits)
  then show thesis using that r by blast
qed

lemma demo_completed:
  "\<exists>evs cs ra st env packet c s'.
    reassembly_run (\<lambda>n. n) (\<lambda>src n. None) evs (TileReassembler 4 4096, demo_client) = Some (cs, ra, st) \<and>
    process_udp_packet (\<lambda>n. n) (\<lambda>src n. None) env packet (ra, st) = Some (Some c, s') \<and> cp_tile_bytes c = replicate 1024 7"
proof -
  obtain out where out: "demo_sent = Some out" "to_ok out" "sr_all_packets_sent (to_result out)"
      "length (to_datagrams out) = 2" "to_datagrams out ! 0 \<noteq> to_datagrams out ! 1"
    by (rule demo_sent_all)
  let ?evs = "map (\<lambda>(env, p). Udp_packet env p) (demo_arrivals out)"
  obtain c s' where c: "reassembly_run (\<lambda>n. n) (\<lambda>src n. None) (map (\<lambda>(env, p). Udp_packet env p) (demo_arrivals out @ [demo_last out]))
       (TileReassembler 4 4096, demo_client) = Some (replicate (length (demo_arrivals out)) None @ [Some c], s')"
      "cp_tile_bytes c = replicate 1024 7"
    using delivered_tile [OF out(1-3) demo_match demo_slots demo_payload(1,2), where zbound = "\<lambda>n. n",
        OF demo_payload(3,4) demo_wants demo_order [OF out(4,5)], of 4] by blast
  have "map (\<lambda>(env, p). Udp_packet env p) (demo_arrivals out @ [demo_last out]) =
      ?evs @ [Udp_packet (fst (demo_last out)) (snd (demo_last out))]" by (simp add: case_prod_beta)
  note run = c(1) [unfolded this]
  obtain s1 where s1: "reassembly_run (\<lambda>n. n) (\<lambda>src n. None) ?evs (TileReassembler 4 4096, demo_client) =
        Some (replicate (length (demo_arrivals out)) None, s1)"
      "process_udp_packet (\<lambda>n. n) (\<lambda>src n. None) (fst (demo_last out)) (snd (demo_last out)) s1 = Some (Some c, s')"
    by (rule run_snoc [OF run _ start_inv]) simp_all
  then show ?thesis using c(2) by (cases s1) blast
qed

text \<open>
  C5: Every tile that the client completes is made of packets that arrived: there is one
  accepted packet for each of its fragments, all of the same tile, size, generation and content
  epoch, whose payloads in the order of the fragments are the tile's bytes or decompress to them; the
  input sequence is that of its first fragment. No byte of another tile, of another generation or
  of a recycled buffer gets into it, whatever happened before.
\<close>

theorem completed_tile_from_packets:
  assumes "reassembly_run zbound zdec evs (TileReassembler m n, st0) = Some (cs, ra, st)"
    and "process_udp_packet zbound zdec env packet (ra, st) = Some (Some c, s')"
  shows "made_of zbound zdec (ct_config st) (insert packet (\<Union>ev\<in>set evs. packet_of ev)) c"
  using run_then_packet [OF assms] by simp

theorem completed_tile_from_packets_witness:
  "\<exists>evs cs ra st env packet c s'.
    reassembly_run (\<lambda>n. n) (\<lambda>src n. None) evs (TileReassembler 4 4096, demo_client) = Some (cs, ra, st) \<and>
    process_udp_packet (\<lambda>n. n) (\<lambda>src n. None) env packet (ra, st) = Some (Some c, s') \<and>
    made_of (\<lambda>n. n) (\<lambda>src n. None) (ct_config st) (insert packet (\<Union>ev\<in>set evs. packet_of ev)) c"
proof -
  obtain evs cs ra st env packet c s' where
    d: "reassembly_run (\<lambda>n. n) (\<lambda>src n. None) evs (TileReassembler 4 4096, demo_client) = Some (cs, ra, st)"
      "process_udp_packet (\<lambda>n. n) (\<lambda>src n. None) env packet (ra, st) = Some (Some c, s')"
    using demo_completed by blast
  from completed_tile_from_packets [OF d] d show ?thesis by blast
qed

text \<open>
  C7: A completed tile is well-formed for the client's display: its dimensions are one of the four
  wire sizes, it has exactly the bytes of its pixels, it has a place in the display, and copying it
  into a framebuffer of the display's size writes the tile's pixels in that rectangle and
  nothing else.
\<close>

theorem completed_tile_wellformed:
  assumes "reassembly_run zbound zdec evs (TileReassembler m n, st0) = Some (cs, ra, st)"
    and "process_udp_packet zbound zdec env packet (ra, st) = Some (Some c, s')"
    and "unat (tc_width (ct_config st)) * unat (tc_height (ct_config st)) \<le> length fb"
  shows "(cp_tile_width c, cp_tile_height c) \<in> {(128, 64), (64, 64), (32, 32), (16, 16)} \<and>
    length (cp_tile_bytes c) = tile_bytes_of (cp_tile_width c) (cp_tile_height c) \<and>
    (\<exists>r fb'. tile_upload_geometry (ct_config st) (cp_tile_id c) (cp_tile_width c) (cp_tile_height c) (cp_tile_bytes c) = Some r \<and>
       rect_in (ct_config st) (cp_tile_width c) (cp_tile_height c) r \<and>
       blit_tile_xrgb8888 (ct_config st) (cp_tile_width c) (cp_tile_bytes c) r fb = Some (True, fb') \<and> length fb' = length fb \<and>
       (\<forall>X Y. X < unat (tc_width (ct_config st)) \<and> Y < unat (tc_height (ct_config st)) \<longrightarrow>
          fb' ! (Y * unat (tc_width (ct_config st)) + X) =
            (if in_rect r X Y then tile_pixel (cp_tile_width c) (cp_tile_bytes c) (X - unat (dr_x r)) (Y - unat (dr_y r))
             else fb ! (Y * unat (tc_width (ct_config st)) + X))))"
proof -
  have "made_of zbound zdec (ct_config st) (insert packet (\<Union>ev\<in>set evs. packet_of ev)) c"
    using run_then_packet [OF assms(1,2)] by simp
  note w = made_of_wellformed [OF this]
  then obtain r where r: "tile_upload_geometry (ct_config st) (cp_tile_id c) (cp_tile_width c) (cp_tile_height c) (cp_tile_bytes c) = Some r"
      "rect_in (ct_config st) (cp_tile_width c) (cp_tile_height c) r" by blast
  show ?thesis using w(1,2) r blit_tile_ok [OF r(2) w(2) assms(3)] by blast
qed

theorem completed_tile_wellformed_witness:
  "\<exists>evs cs ra st env packet c s'.
    reassembly_run (\<lambda>n. n) (\<lambda>src n. None) evs (TileReassembler 4 4096, demo_client) = Some (cs, ra, st) \<and>
    process_udp_packet (\<lambda>n. n) (\<lambda>src n. None) env packet (ra, st) = Some (Some c, s') \<and>
    (cp_tile_width c, cp_tile_height c) \<in> {(128, 64), (64, 64), (32, 32), (16, 16)} \<and>
    length (cp_tile_bytes c) = tile_bytes_of (cp_tile_width c) (cp_tile_height c)"
proof -
  obtain evs cs ra st env packet c s' where
    d: "reassembly_run (\<lambda>n. n) (\<lambda>src n. None) evs (TileReassembler 4 4096, demo_client) = Some (cs, ra, st)"
      "process_udp_packet (\<lambda>n. n) (\<lambda>src n. None) env packet (ra, st) = Some (Some c, s')"
    using demo_completed by blast
  let ?fb = "replicate (unat (tc_width (ct_config st)) * unat (tc_height (ct_config st))) 0"
  have "unat (tc_width (ct_config st)) * unat (tc_height (ct_config st)) \<le> length ?fb" by simp
  from completed_tile_wellformed [OF d this] d show ?thesis by blast
qed

end
