(* ===== verification/Spec2Isabelle.thy ===== *)
theory Spec2Isabelle
  imports WD_Tile WD_Dispatch WD_Completion_Queue WD_Audio_Ring WD_Scheduler_Refine WD_Selection WD_Net_Frames
          WD_Bitstream WD_Frame WD_Client_Video WD_Tile_Delivery
begin

text \<open>
  WayDisplay is a remote Wayland display. A compositor process (\<open>src/src/server\<close>) sends its
  output to a viewer (\<open>src/src/client\<close>), as tiles in UDP packets or as an encoded video stream, and
  takes input, clipboard text and requests back. Structures and routines that both use are in
  \<open>src/src/common\<close> and \<open>src/include/waydisplay\<close>. This development models the parts of both ends that
  decide what is on the wire, in the queues and in the framebuffers, and proves them correct; the
  glue to the kernel and to libraries is a parameter or is left out, as listed below.

  \<^bold>\<open>How the sources are modelled.\<close> A C structure or C++ class is a record with the fields of the source,
  under a prefix for its structure; an enumeration is a datatype; an operation is a function from the
  old state to its result and the new state. Integers of fixed width are words, so that arithmetic
  wraps as in C; \<open>size_t\<close>, and indices that the code bounds, are natural numbers. A null pointer is
  \<open>None\<close>. Memory is a list, every access is checked, and the result \<open>None\<close> of an operation means an
  access outside a block (or, for shared buffers, to freed memory): a theorem that an operation
  returns \<open>Some\<close> says that the code makes no such access. What the environment decides (a clock, the
  answer of a system call, the outcome of a library call) is an argument. Threads are interleavings of
  the steps that the code makes atomic, by a lock or by an atomic instruction.

  \<^bold>\<open>Shared ground.\<close>
  \<^item> \<open>WD_Prelude\<close>: integer types, checked memory, little-endian images and the lemmas the rest uses.
  \<^item> \<open>WD_Refine\<close>: the locale \<open>data_refinement\<close>, the contract between a C object and the value it
    stands for, which the queues, the ring and the scheduler interpret; and rings as lists.

  \<^bold>\<open>The wire.\<close>
  \<^item> \<open>WD_Wire\<close> (\<open>wd_protocol.h\<close>, \<open>wd_protocol_codec.c\<close>): the locale \<open>wire_codec\<close> of packed structures,
    the TCP header and the UDP tile packet. Decoding accepts exactly the encodings of
    well-formed packets, and the fragments of a tile partition its payload.
  \<^item> \<open>WD_Payloads\<close>, \<open>WD_Validate\<close> (\<open>wd_protocol.h\<close>): layouts of all payloads and the inline validators.
  \<^item> \<open>WD_Dispatch\<close> (\<open>wd_protocol_dispatch.c\<close>): the message table; no message is ambiguous, and an allowed
    message fits the limit of its channel.
  \<^item> \<open>WD_Net\<close>, \<open>WD_Net_Frames\<close> (\<open>wd_net.c\<close>): framing on TCP. Messages arrive whole and in order whatever
    portions the kernel delivers; the reader never leaves its buffers on any input; a slow frame
    times out; waiting for a message returns.
  \<^item> \<open>WD_Selection\<close> (\<open>wd_selection.c\<close>, \<open>wd_selection_capture.c\<close>, \<open>wd_selection_delivery.c\<close>): clipboard text. The
    validator accepts exactly UTF-8 without NUL, and captured text reaches the client.

  \<^bold>\<open>Tiles, from the framebuffer of the server to that of the client.\<close>
  \<^item> \<open>WD_Tile\<close> (\<open>wd_tile.c\<close>): the grid, and extraction, copy and hash of a tile. Each pixel is in exactly
    one tile, and extracting and copying all tiles rebuilds the framebuffer.
  \<^item> \<open>WD_Region_Heap\<close>, \<open>WD_Scheduler\<close>, \<open>WD_Scheduler_Refine\<close> (\<open>wd_dirty_region_scheduler.c\<close>): which region is
    sent next. The heap with stale entries, the bit set and the serials implement a set of regions
    with their ages; every region is served once, starved ones first, oldest first.
  \<^item> \<open>WD_Completion_Queue\<close> (\<open>wd_encode_completion_queue.c\<close>): a bounded queue of finished encoder jobs.
  \<^item> \<open>WD_Tile_Send\<close> (\<open>wd_stream.c\<close>, \<open>wd_tile_policy.c\<close>): \<open>wd_stream_send_tile_payload_sized_locked\<close> cuts a
    payload into datagrams. What is queued is a prefix of the fragments, all of them if the sender
    takes every one, and the delivery of a tile is finished exactly once.
  \<^item> \<open>WD_Repair\<close>, \<open>WD_Reassembly\<close> (\<open>tile_reassembly.cpp\<close>): the client's bookkeeping of repairs and the class
    \<open>TileReassembler\<close>, with its slot tables, budget, expiry and the handling of a packet.
  \<^item> \<open>WD_Reassembly_Inv\<close>, \<open>WD_Reassembly_Run\<close>: its invariant, kept by every event. No sequence of packets,
    expiries, resets and configurations makes it leave an array or its budget, and the bytes of
    an entry come from the packets that were accepted for it.
  \<^item> \<open>WD_Client_Tiles\<close> (\<open>client_receive.cpp\<close>): the rectangle of a completed tile and its copy into the
    framebuffer.
  \<^item> \<open>WD_Tile_Delivery\<close>: both ends together. The datagrams of a tile, in any order and with repetitions,
    complete it with its last fragment and not before, and a completed tile is made of packets
    that arrived and fits the display.

  \<^bold>\<open>Video and audio.\<close>
  \<^item> \<open>WD_Bitstream\<close> (\<open>wd_hevc_annexb.c\<close>, \<open>video_keyframe_recovery.c\<close>): the repair of a start code and the
    test for a self-contained key frame; for H.264 and HEVC it is proved against what an access unit
    of NAL units is, for AV1 that it never leaves the packet.
  \<^item> \<open>WD_Buffer\<close>, \<open>WD_Frame\<close> (\<open>wd_buffer.c\<close>, \<open>wd_frame.c\<close>): reference counts under any interleaving of threads,
    and frames that own a buffer or file descriptors; nothing is freed twice or leaked.
  \<^item> \<open>WD_Client_Ownership\<close> (\<open>stream_ownership.c\<close>, \<open>content_order.cpp\<close>, \<open>client_session.c\<close>): whether tiles or video own
    the picture, as a packed word under compare-and-exchange (locale \<open>stamped_word\<close>), and the order of
    content epochs.
  \<^item> \<open>WD_Client_Video\<close> (\<open>client_net.cpp\<close> and the policies it calls): from a received packet to the decoder. A
    new decoder starts with a key frame, and the worker takes packets without gaps.
  \<^item> \<open>WD_Audio_Ring\<close> (\<open>wd_audio_ring.c\<close>): the ring between capture and encoder is a bounded queue of
    time-stamped frames that keeps a block whole or drops it whole.

  \<^bold>\<open>Loops and bounds.\<close> The operations are total functions: loops recurse on the list or the count they
  walk, or have a termination proof (the entries left in the reassembler, the bytes left in a
  packet, the events left on a socket). One loop, the growth of the capture buffer, is a partial
  function in the option monad, and the properties show that it returns. Atomic steps of threads are
  inductive relations. No fuel is used. Size bounds are those of the sources
  and are stated where they matter, as 255 fragments and 65535 bytes for a tile, or 32-bit sizes.

  \<^bold>\<open>Parameters.\<close> \<open>ZSTD_compressBound\<close> and \<open>ZSTD_decompress\<close> in the reassembler, the decoder in the video path,
  the kernel's sockets and descriptors, the asynchronous UDP sender's answers, the clock, and the
  floating-point estimator of the reassembly timeout. Their documented behaviour, where a property
  needs it, is a hypothesis of the property, and its witness instantiates them.

  \<^bold>\<open>Not modelled.\<close> The compositor, input and clipboard callbacks, which live in the object graph of wlroots; the
  calls of FFmpeg, VA-API, PipeWire, Opus and SDL; the threads, sockets and io_uring rings around the
  modelled handlers (\<open>wd_server_net.c\<close>, \<open>wd_async_tcp.c\<close>, \<open>wd_async_udp.c\<close>, \<open>client_transport.cpp\<close> and
  others); the stream thread's pacing, rates and telemetry (most of \<open>wd_stream.c\<close>, \<open>wd_stream_video.c\<close>), which
  compute with floating point on measured values; rendering and presentation in \<open>sdl_viewer.cpp\<close>; process
  handling, command lines and logging. Statistics counters are left out of the modelled parts.
  What finishing a tile's delivery does to the dirty queue is left out of \<open>WD_Tile_Send\<close>.
\<close>

end
